(* ===== verification/Prelude.thy ===== *)
theory Prelude
  imports Complex_Main "HOL-Library.Word"
begin

text \<open>
  Shared vocabulary of the development: bytes, the \<open>while True\<close> combinator with its
  proof rules, Python's \<open>int.to_bytes\<close> and \<open>int.from_bytes\<close> (little endian), positional
  file access, and the collections of simplification rules that the component theories
  extend. A Python integer that the code can never make negative (a length, an index, a
  value decoded from bytes) is a \<open>nat\<close>; one that can be negative is an \<open>int\<close>.
\<close>

unbundle bit_operations_syntax

type_synonym byte = "8 word"

named_theorems layout \<open>lengths and positions of encoded data\<close>
named_theorems wire_simps \<open>decoding what the wire encoders produce\<close>

section \<open>The unbounded loop\<close>

text \<open>
  \<open>while True\<close> loops: one iteration of the body returns \<open>Some (Inl r)\<close> to leave the loop
  with result \<open>r\<close> (a \<open>break\<close>, a \<open>return\<close> or an exception that leaves it),
  \<open>Some (Inr y)\<close> to go round again in state \<open>y\<close>, and \<open>None\<close> if the body itself does not
  return. The loop is \<open>None\<close> exactly when it does not return.
\<close>

partial_function (option) while_true :: "('a \<Rightarrow> ('r + 'a) option) \<Rightarrow> 'a \<Rightarrow> 'r option" where
  "while_true body x =
     (case body x of
        None \<Rightarrow> None
      | Some z \<Rightarrow> (case z of Inl r \<Rightarrow> Some r | Inr y \<Rightarrow> while_true body y))"

declare while_true.simps [code]

lemma while_true_break: "body x = Some (Inl r) \<Longrightarrow> while_true body x = Some r"
  by (simp add: while_true.simps)

lemma while_true_continue:
  "body x = Some (Inr y) \<Longrightarrow> while_true body x = while_true body y"
  by (simp add: while_true.simps [of body x])

lemma while_true_diverge: "body x = None \<Longrightarrow> while_true body x = None"
  by (simp add: while_true.simps)

text \<open>Partial correctness: an invariant that the body keeps holds where the loop returns.\<close>

lemma while_true_rule:
  assumes ret: "while_true body x = Some r"
    and init: "I x"
    and step: "\<And>x y. I x \<Longrightarrow> body x = Some (Inr y) \<Longrightarrow> I y"
    and exit: "\<And>x r. I x \<Longrightarrow> body x = Some (Inl r) \<Longrightarrow> Q r"
  shows "Q r"
proof -
  let ?P = "\<lambda>b x r. b = body \<longrightarrow> I x \<longrightarrow> Q r"
  have "?P body x r"
  proof (rule while_true.raw_induct [where P = ?P and xa = "(body, x)", simplified prod.case])
    fix f b x r
    assume IH: "\<And>x b y. f x b = Some y \<Longrightarrow> ?P x b y"
      and eq: "(case b x of None \<Rightarrow> None
        | Some z \<Rightarrow> (case z of Inl r \<Rightarrow> Some r | Inr y \<Rightarrow> f b y)) = Some r"
    show "?P b x r"
      using eq step exit by (auto split: option.splits sum.splits dest: IH)
  qed (rule ret)
  with init show ?thesis by simp
qed

text \<open>Two loops in step: the second returns where the first does, with related results.\<close>

lemma while_true_sim:
  assumes ret: "while_true f x = Some r"
    and init: "R x y"
    and step: "\<And>x y z. R x y \<Longrightarrow> f x = Some z \<Longrightarrow> \<exists>w. g y = Some w \<and> rel_sum Q R z w"
  shows "\<exists>r'. while_true g y = Some r' \<and> Q r r'"
  using ret
proof (rule while_true_rule [where I = "\<lambda>x. \<exists>y'. R x y' \<and> while_true g y = while_true g y'"])
  show "\<exists>y'. R x y' \<and> while_true g y = while_true g y'" using init by blast
next
  fix x1 x2
  assume "\<exists>y'. R x1 y' \<and> while_true g y = while_true g y'" and run: "f x1 = Some (Inr x2)"
  then obtain y1 where y1: "R x1 y1" "while_true g y = while_true g y1" by blast
  from step [OF y1(1) run] obtain y2 where "g y1 = Some (Inr y2)" "R x2 y2"
    by (auto elim: rel_sum.cases)
  with y1(2) show "\<exists>y'. R x2 y' \<and> while_true g y = while_true g y'"
    by (auto simp: while_true_continue)
next
  fix x1 r
  assume "\<exists>y'. R x1 y' \<and> while_true g y = while_true g y'" and run: "f x1 = Some (Inl r)"
  then obtain y1 where y1: "R x1 y1" "while_true g y = while_true g y1" by blast
  from step [OF y1(1) run] obtain r' where "g y1 = Some (Inl r')" "Q r r'"
    by (auto elim: rel_sum.cases)
  with y1(2) show "\<exists>r'. while_true g y = Some r' \<and> Q r r'"
    by (auto simp: while_true_break)
qed

text \<open>Total correctness: a measure that every further round decreases.\<close>

lemma while_true_total:
  fixes m :: "'a \<Rightarrow> nat"
  assumes init: "I x"
    and step: "\<And>x. I x \<Longrightarrow>
      (\<exists>r. body x = Some (Inl r) \<and> Q r) \<or> (\<exists>y. body x = Some (Inr y) \<and> I y \<and> m y < m x)"
  shows "\<exists>r. while_true body x = Some r \<and> Q r"
  using init
proof (induction "m x" arbitrary: x rule: less_induct)
  case less
  from step [OF less.prems] show ?case
  proof
    assume "\<exists>r. body x = Some (Inl r) \<and> Q r"
    then show ?thesis by (auto intro: while_true_break)
  next
    assume "\<exists>y. body x = Some (Inr y) \<and> I y \<and> m y < m x"
    then obtain y where "body x = Some (Inr y)" "I y" "m y < m x" by blast
    with less.hyps show ?thesis by (auto simp: while_true_continue)
  qed
qed

section \<open>Integers as little-endian bytes\<close>

text \<open>
  \<open>to_bytes_le n k\<close> is \<open>k.to_bytes(n, "little")\<close>: \<open>None\<close> where Python raises
  \<open>OverflowError\<close>. \<open>le_bytes\<close> is the byte string without the range check, \<open>from_bytes_le\<close>
  is \<open>int.from_bytes(bs, "little")\<close>.
\<close>

fun le_bytes :: "nat \<Rightarrow> nat \<Rightarrow> byte list" where
  "le_bytes 0 k = []"
| "le_bytes (Suc n) k = word_of_nat (k mod 256) # le_bytes n (k div 256)"

definition to_bytes_le :: "nat \<Rightarrow> nat \<Rightarrow> byte list option" where
  "to_bytes_le n k = (if k < 256 ^ n then Some (le_bytes n k) else None)"

fun from_bytes_le :: "byte list \<Rightarrow> nat" where
  "from_bytes_le [] = 0"
| "from_bytes_le (b # bs) = unat b + 256 * from_bytes_le bs"

lemma length_le_bytes [simp, layout]: "length (le_bytes n k) = n"
  by (induction n k rule: le_bytes.induct) simp_all

lemma unat_byte_less [simp]: "unat (b :: byte) < 256"
  using unsigned_less [of b, where ?'a = nat] by simp

lemma unat_byte_of_mod [simp]: "unat (word_of_nat (k mod 256) :: byte) = k mod 256"
  by (simp add: unat_of_nat)

lemma from_le_bytes_mod: "from_bytes_le (le_bytes n k) = k mod 256 ^ n"
proof (induction n arbitrary: k)
  case 0
  show ?case by simp
next
  case (Suc n)
  have "k mod 256 + 256 * (k div 256 mod 256 ^ n) = k mod 256 ^ Suc n"
    by (simp add: mod_mult2_eq mult.commute)
  with Suc show ?case by simp
qed

lemma from_le_bytes [simp, wire_simps]: "k < 256 ^ n \<Longrightarrow> from_bytes_le (le_bytes n k) = k"
  by (simp add: from_le_bytes_mod)

lemma from_bytes_le_bound: "from_bytes_le bs < 256 ^ length bs"
proof (induction bs)
  case Nil
  show ?case by simp
next
  case (Cons b bs)
  have "unat b < 256" by simp
  moreover from Cons have "from_bytes_le bs + 1 \<le> 256 ^ length bs" by simp
  then have "256 * from_bytes_le bs + 256 \<le> 256 * 256 ^ length bs" by linarith
  ultimately show ?case unfolding from_bytes_le.simps length_Cons power_Suc by linarith
qed

lemma le_from_bytes [simp]: "length bs = n \<Longrightarrow> le_bytes n (from_bytes_le bs) = bs"
proof (induction bs arbitrary: n)
  case Nil
  then show ?case by simp
next
  case (Cons b bs)
  have "unat b < 256" by simp
  then have "(unat b + 256 * from_bytes_le bs) mod 256 = unat b"
    and "(unat b + 256 * from_bytes_le bs) div 256 = from_bytes_le bs"
    by simp_all
  with Cons show ?case by auto
qed

lemma from_bytes_le_inj:
  "length xs = length ys \<Longrightarrow> from_bytes_le xs = from_bytes_le ys \<Longrightarrow> xs = ys"
proof -
  assume "length xs = length ys" and "from_bytes_le xs = from_bytes_le ys"
  then have "le_bytes (length xs) (from_bytes_le xs) = le_bytes (length ys) (from_bytes_le ys)"
    by simp
  then show "xs = ys" by simp
qed

lemma to_bytes_le_Some [simp]: "k < 256 ^ n \<Longrightarrow> to_bytes_le n k = Some (le_bytes n k)"
  by (simp add: to_bytes_le_def)

end
