(* ===== verification/Crc16.thy ===== *)
theory Crc16
  imports Prelude
begin

text \<open>
  CRC-16/CCITT-FALSE: \<open>crc16\<close> of \<open>rx-host/rx.py\<close>, its copy in \<open>tools/emu8086.py\<close>, and
  \<open>crc16_update\<close> of \<open>tx-msdos/src/crc16.c\<close>. The Python routine works on unbounded integers
  that it masks to 16 bits, the C routine on 16-bit machine words; the two are shown to agree,
  and the error detection the protocol rests on is derived on the words.
\<close>

section \<open>The host's routine\<close>

text \<open>The body of the inner loop, and the eight rounds of it per byte.\<close>

definition crc_bit :: "nat \<Rightarrow> nat" where
  "crc_bit crc =
     (if crc AND 0x8000 \<noteq> 0 then (push_bit 1 crc XOR 0x1021) AND 0xFFFF
      else push_bit 1 crc AND 0xFFFF)"

definition crc_byte :: "nat \<Rightarrow> byte \<Rightarrow> nat" where
  "crc_byte crc b = (crc_bit ^^ 8) (crc XOR push_bit 8 (unat b))"

definition crc16 :: "byte list \<Rightarrow> nat" where
  "crc16 data = foldl crc_byte 0xFFFF data"

section \<open>The DOS side's routine\<close>

definition crc16_update_bit :: "16 word \<Rightarrow> 16 word" where
  "crc16_update_bit crc =
     (if crc AND 0x8000 \<noteq> 0 then push_bit 1 crc XOR 0x1021 else push_bit 1 crc)"

definition crc16_update :: "16 word \<Rightarrow> byte \<Rightarrow> 16 word" where
  "crc16_update crc b = (crc16_update_bit ^^ 8) (crc XOR push_bit 8 (ucast b))"

section \<open>Agreement of the two\<close>

lemma mask_FFFF: "0xFFFF = (mask 16 :: nat)"
  by (simp add: mask_eq_exp_minus_1)

lemma crc_bit_word: "crc_bit (unat w) = unat (crc16_update_bit w)"
proof -
  have "unat (w AND 0x8000) = unat w AND 0x8000"
    by (simp add: unsigned_and_eq)
  then have test: "unat w AND 0x8000 \<noteq> 0 \<longleftrightarrow> w AND 0x8000 \<noteq> 0"
    by (metis unat_0_iff)
  show ?thesis
    unfolding crc_bit_def crc16_update_bit_def test mask_FFFF take_bit_eq_mask [symmetric]
    by (simp add: unsigned_push_bit_eq unsigned_xor_eq del: push_bit_Suc)
qed

lemma crc_bits_word: "(crc_bit ^^ n) (unat w) = unat ((crc16_update_bit ^^ n) w)"
  by (induction n) (simp_all add: crc_bit_word)

lemma crc_byte_word: "crc_byte (unat w) b = unat (crc16_update w b)"
proof -
  have self: "take_bit n (unat b) = unat b" if "8 \<le> n" for n
  proof (rule take_bit_nat_eq_self)
    have "(2::nat) ^ 8 \<le> 2 ^ n" using that by (rule power_increasing) simp
    then have "256 \<le> (2::nat) ^ n" by simp
    with unat_byte_less show "unat b < 2 ^ n" by (rule less_le_trans)
  qed
  then have "take_bit 16 (push_bit 8 (unat b)) = push_bit 8 (unat b)"
    by (simp add: take_bit_push_bit)
  with self have "unat w XOR push_bit 8 (unat b) = unat (w XOR push_bit 8 (ucast b))"
    by (simp add: unsigned_xor_eq unsigned_push_bit_eq unsigned_ucast_eq)
  then show ?thesis
    by (simp add: crc_byte_def crc16_update_def crc_bits_word)
qed

lemma foldl_crc_byte: "foldl crc_byte (unat w) data = unat (foldl crc16_update w data)"
  by (induction data arbitrary: w) (simp_all add: crc_byte_word)

lemma crc16_word: "crc16 data = unat (foldl crc16_update 0xFFFF data)"
  using foldl_crc_byte [of "0xFFFF" data] by (simp add: crc16_def)

lemma crc16_less [simp]: "crc16 data < 65536"
  using unsigned_less [of "foldl crc16_update 0xFFFF data", where ?'a = nat]
  by (simp add: crc16_word)

section \<open>Error detection\<close>

lemma xor_cancel_word: "a XOR c = b XOR c \<longleftrightarrow> a = b" for a b c :: "'a::len word"
  by (metis xor.assoc xor.right_neutral xor_self_eq)

lemma msb_test: "w AND 0x8000 \<noteq> 0 \<longleftrightarrow> bit w 15" for w :: "16 word"
proof -
  have "w AND 0x8000 = w AND push_bit 15 1" by simp
  also have "\<dots> \<noteq> 0 \<longleftrightarrow> bit w 15"
    by (metis and_exp_eq_0_iff_not_bit push_bit_of_1)
  finally show ?thesis .
qed

lemma crc16_update_bit_alt:
  "crc16_update_bit w = push_bit 1 w XOR (if bit w 15 then 0x1021 else 0)"
  unfolding crc16_update_bit_def msb_test by simp

lemma crc16_update_bit_xor:
  "crc16_update_bit (a XOR b) = crc16_update_bit a XOR crc16_update_bit b"
  unfolding crc16_update_bit_alt bit_xor_iff push_bit_xor
  by (auto simp: xor.assoc xor.commute xor.left_commute)

lemma crc16_update_bit_inj: "crc16_update_bit a = crc16_update_bit b \<longleftrightarrow> a = b"
proof
  assume eq: "crc16_update_bit a = crc16_update_bit b"
  have "bit (crc16_update_bit w) 0 = bit w 15" for w
    unfolding crc16_update_bit_def msb_test by (simp add: bit_simps) (simp add: bit_0)
  with eq have msb: "bit a 15 = bit b 15" by metis
  with eq have "push_bit 1 a = push_bit 1 b"
    unfolding crc16_update_bit_alt by (simp only: xor_cancel_word)
  moreover have "bit (push_bit 1 w) (Suc n) = bit w n" if "n < 15" for n and w :: "16 word"
    using that by (simp add: bit_simps del: push_bit_Suc One_nat_def)
  ultimately have low: "n < 15 \<Longrightarrow> bit a n = bit b n" for n by metis
  show "a = b"
  proof (rule bit_word_eqI)
    fix n assume "n < LENGTH(16)"
    then have "n < 15 \<or> n = 15" by auto
    with low msb show "bit a n = bit b n" by auto
  qed
qed simp

lemma crc16_update_bits_inj: "(crc16_update_bit ^^ n) a = (crc16_update_bit ^^ n) b \<longleftrightarrow> a = b"
  by (induction n) (simp_all add: crc16_update_bit_inj)

lemma crc16_update_bits_xor:
  "(crc16_update_bit ^^ n) (a XOR b) = (crc16_update_bit ^^ n) a XOR (crc16_update_bit ^^ n) b"
  by (induction n) (simp_all add: crc16_update_bit_xor)

lemma crc16_update_inj: "crc16_update s b = crc16_update t b \<longleftrightarrow> s = t"
  by (simp add: crc16_update_def crc16_update_bits_inj xor_cancel_word)

lemma foldl_crc16_update_inj: "foldl crc16_update s ys = foldl crc16_update t ys \<longleftrightarrow> s = t"
  by (induction ys arbitrary: s t) (simp_all add: crc16_update_inj)

text \<open>
  A byte that enters the low end of the register travels to the high end unchanged in eight
  rounds, so two successive bytes act as one 16-bit word.
\<close>

lemma crc16_update_bits_low:
  assumes "n \<le> 8"
  shows "(crc16_update_bit ^^ n) (ucast (b :: byte)) = push_bit n (ucast b)"
  using assms
proof (induction n)
  case 0
  show ?case by simp
next
  case (Suc n)
  then have "\<not> bit (push_bit n (ucast b) :: 16 word) 15"
    by (auto simp: bit_simps dest!: bit_imp_le_length)
  with Suc show ?case
    by (simp add: crc16_update_bit_alt push_bit_push_bit del: push_bit_Suc)
qed

lemma crc16_update_two:
  "crc16_update (crc16_update s b1) b2 =
     (crc16_update_bit ^^ 16) ((s XOR push_bit 8 (ucast b1)) XOR ucast b2)"
proof -
  have "(crc16_update_bit ^^ 16) w = (crc16_update_bit ^^ 8) ((crc16_update_bit ^^ 8) w)" for w
    by (metis comp_apply funpow_add numeral_Bit0)
  then show ?thesis
    by (simp add: crc16_update_def crc16_update_bits_xor crc16_update_bits_low)
qed

lemma byte_pair_inj:
  fixes b1 b2 c1 c2 :: byte
  assumes "push_bit 8 (ucast b1) XOR ucast b2 = (push_bit 8 (ucast c1) XOR ucast c2 :: 16 word)"
  shows "b1 = c1 \<and> b2 = c2"
proof -
  have hi: "bit (push_bit 8 (ucast b1) XOR ucast b2 :: 16 word) (n + 8) = bit b1 n"
    and lo: "bit (push_bit 8 (ucast b1) XOR ucast b2 :: 16 word) n = bit b2 n"
    if "n < 8" for b1 b2 :: byte and n
    using that by (auto simp: bit_simps dest: bit_imp_le_length)
  have "b1 = c1"
    using assms hi [of _ b1 b2] hi [of _ c1 c2] by (intro bit_word_eqI) auto
  moreover have "b2 = c2"
    using assms lo [of _ b1 b2] lo [of _ c1 c2] by (intro bit_word_eqI) auto
  ultimately show ?thesis by simp
qed

text \<open>
  Any damage confined to two neighbouring bytes (so any burst of up to nine bits, and every
  aligned burst of sixteen) changes the checksum, whatever surrounds them.
\<close>

lemma crc16_burst:
  assumes "crc16 (xs @ [b1, b2] @ ys) = crc16 (xs @ [c1, c2] @ ys)"
  shows "b1 = c1 \<and> b2 = c2"
proof -
  let ?s = "foldl crc16_update 0xFFFF xs"
  from assms have "crc16_update (crc16_update ?s b1) b2 = crc16_update (crc16_update ?s c1) c2"
    by (simp add: crc16_word foldl_crc16_update_inj word_unat_eq_iff [symmetric])
  then have "push_bit 8 (ucast b1) XOR ucast b2 = (push_bit 8 (ucast c1) XOR ucast c2 :: 16 word)"
    by (simp add: crc16_update_two crc16_update_bits_inj xor.assoc)
       (metis xor.commute xor_cancel_word)
  then show ?thesis by (rule byte_pair_inj)
qed

lemma crc16_one_byte:
  assumes "crc16 (xs @ [b] @ ys) = crc16 (xs @ [c] @ ys)"
  shows "b = c"
proof -
  from assms have "crc16_update (foldl crc16_update 0xFFFF xs) b =
      crc16_update (foldl crc16_update 0xFFFF xs) c"
    by (simp add: crc16_word foldl_crc16_update_inj word_unat_eq_iff [symmetric])
  then have "push_bit 8 (ucast b) XOR ucast 0 = (push_bit 8 (ucast c) XOR ucast (0 :: byte) :: 16 word)"
    by (simp add: crc16_update_def crc16_update_bits_inj)
       (metis xor.commute xor_cancel_word)
  then show ?thesis by (blast dest: byte_pair_inj)
qed

section \<open>The reference value\<close>

lemma funpow_8: "(f ^^ 8) x = f (f (f (f (f (f (f (f x)))))))"
  by (simp add: numeral_eq_Suc)

lemma crc16_check_value: "crc16 (map of_char ''123456789'') = 0x29B1"
  by (simp add: crc16_def crc_byte_def funpow_8 crc_bit_def)

text \<open>
  The checksum is sent low byte first, though it is computed from the high bit down. So the
  last byte before the checksum and the first one of it are no neighbours to it: there is a
  change of the two that goes unnoticed in every frame.
\<close>

lemma crc16_update_straddle: "crc16_update s (b XOR 0x89) = crc16_update s b XOR 0xA1"
proof -
  have "push_bit 8 (ucast (b XOR 0x89)) = push_bit 8 (ucast b) XOR (0x8900 :: 16 word)"
    by (simp add: unsigned_xor_eq push_bit_xor)
  moreover have "(crc16_update_bit ^^ 8) 0x8900 = 0xA1"
    by (simp add: funpow_8 crc16_update_bit_def)
  ultimately show ?thesis
    by (simp only: crc16_update_def xor.assoc [symmetric] crc16_update_bits_xor)
qed

lemma crc16_straddle: "crc16 (xs @ [b XOR 0x89]) = crc16 (xs @ [b]) XOR 0xA1"
  by (simp add: crc16_word crc16_update_straddle unsigned_xor_eq)

section \<open>Properties\<close>

text \<open>The checksum that the host computes on masked unbounded integers is the one the DOS
  side computes in its 16-bit register, on every byte string, and it has the published check
  value.\<close>

lemma crc16_equals_dos:
  "crc16 data = unat (foldl crc16_update 0xFFFF data) \<and> crc16 (map of_char ''123456789'') = 0x29B1"
  using crc16_word crc16_check_value by blast

text \<open>C17: Two messages that differ at most in two neighbouring bytes have the same checksum only
  if they are equal: every damage confined to two neighbouring bytes is detected.\<close>

theorem crc16_detects_neighbours:
  "crc16 (xs @ [b1, b2] @ ys) = crc16 (xs @ [c1, c2] @ ys) \<longleftrightarrow> b1 = c1 \<and> b2 = c2"
  using crc16_burst by blast

end
