(* ===== verification/PyText.thy ===== *)
theory PyText
  imports Prelude
begin

text \<open>
  The parts of Python's \<open>str\<close> that \<open>rx-host/rx.py\<close> uses: stripping, splitting, reading a text
  file line by line, \<open>int(s, base)\<close>, the items of a sequence and the format specifications \<open>08X\<close> and \<open>d\<close>. A
  \<open>string\<close> is a list of characters with code points below 256; \<open>None\<close> stands for a raised
  \<open>ValueError\<close>. Round trips between printing and parsing of numbers close the theory.
\<close>

datatype py_error = ZeroDivisionError | OverflowError | IndexError

section \<open>Items of a sequence\<close>

text \<open>
  \<open>xs[i]\<close> and \<open>xs[i] = v\<close> on a list or a byte array. \<open>item_pos n i\<close> is the position an index
  means in \<open>n\<close> items, from the end if it is negative.
\<close>

definition item_pos :: "nat \<Rightarrow> int \<Rightarrow> py_error + nat" where
  "item_pos n i =
     (if 0 \<le> i \<and> i < int n then Inr (nat i)
      else if i < 0 \<and> - int n \<le> i then Inr (nat (int n + i))
      else Inl IndexError)"

definition get_item :: "'a list \<Rightarrow> int \<Rightarrow> py_error + 'a" where
  "get_item xs i = (case item_pos (length xs) i of Inl e \<Rightarrow> Inl e | Inr k \<Rightarrow> Inr (xs ! k))"

definition set_item :: "'a list \<Rightarrow> int \<Rightarrow> 'a \<Rightarrow> py_error + 'a list" where
  "set_item xs i v = (case item_pos (length xs) i of Inl e \<Rightarrow> Inl e | Inr k \<Rightarrow> Inr (xs[k := v]))"

lemma get_item_in [simp]: "0 \<le> i \<Longrightarrow> i < int (length xs) \<Longrightarrow> get_item xs i = Inr (xs ! nat i)"
  by (simp add: get_item_def item_pos_def)

lemma set_item_in [simp]: "0 \<le> i \<Longrightarrow> i < int (length xs) \<Longrightarrow> set_item xs i v = Inr (xs[nat i := v])"
  by (simp add: set_item_def item_pos_def)

lemma get_item_beyond: "int (length xs) \<le> i \<Longrightarrow> get_item xs i = Inl IndexError"
  by (simp add: get_item_def item_pos_def)

lemma set_item_length: "set_item xs i v = Inr ys \<Longrightarrow> length ys = length xs"
  by (auto simp: set_item_def split: sum.splits)

section \<open>White space\<close>

text \<open>\<open>str.isspace\<close> on Latin-1, used by \<open>strip\<close> and \<open>split\<close> without arguments.\<close>

definition py_space :: "char \<Rightarrow> bool" where
  "py_space c \<longleftrightarrow> (of_char c :: nat) \<in> {9, 10, 11, 12, 13, 28, 29, 30, 31, 32, 133, 160}"

definition strip_by :: "(char \<Rightarrow> bool) \<Rightarrow> string \<Rightarrow> string" where
  "strip_by sp s = rev (dropWhile sp (rev (dropWhile sp s)))"

definition py_strip :: "string \<Rightarrow> string" where
  "py_strip = strip_by py_space"

section \<open>Splitting\<close>

text \<open>\<open>s.split()\<close>: the maximal runs of non-space characters.\<close>

function py_words :: "string \<Rightarrow> string list" where
  "py_words s =
     (case dropWhile py_space s of
        [] \<Rightarrow> []
      | c # cs \<Rightarrow>
          (c # takeWhile (\<lambda>x. \<not> py_space x) cs) # py_words (dropWhile (\<lambda>x. \<not> py_space x) cs))"
  by pat_completeness auto
termination
proof (relation "measure length", goal_cases)
  case (2 s c cs)
  have "length (c # cs) \<le> length s"
    using 2 [symmetric] by (simp add: length_dropWhile_le)
  moreover have "length (dropWhile (\<lambda>x. \<not> py_space x) cs) \<le> length cs"
    by (rule length_dropWhile_le)
  ultimately show ?case by simp
qed simp

declare py_words.simps [simp del]

text \<open>\<open>s.split(c)\<close> for a one-character separator, and \<open>s.split(c, 1)\<close>.\<close>

fun py_split :: "char \<Rightarrow> string \<Rightarrow> string list" where
  "py_split sep [] = [[]]"
| "py_split sep (c # cs) =
     (if c = sep then [] # py_split sep cs
      else (case py_split sep cs of [] \<Rightarrow> [[c]] | w # ws \<Rightarrow> (c # w) # ws))"

definition py_split1 :: "char \<Rightarrow> string \<Rightarrow> string \<times> string" where
  "py_split1 sep s = (takeWhile (\<lambda>c. c \<noteq> sep) s, tl (dropWhile (\<lambda>c. c \<noteq> sep) s))"

text \<open>
  \<open>for line in f\<close> on a file opened in text mode: universal newlines, then one item per line.
  The line ends are left out; every use strips them.
\<close>

fun universal_newlines :: "string \<Rightarrow> string" where
  "universal_newlines [] = []"
| "universal_newlines [c] = [if c = CHR 0x0D then CHR 0x0A else c]"
| "universal_newlines (c # d # cs) =
     (if c = CHR 0x0D
      then CHR 0x0A # universal_newlines (if d = CHR 0x0A then cs else d # cs)
      else c # universal_newlines (d # cs))"

definition py_lines :: "string \<Rightarrow> string list" where
  "py_lines s =
     (let ls = py_split (CHR 0x0A) (universal_newlines s)
      in if last ls = [] then butlast ls else ls)"

section \<open>Numbers to text\<close>

definition digit_char :: "nat \<Rightarrow> char" where
  "digit_char d = char_of (if d < 10 then 48 + d else 55 + d)"

function to_base :: "nat \<Rightarrow> nat \<Rightarrow> nat list" where
  "to_base b n = (if n < b \<or> b < 2 then [n] else to_base b (n div b) @ [n mod b])"
  by pat_completeness auto
termination
  by (relation "measure snd") auto

declare to_base.simps [simp del]

text \<open>\<open>f"{n}"\<close> and \<open>f"{n:08X}"\<close> (a width and a leading zero pad on the left).\<close>

definition py_dec :: "nat \<Rightarrow> string" where
  "py_dec n = map digit_char (to_base 10 n)"

definition py_hex08 :: "nat \<Rightarrow> string" where
  "py_hex08 n = (let ds = map digit_char (to_base 16 n) in replicate (8 - length ds) (CHR ''0'') @ ds)"

section \<open>Text to numbers\<close>

definition digit_value :: "char \<Rightarrow> nat option" where
  "digit_value c =
     (let k = of_char c in
      if 48 \<le> k \<and> k \<le> 57 then Some (k - 48)
      else if 65 \<le> k \<and> k \<le> 90 then Some (k - 55)
      else if 97 \<le> k \<and> k \<le> 122 then Some (k - 87)
      else None)"

text \<open>
  The digits of an \<open>int\<close> literal: single underscores between digits are allowed. The flag
  says whether the character before was an underscore.
\<close>

fun scan_digits :: "nat \<Rightarrow> bool \<Rightarrow> nat \<Rightarrow> string \<Rightarrow> nat option" where
  "scan_digits base us acc [] = (if us then None else Some acc)"
| "scan_digits base us acc (c # cs) =
     (if c = CHR ''_'' then (if us then None else scan_digits base True acc cs)
      else (case digit_value c of
              None \<Rightarrow> None
            | Some d \<Rightarrow> if d < base then scan_digits base False (base * acc + d) cs else None))"

text \<open>White space that \<open>int\<close> skips: C's \<open>isspace\<close> in an ASCII string, \<open>isspace\<close> otherwise.\<close>

definition int_space :: "string \<Rightarrow> char \<Rightarrow> bool" where
  "int_space s c =
     (if \<forall>x\<in>set s. (of_char x :: nat) < 128 then (of_char c :: nat) \<in> {9, 10, 11, 12, 13, 32}
      else py_space c)"

text \<open>The base that base 0 selects, and whether only zero is allowed (a leading \<open>0\<close>).\<close>

definition base_of_prefix :: "string \<Rightarrow> nat \<times> bool" where
  "base_of_prefix t =
     (case t of
        z # rest \<Rightarrow>
          (if z \<noteq> CHR ''0'' then (10, False)
           else (case rest of
                   x # _ \<Rightarrow> (if x \<in> {CHR ''x'', CHR ''X''} then (16, False)
                            else if x \<in> {CHR ''o'', CHR ''O''} then (8, False)
                            else if x \<in> {CHR ''b'', CHR ''B''} then (2, False)
                            else (10, True))
                 | [] \<Rightarrow> (10, True)))
      | [] \<Rightarrow> (10, False))"

definition prefix_chars :: "nat \<Rightarrow> char list" where
  "prefix_chars base =
     (if base = 16 then ''xX'' else if base = 8 then ''oO'' else if base = 2 then ''bB'' else [])"

text \<open>Drop \<open>0x\<close>, \<open>0o\<close> or \<open>0b\<close> where it matches the base, and one underscore after it.\<close>

definition drop_prefix :: "nat \<Rightarrow> string \<Rightarrow> string" where
  "drop_prefix base t =
     (case t of
        z # x # rest \<Rightarrow>
          (if z = CHR ''0'' \<and> x \<in> set (prefix_chars base)
           then (case rest of u # rest' \<Rightarrow> (if u = CHR ''_'' then rest' else rest) | [] \<Rightarrow> [])
           else t)
      | _ \<Rightarrow> t)"

definition py_int :: "nat \<Rightarrow> string \<Rightarrow> int option" where
  "py_int base0 s =
     (let t = strip_by (int_space s) s;
          neg = (t \<noteq> [] \<and> hd t = CHR ''-'');
          t = (if t \<noteq> [] \<and> hd t \<in> {CHR ''+'', CHR ''-''} then tl t else t);
          (base, only_zero) = (if base0 = 0 then base_of_prefix t else (base0, False));
          body = drop_prefix base t
      in if body = [] \<or> hd body = CHR ''_'' then None
         else (case scan_digits base False 0 body of
                 None \<Rightarrow> None
               | Some v \<Rightarrow>
                   if only_zero \<and> v \<noteq> 0 then None
                   else Some (if neg then - int v else int v)))"

section \<open>Printing and parsing agree\<close>

definition digits_val :: "nat \<Rightarrow> nat \<Rightarrow> nat list \<Rightarrow> nat" where
  "digits_val b acc ds = foldl (\<lambda>a d. b * a + d) acc ds"

lemma digits_val_simps [simp]:
  "digits_val b acc [] = acc"
  "digits_val b acc (d # ds) = digits_val b (b * acc + d) ds"
  "digits_val b acc (ds @ es) = digits_val b (digits_val b acc ds) es"
  by (simp_all add: digits_val_def)

lemma digits_val_to_base: "2 \<le> b \<Longrightarrow> digits_val b 0 (to_base b n) = n"
proof (induction b n rule: to_base.induct)
  case (1 b n)
  then show ?case by (cases "n < b") (simp_all add: to_base.simps [of b n])
qed

lemma to_base_less: "2 \<le> b \<Longrightarrow> d \<in> set (to_base b n) \<Longrightarrow> d < b"
proof (induction b n rule: to_base.induct)
  case (1 b n)
  then show ?case by (cases "n < b") (auto simp: to_base.simps [of b n])
qed

lemma to_base_nonempty [simp]: "to_base b n \<noteq> []"
  by (subst to_base.simps) simp

lemma hd_to_base: "2 \<le> b \<Longrightarrow> 0 < n \<Longrightarrow> 0 < hd (to_base b n)"
proof (induction b n rule: to_base.induct)
  case (1 b n)
  show ?case
  proof (cases "n < b")
    case True
    with 1 show ?thesis by (simp add: to_base.simps [of b n])
  next
    case False
    with 1 have "0 < hd (to_base b (n div b))" by (simp add: div_greater_zero_iff)
    with False 1(2) show ?thesis by (simp add: to_base.simps [of b n])
  qed
qed

lemma of_char_digit: "d < 36 \<Longrightarrow> (of_char (digit_char d) :: nat) = (if d < 10 then 48 + d else 55 + d)"
  by (simp add: digit_char_def)

lemma digit_value_char [simp]: "d < 36 \<Longrightarrow> digit_value (digit_char d) = Some d"
  by (auto simp: digit_value_def of_char_digit Let_def)

lemma digit_char_eq_0: "d < 36 \<Longrightarrow> digit_char d = CHR ''0'' \<longleftrightarrow> d = 0"
proof -
  assume "d < 36"
  have "digit_char d = CHR ''0'' \<longleftrightarrow> (of_char (digit_char d) :: nat) = of_char (CHR ''0'')"
    by (simp only: of_char_eq_iff)
  with \<open>d < 36\<close> show ?thesis by (simp add: of_char_digit)
qed

lemma digit_char_plain:
  assumes "d < 36"
  shows "\<not> py_space (digit_char d)" "\<not> int_space s (digit_char d)"
    "digit_char d \<notin> {CHR ''_'', CHR ''+'', CHR ''-'', CHR '':'', CHR '','', CHR ''#'', CHR 0x0A, CHR 0x0D}"
    "digit_char d \<noteq> CHR ''x'' \<and> digit_char d \<noteq> CHR ''o'' \<and> digit_char d \<noteq> CHR ''b''"
    "(of_char (digit_char d) :: nat) < 128"
  using of_char_digit [OF assms] assms
  by (auto simp: py_space_def int_space_def split: if_splits)

lemma scan_digits_chars:
  assumes "\<forall>d\<in>set ds. d < b" and "b \<le> 36" and "ds \<noteq> [] \<or> \<not> us"
  shows "scan_digits b us acc (map digit_char ds) = Some (digits_val b acc ds)"
  using assms
proof (induction ds arbitrary: us acc)
  case Nil
  then show ?case by simp
next
  case (Cons d ds)
  then have "d < 36" by simp
  with digit_char_plain(3) [OF this] Cons show ?case by simp
qed

lemma strip_by_id: "s \<noteq> [] \<Longrightarrow> \<not> sp (hd s) \<Longrightarrow> \<not> sp (last s) \<Longrightarrow> strip_by sp s = s"
  by (simp add: strip_by_def dropWhile_eq_self_iff [THEN iffD2] hd_rev)

text \<open>Reading back what \<open>f"0x{n:08X}"\<close> and \<open>f"{n}"\<close> wrote.\<close>

lemma to_base_16_less: "d \<in> set (to_base 16 n) \<Longrightarrow> d < 16"
  by (rule to_base_less) simp_all

lemma to_base_10_less: "d \<in> set (to_base 10 n) \<Longrightarrow> d < 10"
  by (rule to_base_less) simp_all

lemma digits_val_replicate_0 [simp]: "digits_val b 0 (replicate k 0) = 0"
  by (induction k) simp_all

lemma py_hex08_digits:
  obtains ds where "py_hex08 n = map digit_char ds" "\<forall>d\<in>set ds. d < 16" "ds \<noteq> []"
    "digits_val 16 0 ds = n"
proof
  let ?ds = "replicate (8 - length (to_base 16 n)) 0 @ to_base 16 n"
  show "py_hex08 n = map digit_char ?ds"
    by (simp add: py_hex08_def Let_def digit_char_eq_0 [THEN iffD2])
  show "\<forall>d\<in>set ?ds. d < 16" by (auto dest: to_base_16_less)
  show "?ds \<noteq> []" "digits_val 16 0 ?ds = n" by (simp_all add: digits_val_to_base)
qed

lemma py_hex08_plain:
  "py_hex08 n \<noteq> []"
  "c \<in> set (py_hex08 n) \<Longrightarrow> \<exists>d<36. c = digit_char d"
proof -
  obtain ds where ds: "py_hex08 n = map digit_char ds" "\<forall>d\<in>set ds. d < 16" "ds \<noteq> []"
    by (rule py_hex08_digits)
  then show "py_hex08 n \<noteq> []" by simp
  assume "c \<in> set (py_hex08 n)"
  with ds obtain d where "d < 16" "c = digit_char d" by auto
  then show "\<exists>d<36. c = digit_char d" by (intro exI [of _ d]) simp
qed

lemma py_int_hex08: "py_int 16 (''0x'' @ py_hex08 n) = Some (int n)"
proof -
  obtain ds where ds: "py_hex08 n = map digit_char ds" "\<forall>d\<in>set ds. d < 16" "ds \<noteq> []"
    "digits_val 16 0 ds = n" by (rule py_hex08_digits)
  let ?s = "''0x'' @ map digit_char ds"
  have small: "d \<in> set ds \<Longrightarrow> d < 36" for d using ds(2) by force
  have lst: "last ?s = digit_char (last ds)" "last ds < 36"
    and hds: "hd (map digit_char ds) = digit_char (hd ds)" "hd ds < 36"
    using ds(3) small by (simp_all add: last_map hd_map)
  have "strip_by (int_space ?s) ?s = ?s"
  proof (rule strip_by_id)
    show "\<not> int_space ?s (hd ?s)" by (simp add: int_space_def py_space_def)
    show "\<not> int_space ?s (last ?s)" using lst digit_char_plain(2) by simp
  qed simp
  moreover have us: "hd (map digit_char ds) \<noteq> CHR ''_''"
    using hds digit_char_plain(3) [OF hds(2)] by simp
  moreover have "drop_prefix 16 ?s = map digit_char ds"
    using us ds(3) by (cases ds) (simp_all add: drop_prefix_def prefix_chars_def)
  moreover have "scan_digits 16 False 0 (map digit_char ds) = Some n"
    using ds by (simp add: scan_digits_chars)
  ultimately show ?thesis
    using ds by (simp add: py_int_def)
qed

lemma py_int_dec: "py_int 0 (py_dec n) = Some (int n)"
proof -
  let ?ds = "to_base 10 n"
  let ?s = "map digit_char ?ds"
  have small: "d \<in> set ?ds \<Longrightarrow> d < 36" for d using to_base_10_less [of d n] by simp
  have hds: "hd ?s = digit_char (hd ?ds)" "hd ?ds < 36"
    using small by (simp_all add: hd_map)
  have lst: "last ?s = digit_char (last ?ds)" "last ?ds < 36"
    using small by (simp_all add: last_map)
  have strip: "strip_by (int_space ?s) ?s = ?s"
    using hds lst by (intro strip_by_id) (simp_all add: digit_char_plain)
  have sign: "hd ?s \<notin> {CHR ''+'', CHR ''-''}" and us: "hd ?s \<noteq> CHR ''_''"
    using hds digit_char_plain(3) [OF hds(2)] by auto
  have val: "scan_digits 10 False 0 ?s = Some n"
    using to_base_10_less by (simp add: scan_digits_chars digits_val_to_base)
  have base: "base_of_prefix ?s = (10, n = 0)"
  proof (cases "n = 0")
    case True
    then show ?thesis by (simp add: to_base.simps base_of_prefix_def digit_char_eq_0)
  next
    case False
    then have "hd ?s \<noteq> CHR ''0''" using hds hd_to_base [of 10 n] by (simp add: digit_char_eq_0)
    with False show ?thesis by (cases ?s) (simp_all add: base_of_prefix_def)
  qed
  have pre: "drop_prefix 10 ?s = ?s"
    by (simp add: drop_prefix_def prefix_chars_def split: list.split)
  show ?thesis
    using strip sign us val base pre by (auto simp: py_int_def py_dec_def Let_def)
qed

lemma py_dec_plain:
  "py_dec n \<noteq> []" "c \<in> set (py_dec n) \<Longrightarrow> \<exists>d<36. c = digit_char d"
proof -
  show "py_dec n \<noteq> []" by (simp add: py_dec_def)
  assume "c \<in> set (py_dec n)"
  then obtain d where "d < 10" "c = digit_char d"
    by (auto simp: py_dec_def dest: to_base_10_less)
  then show "\<exists>d<36. c = digit_char d" by (intro exI [of _ d]) simp
qed

lemma number_chars:
  "c \<in> set (py_dec n) \<union> set (py_hex08 n) \<Longrightarrow>
     \<not> py_space c \<and> c \<noteq> CHR 0x0A \<and> c \<noteq> CHR 0x0D \<and> c \<noteq> CHR ''#''"
  using py_dec_plain(2) [of c n] py_hex08_plain(2) [of c n] digit_char_plain(1,3)
  by fastforce

lemma number_no_newline [simp]:
  "CHR 0x0A \<notin> set (py_dec n)" "CHR 0x0D \<notin> set (py_dec n)"
  "CHR 0x0A \<notin> set (py_hex08 n)" "CHR 0x0D \<notin> set (py_hex08 n)"
  using number_chars by blast+

lemma py_strip_id: "s \<noteq> [] \<Longrightarrow> \<not> py_space (hd s) \<Longrightarrow> \<not> py_space (last s) \<Longrightarrow> py_strip s = s"
  by (simp add: py_strip_def strip_by_id)

lemma last_py_dec: "\<not> py_space (last (py_dec n))"
  using number_chars [of "last (py_dec n)" n] py_dec_plain(1) [of n] by auto

section \<open>Words and lines of printed text\<close>

lemma py_words_Nil [simp]: "py_words [] = []"
  by (simp add: py_words.simps)

lemma py_words_space [simp]: "py_space c \<Longrightarrow> py_words (c # s) = py_words s"
  by (subst (1 2) py_words.simps) simp

lemma py_words_word:
  assumes "w \<noteq> []" "\<forall>x\<in>set w. \<not> py_space x" "rest = [] \<or> py_space (hd rest)"
  shows "py_words (w @ rest) = w # py_words rest"
proof -
  obtain c cs where w: "w = c # cs" using assms(1) by (cases w) auto
  have "takeWhile (\<lambda>x. \<not> py_space x) (cs @ rest) = cs"
    and "dropWhile (\<lambda>x. \<not> py_space x) (cs @ rest) = rest"
    using assms w by (cases rest; simp add: takeWhile_append dropWhile_append)+
  with assms(2) show ?thesis unfolding w append_Cons by (subst py_words.simps) simp
qed

lemma universal_newlines_id: "CHR 0x0D \<notin> set s \<Longrightarrow> universal_newlines s = s"
  by (induction s rule: universal_newlines.induct) auto

lemma py_split_nonempty [simp]: "py_split sep s \<noteq> []"
  by (induction s) (auto split: list.splits)

lemma py_split_append:
  "sep \<notin> set l \<Longrightarrow> py_split sep (l @ sep # rest) = l # py_split sep rest"
  by (induction l) auto

lemma py_split_none: "sep \<notin> set l \<Longrightarrow> py_split sep l = [l]"
  by (induction l) auto

text \<open>A file written line by line is read back line by line.\<close>

definition text_of_lines :: "string list \<Rightarrow> string" where
  "text_of_lines ls = concat (map (\<lambda>l. l @ [CHR 0x0A]) ls)"

lemma py_split_text_of_lines:
  "\<forall>l\<in>set ls. CHR 0x0A \<notin> set l \<Longrightarrow> py_split (CHR 0x0A) (text_of_lines ls) = ls @ [[]]"
  by (induction ls) (simp_all add: text_of_lines_def py_split_append)

lemma py_lines_text_of_lines:
  assumes "\<forall>l\<in>set ls. CHR 0x0A \<notin> set l \<and> CHR 0x0D \<notin> set l"
  shows "py_lines (text_of_lines ls) = ls"
proof -
  have "universal_newlines (text_of_lines ls) = text_of_lines ls"
    using assms by (intro universal_newlines_id) (auto simp: text_of_lines_def)
  with assms show ?thesis by (simp add: py_lines_def py_split_text_of_lines)
qed

end
