(* ===== verification/Link.thy ===== *)
theory Link
  imports Crc16 PyText
begin

text \<open>
  The serial link of \<open>rx-host/rx.py\<close>: the protocol constants, the class \<open>Link\<close> and
  \<open>send_command\<close>. The serial port is pyserial's \<open>Serial\<close> object, which is not part of the
  program: its methods are the fields of a record \<open>port\<close> over an arbitrary state, an argument
  of every operation that uses it. A read may return fewer bytes than asked for (none at all
  on a timeout) or raise, a write or a reset of the input buffer may raise; a loop that keeps
  reading may not return, which is \<open>None\<close>.
\<close>

section \<open>Protocol constants\<close>

definition SOH :: byte where "SOH = 0x01"
definition ACK :: byte where "ACK = 0x06"
definition NAK :: byte where "NAK = 0x15"
definition TYPE_INFO :: byte where "TYPE_INFO = of_char (CHR ''I'')"
definition TYPE_DATA :: byte where "TYPE_DATA = of_char (CHR ''D'')"
definition TYPE_EOT :: byte where "TYPE_EOT = of_char (CHR ''E'')"
definition TYPE_CMD :: byte where "TYPE_CMD = of_char (CHR ''C'')"
definition STATUS_GOOD :: byte where "STATUS_GOOD = 0x00"
definition STATUS_BAD :: byte where "STATUS_BAD = 0x01"
definition LINK_TRIES :: nat where "LINK_TRIES = 16"

lemmas proto_defs =
  SOH_def ACK_def NAK_def TYPE_INFO_def TYPE_DATA_def TYPE_EOT_def TYPE_CMD_def
  STATUS_GOOD_def STATUS_BAD_def

lemma types_distinct [simp]:
  "TYPE_INFO \<noteq> TYPE_DATA" "TYPE_INFO \<noteq> TYPE_EOT" "TYPE_INFO \<noteq> TYPE_CMD"
  "TYPE_DATA \<noteq> TYPE_INFO" "TYPE_DATA \<noteq> TYPE_EOT" "TYPE_DATA \<noteq> TYPE_CMD"
  "TYPE_EOT \<noteq> TYPE_INFO" "TYPE_EOT \<noteq> TYPE_DATA" "TYPE_EOT \<noteq> TYPE_CMD"
  "TYPE_CMD \<noteq> TYPE_INFO" "TYPE_CMD \<noteq> TYPE_DATA" "TYPE_CMD \<noteq> TYPE_EOT"
  "ACK \<noteq> NAK" "NAK \<noteq> ACK" "STATUS_GOOD \<noteq> STATUS_BAD" "STATUS_BAD \<noteq> STATUS_GOOD"
  by (simp_all add: proto_defs)

section \<open>The port and its exceptions\<close>

datatype port_exn = KeyboardInterrupt | SerialException

datatype link_exn = TimeoutError | Port port_exn

record 's port =
  ser_read :: "nat \<Rightarrow> 's \<Rightarrow> (port_exn + byte list) \<times> 's"
  ser_write :: "byte list \<Rightarrow> 's \<Rightarrow> port_exn option \<times> 's"
  ser_reset_input :: "'s \<Rightarrow> port_exn option \<times> 's"
  ser_timeout :: "'s \<Rightarrow> rat"
  ser_set_timeout :: "rat \<Rightarrow> 's \<Rightarrow> 's"

text \<open>A step that uses the link: a result or an exception and the new state, if it returns.\<close>

type_synonym ('s, 'a) link_io = "'s \<Rightarrow> ((link_exn + 'a) \<times> 's) option"

definition io_return :: "'a \<Rightarrow> ('s, 'a) link_io" where
  "io_return a s = Some (Inr a, s)"

definition io_bind :: "('s, 'a) link_io \<Rightarrow> ('a \<Rightarrow> ('s, 'b) link_io) \<Rightarrow> ('s, 'b) link_io" where
  "io_bind m k s =
     (case m s of
        None \<Rightarrow> None
      | Some (Inl e, s') \<Rightarrow> Some (Inl e, s')
      | Some (Inr a, s') \<Rightarrow> k a s')"

text \<open>A write as such a step.\<close>

definition io_write :: "('s \<Rightarrow> port_exn option \<times> 's) \<Rightarrow> ('s, unit) link_io" where
  "io_write w s = (case w s of (None, s') \<Rightarrow> Some (Inr (), s') | (Some e, s') \<Rightarrow> Some (Inl (Port e), s'))"

section \<open>The class \<open>Link\<close>\<close>

text \<open>\<open>read_exact\<close>: the loop with the bytes read so far; it always ends, as each chunk is nonempty.\<close>

function read_more :: "'s port \<Rightarrow> nat \<Rightarrow> byte list \<Rightarrow> 's \<Rightarrow> (link_exn + byte list) \<times> 's" where
  "read_more P n buf s =
     (if length buf < n
      then (case ser_read P (n - length buf) s of
              (Inl e, s') \<Rightarrow> (Inl (Port e), s')
            | (Inr [], s') \<Rightarrow> (Inl TimeoutError, s')
            | (Inr (c # cs), s') \<Rightarrow> read_more P n (buf @ c # cs) s')
      else (Inr buf, s))"
  by pat_completeness auto
termination
  by (relation "measure (\<lambda>(P, n, buf, s). n - length buf)") auto

declare read_more.simps [simp del]

definition read_exact :: "'s port \<Rightarrow> nat \<Rightarrow> ('s, byte list) link_io" where
  "read_exact P n s = Some (read_more P n [] s)"

definition hunt_step ::
  "'s port \<Rightarrow> 's \<Rightarrow> (((link_exn + unit) \<times> 's) + 's) option" where
  "hunt_step P s =
     (case ser_read P 1 s of
        (Inl e, s') \<Rightarrow> Some (Inl (Inl (Port e), s'))
      | (Inr [], s') \<Rightarrow> Some (Inl (Inl TimeoutError, s'))
      | (Inr (b # _), s') \<Rightarrow> if b = SOH then Some (Inl (Inr (), s')) else Some (Inr s'))"

definition hunt_soh :: "'s port \<Rightarrow> ('s, unit) link_io" where
  "hunt_soh P = while_true (hunt_step P)"

definition ack :: "'s port \<Rightarrow> 's \<Rightarrow> port_exn option \<times> 's" where
  "ack P = ser_write P [ACK]"

definition nak :: "'s port \<Rightarrow> 's \<Rightarrow> port_exn option \<times> 's" where
  "nak P s =
     (case ser_reset_input P s of
        (None, s') \<Rightarrow> ser_write P [NAK] s'
      | (Some e, s') \<Rightarrow> (Some e, s'))"

text \<open>The checksum always fits in two bytes (\<open>crc16_less\<close>), so its \<open>to_bytes\<close> cannot raise.\<close>

definition frame :: "byte \<Rightarrow> byte list \<Rightarrow> byte list" where
  "frame ty payload =
     (let body = [ty] @ payload; crc = crc16 body in [SOH] @ body @ le_bytes 2 crc)"

definition send_frame :: "'s port \<Rightarrow> byte \<Rightarrow> byte list \<Rightarrow> 's \<Rightarrow> port_exn option \<times> 's" where
  "send_frame P ty payload = ser_write P (frame ty payload)"

definition read_reply :: "'s port \<Rightarrow> rat \<Rightarrow> 's \<Rightarrow> (port_exn + byte option) \<times> 's" where
  "read_reply P timeout_s s =
     (let old = ser_timeout P s;
          (b, s1) = ser_read P 1 (ser_set_timeout P timeout_s s);
          s2 = ser_set_timeout P old s1
      in (case b of
            Inl e \<Rightarrow> (Inl e, s2)
          | Inr [] \<Rightarrow> (Inr None, s2)
          | Inr (x # _) \<Rightarrow> (Inr (Some x), s2)))"

section \<open>The worklist command\<close>

fun range_payload :: "(nat \<times> nat) list \<Rightarrow> byte list option" where
  "range_payload [] = Some []"
| "range_payload ((a, b) # ws) =
     (case (to_bytes_le 4 a, to_bytes_le 4 b, range_payload ws) of
        (Some x, Some y, Some rest) \<Rightarrow> Some (x @ y @ rest)
      | _ \<Rightarrow> None)"

text \<open>The payload of \<open>send_command\<close>, or \<open>OverflowError\<close>; nothing is sent in that case.\<close>

definition cmd_payload :: "(nat \<times> nat) list \<Rightarrow> py_error + byte list" where
  "cmd_payload ws =
     (case (to_bytes_le 2 (length ws), range_payload ws) of
        (Some n, Some rest) \<Rightarrow> Inr (n @ rest)
      | _ \<Rightarrow> Inl OverflowError)"

datatype cmd_exn = CmdError py_error | CmdPort port_exn

definition send_command :: "'s port \<Rightarrow> (nat \<times> nat) list \<Rightarrow> 's \<Rightarrow> (cmd_exn + byte list) \<times> 's" where
  "send_command P ws s =
     (case cmd_payload ws of
        Inl e \<Rightarrow> (Inl (CmdError e), s)
      | Inr payload \<Rightarrow>
          (case send_frame P TYPE_CMD payload s of
             (None, s') \<Rightarrow> (Inr payload, s')
           | (Some e, s') \<Rightarrow> (Inl (CmdPort e), s')))"

section \<open>Frames\<close>

lemma length_frame [simp, layout]: "length (frame ty payload) = length payload + 4"
  by (simp add: frame_def Let_def)

lemma frame_simp: "frame ty payload = SOH # ty # payload @ le_bytes 2 (crc16 (ty # payload))"
  by (simp add: frame_def Let_def)

lemma crc_field [simp, wire_simps]: "from_bytes_le (le_bytes 2 (crc16 xs)) = crc16 xs"
  using crc16_less [of xs] by simp

lemma range_payload_Some:
  "\<forall>(a, b)\<in>set ws. a < 2 ^ 32 \<and> b < 2 ^ 32 \<Longrightarrow>
     range_payload ws = Some (concat (map (\<lambda>(a, b). le_bytes 4 a @ le_bytes 4 b) ws))"
  by (induction ws) auto

lemma cmd_payload_Inr:
  assumes "\<forall>(a, b)\<in>set ws. a < 2 ^ 32 \<and> b < 2 ^ 32" and "length ws < 65536"
  shows "cmd_payload ws =
    Inr (le_bytes 2 (length ws) @ concat (map (\<lambda>(a, b). le_bytes 4 a @ le_bytes 4 b) ws))"
  using assms by (simp add: cmd_payload_def range_payload_Some)

lemma cmd_payload_length: "cmd_payload ws = Inr p \<Longrightarrow> length p = 2 + 8 * length ws"
proof -
  have "range_payload ws = Some q \<Longrightarrow> length q = 8 * length ws" for q
    by (induction ws arbitrary: q rule: range_payload.induct)
       (auto simp: to_bytes_le_def split: option.splits if_splits)
  then show "cmd_payload ws = Inr p \<Longrightarrow> length p = 2 + 8 * length ws"
    by (auto simp: cmd_payload_def to_bytes_le_def split: option.splits if_splits)
qed

section \<open>Retrying receive loops\<close>

text \<open>
  \<open>while True: try: ... break / continue; except TimeoutError: continue\<close>: the body is tried
  until it yields a value (\<open>break\<close>); on \<open>None\<close> (\<open>continue\<close>) and on a timeout it is tried
  again; an exception of the port leaves the loop.
\<close>

definition retry_step ::
  "('s, 'a option) link_io \<Rightarrow> 's \<Rightarrow> (((port_exn + 'a) \<times> 's) + 's) option" where
  "retry_step m s =
     (case m s of
        None \<Rightarrow> None
      | Some (Inl TimeoutError, s') \<Rightarrow> Some (Inr s')
      | Some (Inl (Port e), s') \<Rightarrow> Some (Inl (Inl e, s'))
      | Some (Inr None, s') \<Rightarrow> Some (Inr s')
      | Some (Inr (Some a), s') \<Rightarrow> Some (Inl (Inr a, s')))"

definition retry :: "('s, 'a option) link_io \<Rightarrow> 's \<Rightarrow> ((port_exn + 'a) \<times> 's) option" where
  "retry m = while_true (retry_step m)"

text \<open>What a retrying loop returns, one try returned before.\<close>

lemma retry_result:
  assumes "retry m s = Some (Inr a, s')"
  shows "\<exists>s0. m s0 = Some (Inr (Some a), s')"
proof -
  have "fst r = Inr a \<and> snd r = s' \<longrightarrow> (\<exists>s0. m s0 = Some (Inr (Some a), s'))"
    if "while_true (retry_step m) s = Some r" for r
    using that
    by (rule while_true_rule [where I = "\<lambda>_. True"])
       (auto simp: retry_step_def split: option.splits prod.splits sum.splits link_exn.splits)
  with assms show ?thesis by (auto simp: retry_def)
qed

lemma retry_first: "m s = Some (Inr (Some a), s') \<Longrightarrow> retry m s = Some (Inr a, s')"
  by (simp add: retry_def retry_step_def while_true_break)

section \<open>The interface of a serial line\<close>

text \<open>
  A port with a device on the other end of a line that loses nothing. The device is a
  reaction to the bytes written to it; \<open>inq\<close> is what it has sent and the host has not read.
  A read of no more than what is there returns it, as pyserial documents.
\<close>

locale serial_line =
  fixes P :: "'s port"
    and inq :: "'s \<Rightarrow> byte list"
    and peer :: "'s \<Rightarrow> 'p"
    and react :: "byte list \<Rightarrow> 'p \<Rightarrow> 'p \<times> byte list"
  assumes read_bytes: "n \<le> length (inq s) \<Longrightarrow> fst (ser_read P n s) = Inr (take n (inq s))"
    and read_inq: "n \<le> length (inq s) \<Longrightarrow> inq (snd (ser_read P n s)) = drop n (inq s)"
    and read_peer: "n \<le> length (inq s) \<Longrightarrow> peer (snd (ser_read P n s)) = peer s"
    and write_ok: "fst (ser_write P bs s) = None"
    and write_inq: "inq (snd (ser_write P bs s)) = inq s @ snd (react bs (peer s))"
    and write_peer: "peer (snd (ser_write P bs s)) = fst (react bs (peer s))"
    and reset_ok: "fst (ser_reset_input P s) = None"
    and reset_inq: "inq (snd (ser_reset_input P s)) = []"
    and reset_peer: "peer (snd (ser_reset_input P s)) = peer s"
    and timeout_inq: "inq (ser_set_timeout P t s) = inq s"
    and timeout_peer: "peer (ser_set_timeout P t s) = peer s"
begin

lemmas line_laws = read_inq read_peer write_inq write_peer reset_inq reset_peer timeout_inq timeout_peer

lemma ser_write_ok:
  obtains s' where "ser_write P bs s = (None, s')"
    "(peer s', inq s') = (fst (react bs (peer s)), inq s @ snd (react bs (peer s)))"
  using write_ok write_inq write_peer by (metis prod.collapse)

lemma nak_ok:
  obtains s' where "nak P s = (None, s')" "(peer s', inq s') = react [NAK] (peer s)"
proof -
  obtain s1 where s1: "ser_reset_input P s = (None, s1)" "inq s1 = []" "peer s1 = peer s"
    using reset_ok reset_inq reset_peer by (metis prod.collapse)
  obtain s2 where "ser_write P [NAK] s1 = (None, s2)"
    "(peer s2, inq s2) = (fst (react [NAK] (peer s1)), inq s1 @ snd (react [NAK] (peer s1)))"
    by (rule ser_write_ok)
  with s1 show thesis by (intro that [of s2]) (simp_all add: nak_def)
qed

lemma ser_read_ok:
  assumes "n \<le> length (inq s)"
  obtains s' where "ser_read P n s = (Inr (take n (inq s)), s')"
    "inq s' = drop n (inq s)" "peer s' = peer s"
  using assms read_bytes read_inq read_peer by (metis prod.collapse)

lemma read_exact_ok:
  assumes "n \<le> length (inq s)"
  obtains s' where "read_exact P n s = Some (Inr (take n (inq s)), s')"
    "inq s' = drop n (inq s)" "peer s' = peer s"
proof (cases "n = 0")
  case True
  then show ?thesis using that [of s] by (simp add: read_exact_def read_more.simps)
next
  case False
  obtain s' where s': "ser_read P n s = (Inr (take n (inq s)), s')"
    "inq s' = drop n (inq s)" "peer s' = peer s"
    using assms by (rule ser_read_ok)
  obtain c cs where cs: "take n (inq s) = c # cs"
    using assms False by (cases "take n (inq s)") auto
  moreover have "length (c # cs) = n" using assms cs [symmetric] by simp
  ultimately have "read_more P n [] s = (Inr (take n (inq s)), s')"
    using s'(1) False by (simp add: read_more.simps [of P n "[]"] read_more.simps [of P n "c # cs"])
  with s'(2,3) show ?thesis by (intro that [of s']) (simp_all add: read_exact_def)
qed

lemma hunt_soh_ok:
  assumes "inq s = pre @ SOH # rest" and "SOH \<notin> set pre"
  obtains s' where "hunt_soh P s = Some (Inr (), s')" "inq s' = rest" "peer s' = peer s"
proof -
  have "\<exists>s'. hunt_soh P s = Some (Inr (), s') \<and> inq s' = rest \<and> peer s' = peer s"
    using assms
  proof (induction pre arbitrary: s)
    case Nil
    obtain s' where "ser_read P 1 s = (Inr (take 1 (inq s)), s')"
      "inq s' = drop 1 (inq s)" "peer s' = peer s"
      using Nil by (metis One_nat_def Suc_leI append_Nil length_greater_0_conv list.distinct(1) ser_read_ok)
    with Nil show ?case
      by (auto simp: hunt_soh_def hunt_step_def intro!: while_true_break)
  next
    case (Cons c pre)
    obtain s1 where s1: "ser_read P 1 s = (Inr (take 1 (inq s)), s1)"
      "inq s1 = drop 1 (inq s)" "peer s1 = peer s"
      using Cons.prems
      by (metis One_nat_def Suc_leI append_Cons length_greater_0_conv list.distinct(1) ser_read_ok)
    have "hunt_step P s = Some (Inr s1)"
      using s1(1) Cons.prems by (auto simp: hunt_step_def)
    then have "hunt_soh P s = hunt_soh P s1"
      by (simp add: hunt_soh_def while_true_continue)
    moreover have "\<exists>s'. hunt_soh P s1 = Some (Inr (), s') \<and> inq s' = rest \<and> peer s' = peer s1"
      using Cons s1 by (intro Cons.IH) auto
    ultimately show ?case using s1(3) by simp
  qed
  with that show thesis by blast
qed

text \<open>The reply byte, with the timeout restored.\<close>

lemma read_reply_ok:
  assumes "inq s = b # rest"
  obtains s' where "read_reply P t s = (Inr (Some b), s')" "inq s' = rest" "peer s' = peer s"
proof -
  let ?s = "ser_set_timeout P t s"
  have "1 \<le> length (inq ?s)" using assms by (simp add: timeout_inq)
  then obtain s1 where s1: "ser_read P 1 ?s = (Inr (take 1 (inq ?s)), s1)"
    "inq s1 = drop 1 (inq ?s)" "peer s1 = peer ?s"
    by (rule ser_read_ok)
  then show thesis
    using assms
    by (intro that [of "ser_set_timeout P (ser_timeout P s) s1"])
       (simp_all add: read_reply_def Let_def timeout_inq timeout_peer)
qed

end

end
