(* ===== verification/StatusMap.thy ===== *)
theory StatusMap
  imports Prelude
begin

text \<open>
  The status bytemap of \<open>rx-host/rx.py\<close>: one entry per sector, \<open>UNTRIED\<close>, \<open>GOOD\<close> or \<open>BAD\<close>,
  with the operations that fill it, count it and cut it into runs. A Python \<open>bytearray\<close> of
  these three values is a \<open>status list\<close>.
\<close>

section \<open>Data\<close>

datatype status = UNTRIED | GOOD | BAD

text \<open>The byte stored for a status, and the order it induces.\<close>

fun status_byte :: "status \<Rightarrow> nat" where
  "status_byte UNTRIED = 0"
| "status_byte GOOD = 1"
| "status_byte BAD = 2"

instantiation status :: linorder
begin

definition less_eq_status :: "status \<Rightarrow> status \<Rightarrow> bool" where
  "less_eq_status a b \<longleftrightarrow> status_byte a \<le> status_byte b"

definition less_status :: "status \<Rightarrow> status \<Rightarrow> bool" where
  "less_status a b \<longleftrightarrow> status_byte a < status_byte b"

instance
proof
  fix a b c :: status
  show "a < b \<longleftrightarrow> a \<le> b \<and> \<not> b \<le> a"
    by (auto simp: less_eq_status_def less_status_def)
  show "a \<le> a" by (simp add: less_eq_status_def)
  show "a \<le> b \<Longrightarrow> b \<le> c \<Longrightarrow> a \<le> c" by (simp add: less_eq_status_def)
  show "a \<le> b \<Longrightarrow> b \<le> a \<Longrightarrow> a = b"
    by (cases a; cases b) (simp_all add: less_eq_status_def)
  show "a \<le> b \<or> b \<le> a" by (auto simp: less_eq_status_def)
qed

end

type_synonym statusmap = "status list"

text \<open>\<open>charmap\<close> of \<open>build_runs\<close> and \<open>charval\<close> of \<open>load_mapfile\<close> (with its default).\<close>

fun status_char :: "status \<Rightarrow> char" where
  "status_char UNTRIED = CHR ''?''"
| "status_char GOOD = CHR ''+''"
| "status_char BAD = CHR ''-''"

definition char_status :: "string \<Rightarrow> status" where
  "char_status w =
     (if w = ''+'' then GOOD else if w = ''-'' then BAD else UNTRIED)"

lemma char_status_char [simp]: "char_status [status_char s] = s"
  by (cases s) (simp_all add: char_status_def)

section \<open>Filling and counting\<close>

text \<open>The map with the sectors from \<open>a\<close> up to \<open>b\<close> set.\<close>

definition fill_range :: "nat \<Rightarrow> nat \<Rightarrow> status \<Rightarrow> statusmap \<Rightarrow> statusmap" where
  "fill_range a b v sm = foldl (\<lambda>m lba. m[lba := v]) sm [a..<b]"

definition count_status :: "status \<Rightarrow> statusmap \<Rightarrow> nat" where
  "count_status v sm = length (filter (\<lambda>s. s = v) sm)"

text \<open>
  \<open>_range_status\<close>: good, bad and untried sectors of \<open>[start, end)\<close>, clamped to the image.
  Start and end are decoded from unsigned fields, so \<open>max(0, start)\<close> is \<open>start\<close>.
\<close>

definition range_status :: "statusmap \<Rightarrow> nat \<Rightarrow> nat \<Rightarrow> nat \<Rightarrow> nat \<times> nat \<times> nat" where
  "range_status sm start stop total_lba =
     (let s = max 0 start; e = min total_lba stop
      in foldl (\<lambda>(g, b, u) lba.
           if sm ! lba = GOOD then (g + 1, b, u)
           else if sm ! lba = BAD then (g, b + 1, u)
           else (g, b, u + 1)) (0, 0, 0) [s..<e])"

lemma length_foldl_update [simp]: "length (foldl (\<lambda>m i. m[i := v]) sm is) = length sm"
  by (induction "is" arbitrary: sm) simp_all

lemma length_fill_range [simp, layout]: "length (fill_range a b v sm) = length sm"
  by (simp add: fill_range_def)

lemma nth_foldl_update:
  "i < length sm \<Longrightarrow> foldl (\<lambda>m j. m[j := v]) sm js ! i = (if i \<in> set js then v else sm ! i)"
  by (induction js arbitrary: sm) (auto simp: nth_list_update)

lemma nth_fill_range:
  "i < length sm \<Longrightarrow> fill_range a b v sm ! i = (if a \<le> i \<and> i < b then v else sm ! i)"
  by (simp add: fill_range_def nth_foldl_update)

lemma count_status_Nil [simp]: "count_status v [] = 0"
  by (simp add: count_status_def)

lemma count_status_le: "count_status v sm \<le> length sm"
  by (simp add: count_status_def)

lemma count_status_total:
  "count_status GOOD sm + count_status BAD sm + count_status UNTRIED sm = length sm"
proof (induction sm)
  case (Cons s sm)
  then show ?case by (cases s) (simp_all add: count_status_def)
qed simp

lemma count_status_update:
  "i < length sm \<Longrightarrow>
     count_status v (sm[i := w]) + of_bool (sm ! i = v) = count_status v sm + of_bool (w = v)"
proof (induction sm arbitrary: i)
  case (Cons s sm)
  then show ?case by (cases i) (auto simp: count_status_def)
qed simp

lemma count_status_0_iff: "count_status v sm = 0 \<longleftrightarrow> v \<notin> set sm"
  by (auto simp: count_status_def filter_empty_conv)

lemma count_status_all_iff: "count_status v sm = length sm \<longleftrightarrow> (\<forall>s\<in>set sm. s = v)"
  by (auto simp: count_status_def length_filter_less filter_id_conv
      dest: length_filter_less order.strict_implies_not_eq)

text \<open>The triple is the three counts over the clamped range.\<close>

lemma foldl_range_status:
  "foldl (\<lambda>(g, b, u) lba.
       if sm ! lba = GOOD then (g + 1, b, u)
       else if sm ! lba = BAD then (g, b + 1, u)
       else (g, b, u + 1)) (g0, b0, u0) is =
     (g0 + count_status GOOD (map ((!) sm) is),
      b0 + count_status BAD (map ((!) sm) is),
      u0 + count_status UNTRIED (map ((!) sm) is))"
proof (induction "is" arbitrary: g0 b0 u0)
  case (Cons i "is")
  then show ?case by (cases "sm ! i") (simp_all add: count_status_def)
qed simp

lemma range_status_counts:
  "range_status sm a b total_lba =
     (let xs = map ((!) sm) [a..<min total_lba b]
      in (count_status GOOD xs, count_status BAD xs, count_status UNTRIED xs))"
  using foldl_range_status [of sm 0 0 0] by (simp add: range_status_def Let_def)

section \<open>Runs\<close>

text \<open>The inner loop of \<open>build_runs\<close>: the first position from \<open>j\<close> whose entry is not \<open>cur\<close>.\<close>

function run_end :: "statusmap \<Rightarrow> status \<Rightarrow> nat \<Rightarrow> nat" where
  "run_end sm cur j = (if j < length sm \<and> sm ! j = cur then run_end sm cur (j + 1) else j)"
  by pat_completeness auto
termination
  by (relation "measure (\<lambda>(sm, cur, j). length sm - j)") auto

declare run_end.simps [simp del]

lemma run_end_ge: "j \<le> run_end sm cur j"
proof (induction sm cur j rule: run_end.induct)
  case (1 sm cur j)
  then show ?case by (subst run_end.simps) auto
qed

lemma run_end_gt: "j < length sm \<Longrightarrow> sm ! j = cur \<Longrightarrow> j < run_end sm cur j"
  using run_end_ge [of "j + 1" sm cur] by (subst run_end.simps) simp

lemma run_end_le: "j \<le> length sm \<Longrightarrow> run_end sm cur j \<le> length sm"
proof (induction sm cur j rule: run_end.induct)
  case (1 sm cur j)
  then show ?case by (subst run_end.simps) auto
qed

lemma run_end_same: "j \<le> i \<Longrightarrow> i < run_end sm cur j \<Longrightarrow> sm ! i = cur"
proof (induction sm cur j rule: run_end.induct)
  case (1 sm cur j)
  then show ?case
    by (cases "j < length sm \<and> sm ! j = cur"; cases "i = j")
       (auto simp: run_end.simps [of sm cur j] split: if_splits)
qed

lemma run_end_stop:
  "run_end sm cur j < length sm \<Longrightarrow> sm ! run_end sm cur j \<noteq> cur"
proof (induction sm cur j rule: run_end.induct)
  case (1 sm cur j)
  then show ?case
    by (cases "j < length sm \<and> sm ! j = cur") (auto simp: run_end.simps [of sm cur j] split: if_splits)
qed

text \<open>\<open>build_runs\<close>, the outer loop from sector \<open>i\<close>: position and size in bytes, status character.\<close>

function build_runs_from :: "statusmap \<Rightarrow> nat \<Rightarrow> nat \<Rightarrow> (nat \<times> nat \<times> char) list" where
  "build_runs_from sm bps i =
     (if i < length sm
      then (let cur = sm ! i; j = run_end sm cur i
            in (i * bps, (j - i) * bps, status_char cur) # build_runs_from sm bps j)
      else [])"
  by pat_completeness auto
termination
proof (relation "measure (\<lambda>(sm, bps, i). length sm - i)", goal_cases)
  case (2 sm bps i cur j)
  then show ?case using run_end_gt [of i sm cur] by auto
qed simp

declare build_runs_from.simps [simp del]

definition build_runs :: "statusmap \<Rightarrow> nat \<Rightarrow> (nat \<times> nat \<times> char) list" where
  "build_runs sm bps = build_runs_from sm bps 0"

text \<open>\<open>write_badlist\<close> as the list of sector numbers it prints, in order.\<close>

definition bad_lbas :: "statusmap \<Rightarrow> nat list" where
  "bad_lbas sm = map fst (filter (\<lambda>(lba, s). s = BAD) (enumerate 0 sm))"

lemma set_bad_lbas: "set (bad_lbas sm) = {lba. lba < length sm \<and> sm ! lba = BAD}"
  by (force simp: bad_lbas_def in_set_enumerate_eq image_iff)

lemma sorted_bad_lbas: "sorted_wrt (<) (bad_lbas sm)"
proof -
  have "sorted_wrt (<) (map fst (enumerate 0 sm))" by simp
  then show ?thesis
    unfolding bad_lbas_def sorted_wrt_map by (rule sorted_wrt_filter)
qed

lemma length_bad_lbas: "length (bad_lbas sm) = count_status BAD sm"
proof -
  have "length (filter (\<lambda>(lba, s). s = BAD) (enumerate n sm)) = count_status BAD sm" for n
    by (induction sm arbitrary: n) (auto simp: count_status_def)
  then show ?thesis by (simp add: bad_lbas_def)
qed

text \<open>
  The runs tile the map from position 0, neighbouring runs have different statuses, and
  expanding them gives the map back.
\<close>

fun contiguous :: "nat \<Rightarrow> (nat \<times> nat \<times> char) list \<Rightarrow> bool" where
  "contiguous p [] = True"
| "contiguous p ((q, z, c) # rs) = (q = p \<and> 0 < z \<and> contiguous (p + z) rs)"

definition expand_runs :: "nat \<Rightarrow> (nat \<times> nat \<times> char) list \<Rightarrow> string" where
  "expand_runs bps rs = concat (map (\<lambda>(q, z, c). replicate (z div bps) c) rs)"

lemma status_char_inj: "status_char a = status_char b \<longleftrightarrow> a = b"
  by (cases a; cases b) simp_all

lemma build_runs_from_contiguous:
  "0 < bps \<Longrightarrow> contiguous (i * bps) (build_runs_from sm bps i)"
proof (induction sm bps i rule: build_runs_from.induct)
  case (1 sm bps i)
  show ?case
  proof (cases "i < length sm")
    case True
    let ?j = "run_end sm (sm ! i) i"
    have "i < ?j" using True by (simp add: run_end_gt)
    moreover from this have "i * bps + (?j - i) * bps = ?j * bps"
      by (simp add: add_mult_distrib [symmetric])
    ultimately show ?thesis
      using True "1.IH" [OF True refl refl "1.prems"] "1.prems"
      by (simp add: build_runs_from.simps [of sm bps i] Let_def)
  qed (simp add: build_runs_from.simps)
qed

lemma build_runs_from_expand:
  "0 < bps \<Longrightarrow> expand_runs bps (build_runs_from sm bps i) = map status_char (drop i sm)"
proof (induction sm bps i rule: build_runs_from.induct)
  case (1 sm bps i)
  show ?case
  proof (cases "i < length sm")
    case True
    let ?j = "run_end sm (sm ! i) i"
    have le: "i < ?j" "?j \<le> length sm" using True by (simp_all add: run_end_gt run_end_le)
    have "take (?j - i) (drop i sm) = replicate (?j - i) (sm ! i)"
    proof (rule nth_equalityI)
      fix n assume "n < length (take (?j - i) (drop i sm))"
      then have "n < ?j - i" "i + n < length sm" using le by simp_all
      moreover from this have "sm ! (i + n) = sm ! i"
        by (intro run_end_same [of i "i + n" sm]) simp_all
      ultimately show "take (?j - i) (drop i sm) ! n = replicate (?j - i) (sm ! i) ! n" by simp
    qed (use le in simp)
    moreover have "drop i sm = take (?j - i) (drop i sm) @ drop ?j sm"
      using le by (metis append_take_drop_id drop_drop le_add_diff_inverse2 less_imp_le)
    ultimately have "drop i sm = replicate (?j - i) (sm ! i) @ drop ?j sm" by simp
    then show ?thesis
      using True "1.IH" [OF True refl refl "1.prems"] "1.prems"
      by (simp add: build_runs_from.simps [of sm bps i] Let_def expand_runs_def)
  qed (simp add: build_runs_from.simps expand_runs_def)
qed

lemma build_runs_from_alternate:
  "successively (\<lambda>a b. snd (snd a) \<noteq> snd (snd b)) (build_runs_from sm bps i)"
proof (induction sm bps i rule: build_runs_from.induct)
  case (1 sm bps i)
  show ?case
  proof (cases "i < length sm")
    case True
    let ?j = "run_end sm (sm ! i) i"
    have "?j < length sm \<Longrightarrow> sm ! ?j \<noteq> sm ! i"
      using run_end_stop [of sm "sm ! i" i] by simp
    then have "build_runs_from sm bps ?j = [] \<or>
        (\<exists>p z s rs. build_runs_from sm bps ?j = (p, z, status_char s) # rs \<and> s \<noteq> sm ! i)"
      by (subst (1 2) build_runs_from.simps) (auto simp: Let_def)
    moreover have "build_runs_from sm bps i = (i * bps, (?j - i) * bps, status_char (sm ! i)) #
        build_runs_from sm bps ?j"
      using True by (subst build_runs_from.simps) (simp add: Let_def)
    ultimately show ?thesis
      using "1.IH" [OF True refl refl] by (auto simp: status_char_inj)
  qed (simp add: build_runs_from.simps)
qed

section \<open>Properties\<close>

text \<open>C29: The runs written to the mapfile start at position 0 and follow each other without gap
  or overlap, neighbouring runs have different statuses (so no run could be longer), and
  expanding them yields the status of every sector.\<close>

theorem build_runs_exact:
  assumes "0 < bps"
  shows "contiguous 0 (build_runs sm bps)
    \<and> successively (\<lambda>a b. snd (snd a) \<noteq> snd (snd b)) (build_runs sm bps)
    \<and> expand_runs bps (build_runs sm bps) = map status_char sm"
  using build_runs_from_contiguous [OF assms, of 0 sm] build_runs_from_alternate [of sm bps 0]
    build_runs_from_expand [OF assms, of sm 0]
  by (simp add: build_runs_def)

theorem build_runs_exact_witness:
  "expand_runs 512 (build_runs [GOOD, GOOD, BAD, UNTRIED] 512) = ''++-?''"
  using build_runs_exact [of 512 "[GOOD, GOOD, BAD, UNTRIED]"] by simp

text \<open>Counting a range of the map (as the integrity line of a partition does) accounts for
  every sector of the range that lies inside the image exactly once.\<close>

lemma range_status_total:
  "(case range_status sm a b t of (g, bd, u) \<Rightarrow> g + bd + u) = min t b - a"
  using count_status_total [of "map ((!) sm) [a..<min t b]"]
  by (simp add: range_status_counts Let_def)

end
