(* ===== verification/Worklist.thy ===== *)
theory Worklist
  imports StatusMap PyText
begin

text \<open>
  The worklists of \<open>rx-host/rx.py\<close>: \<open>parse_ranges_spec\<close> for \<open>--range\<close> and \<open>build_worklist\<close>
  for a fresh run and for \<open>--resume\<close>, with the coalescing down to \<open>MAXR\<close> ranges. A worklist
  is a list of half-open sector ranges.
\<close>

type_synonym worklist = "(nat \<times> nat) list"

definition MAXR :: nat where
  "MAXR = 256"

section \<open>The sectors of a worklist\<close>

text \<open>
  The sectors a worklist names, and the shape of the worklists built from a status map:
  nonempty ranges within the disk, in order, with at least one sector between neighbours.
\<close>

definition covered :: "worklist \<Rightarrow> nat set" where
  "covered ws = (\<Union>(a, b)\<in>set ws. {a..<b})"

fun wf_runs :: "nat \<Rightarrow> worklist \<Rightarrow> bool" where
  "wf_runs t [] = True"
| "wf_runs t ((a, b) # ws) =
     (a < b \<and> b \<le> t \<and> (case ws of [] \<Rightarrow> True | (c, d) # _ \<Rightarrow> b < c) \<and> wf_runs t ws)"

definition todo :: "worklist \<Rightarrow> nat" where
  "todo ws = sum_list (map (\<lambda>(a, b). b - a) ws)"

text \<open>The order in which the sectors are visited.\<close>

definition lbas_of :: "worklist \<Rightarrow> nat list" where
  "lbas_of ws = concat (map (\<lambda>(a, b). [a..<b]) ws)"

lemma covered_simps [simp]:
  "covered [] = {}"
  "covered ((a, b) # ws) = {a..<b} \<union> covered ws"
  "covered (xs @ ys) = covered xs \<union> covered ys"
  by (auto simp: covered_def)

lemma todo_simps [simp]: "todo [] = 0" "todo ((a, b) # ws) = (b - a) + todo ws"
  by (simp_all add: todo_def)

lemma lbas_of_simps [simp]: "lbas_of [] = []" "lbas_of ((a, b) # ws) = [a..<b] @ lbas_of ws"
  by (simp_all add: lbas_of_def)

lemma set_lbas_of [simp]: "set (lbas_of ws) = covered ws"
  by (induction ws) auto

lemma length_lbas_of [simp, layout]: "length (lbas_of ws) = todo ws"
  by (induction ws) auto

lemma wf_runs_above: "wf_runs t ((a, b) # ws) \<Longrightarrow> x \<in> covered ws \<Longrightarrow> b < x"
proof (induction ws arbitrary: a b)
  case (Cons r ws)
  obtain c d where r: "r = (c, d)" by (cases r)
  with Cons.prems have "b < c" "c < d" "wf_runs t ((c, d) # ws)" by auto
  with Cons.IH [of c d] Cons.prems r show ?case by fastforce
qed simp

lemma wf_runs_bound: "wf_runs t ws \<Longrightarrow> x \<in> covered ws \<Longrightarrow> x < t"
  by (induction t ws rule: wf_runs.induct) auto

lemma wf_runs_mem: "wf_runs t ws \<Longrightarrow> (a, b) \<in> set ws \<Longrightarrow> a < b \<and> b \<le> t"
  by (induction t ws rule: wf_runs.induct) auto

lemma wf_runs_distinct: "wf_runs t ws \<Longrightarrow> distinct (lbas_of ws)"
proof (induction t ws rule: wf_runs.induct)
  case (2 t a b ws)
  moreover have "x \<in> covered ws \<Longrightarrow> b < x" for x
    using 2(2) by (rule wf_runs_above)
  ultimately show ?case by fastforce
qed simp

lemma wf_runs_sorted: "wf_runs t ws \<Longrightarrow> sorted_wrt (<) (lbas_of ws)"
proof (induction t ws rule: wf_runs.induct)
  case (2 t a b ws)
  moreover have "x \<in> covered ws \<Longrightarrow> b < x" for x
    using 2(2) by (rule wf_runs_above)
  ultimately show ?case by (fastforce simp: sorted_wrt_append)
qed simp

lemma todo_card: "wf_runs t ws \<Longrightarrow> todo ws = card (covered ws)"
  using distinct_card [OF wf_runs_distinct] by (metis length_lbas_of set_lbas_of)

section \<open>Runs of unfinished sectors\<close>

abbreviation unfinished :: "status \<Rightarrow> bool" where
  "unfinished s \<equiv> s \<in> {BAD, UNTRIED}"

text \<open>The two nested loops of \<open>build_worklist\<close>.\<close>

function todo_end :: "statusmap \<Rightarrow> nat \<Rightarrow> nat \<Rightarrow> nat" where
  "todo_end sm t j = (if j < t \<and> unfinished (sm ! j) then todo_end sm t (j + 1) else j)"
  by pat_completeness auto
termination
  by (relation "measure (\<lambda>(sm, t, j). t - j)") auto

declare todo_end.simps [simp del]

lemma todo_end_ge: "j \<le> todo_end sm t j"
proof (induction sm t j rule: todo_end.induct)
  case (1 sm t j)
  then show ?case by (subst todo_end.simps) auto
qed

lemma todo_end_gt: "j < t \<Longrightarrow> unfinished (sm ! j) \<Longrightarrow> j < todo_end sm t j"
  using todo_end_ge [of "j + 1" sm t] by (subst todo_end.simps) simp

lemma todo_end_le: "j \<le> t \<Longrightarrow> todo_end sm t j \<le> t"
proof (induction sm t j rule: todo_end.induct)
  case (1 sm t j)
  then show ?case by (subst todo_end.simps) auto
qed

lemma todo_end_all: "j \<le> i \<Longrightarrow> i < todo_end sm t j \<Longrightarrow> unfinished (sm ! i)"
proof (induction sm t j rule: todo_end.induct)
  case (1 sm t j)
  then show ?case
    by (cases "j < t \<and> unfinished (sm ! j)"; cases "i = j")
       (auto simp: todo_end.simps [of sm t j] split: if_splits)
qed

lemma todo_end_stop: "todo_end sm t j < t \<Longrightarrow> \<not> unfinished (sm ! todo_end sm t j)"
proof (induction sm t j rule: todo_end.induct)
  case (1 sm t j)
  then show ?case
    by (cases "j < t \<and> unfinished (sm ! j)") (auto simp: todo_end.simps [of sm t j] split: if_splits)
qed

function todo_runs :: "statusmap \<Rightarrow> nat \<Rightarrow> nat \<Rightarrow> worklist" where
  "todo_runs sm t i =
     (if i < t
      then (if unfinished (sm ! i)
            then (let j = todo_end sm t i in (i, j) # todo_runs sm t j)
            else todo_runs sm t (i + 1))
      else [])"
  by pat_completeness auto
termination
proof (relation "measure (\<lambda>(sm, t, i). t - i)", goal_cases)
  case (2 sm t i j)
  then show ?case using todo_end_gt [of i t sm] by auto
qed auto

declare todo_runs.simps [simp del]

text \<open>From position \<open>i\<close> the runs are exactly the unfinished sectors, in the wanted shape.\<close>

lemma todo_runs_covered: "covered (todo_runs sm t i) = {k. i \<le> k \<and> k < t \<and> unfinished (sm ! k)}"
proof (induction sm t i rule: todo_runs.induct)
  case (1 sm t i)
  consider "t \<le> i" | "i < t" "unfinished (sm ! i)" | "i < t" "\<not> unfinished (sm ! i)" by linarith
  then show ?case
  proof cases
    case 1
    then show ?thesis by (subst todo_runs.simps) auto
  next
    case 2
    let ?j = "todo_end sm t i"
    have "covered (todo_runs sm t i) = {i..<?j} \<union> {k. ?j \<le> k \<and> k < t \<and> unfinished (sm ! k)}"
      using 2 "1.IH"(1) by (subst todo_runs.simps) (simp add: Let_def)
    also have "\<dots> = {k. i \<le> k \<and> k < t \<and> unfinished (sm ! k)}"
      using todo_end_ge [of i sm t] todo_end_le [of i t sm] todo_end_all [of i _ sm t] 2(1)
      by fastforce
    finally show ?thesis .
  next
    case 3
    then have "covered (todo_runs sm t i) = {k. i + 1 \<le> k \<and> k < t \<and> unfinished (sm ! k)}"
      using "1.IH"(2) by (subst todo_runs.simps) simp
    also have "\<dots> = {k. i \<le> k \<and> k < t \<and> unfinished (sm ! k)}"
      using 3(2) by (metis Suc_eq_plus1 Suc_leD le_eq_less_or_eq less_eq_Suc_le)
    finally show ?thesis .
  qed
qed

lemma todo_runs_first: "todo_runs sm t i = (a, b) # ws \<Longrightarrow> i \<le> a \<and> unfinished (sm ! a)"
proof (induction sm t i rule: todo_runs.induct)
  case (1 sm t i)
  show ?case
  proof (cases "i < t \<and> \<not> unfinished (sm ! i)")
    case True
    with 1 show ?thesis by (subst (asm) (3) todo_runs.simps) fastforce
  next
    case False
    with 1(3) show ?thesis by (subst (asm) todo_runs.simps) (auto simp: Let_def split: if_splits)
  qed
qed

lemma todo_runs_wf: "wf_runs t (todo_runs sm t i)"
proof (induction sm t i rule: todo_runs.induct)
  case (1 sm t i)
  consider "t \<le> i" | "i < t" "unfinished (sm ! i)" | "i < t" "\<not> unfinished (sm ! i)" by linarith
  then show ?case
  proof cases
    case 2
    let ?j = "todo_end sm t i"
    have next_run: "?j < c" if runs: "todo_runs sm t ?j = (c, d) # ws" for c d ws
    proof -
      have "?j \<le> c" "unfinished (sm ! c)" using todo_runs_first [OF runs] by auto
      moreover have "c < t"
        using runs 2 "1.IH"(1) by auto
      ultimately show ?thesis using todo_end_stop [of sm t i] by (cases "c = ?j") auto
    qed
    have "todo_runs sm t i = (i, ?j) # todo_runs sm t ?j"
      using 2 by (subst todo_runs.simps) (simp add: Let_def)
    moreover have "i < ?j" "?j \<le> t" "wf_runs t (todo_runs sm t ?j)"
      using 2 todo_end_gt [of i t sm] todo_end_le [of i t sm] "1.IH"(1) by auto
    ultimately show ?thesis using next_run by (auto split: list.split)
  qed (use 1 in \<open>auto simp: todo_runs.simps [of sm t i]\<close>)
qed

section \<open>Coalescing\<close>

text \<open>The scan for the first smallest gap, and the merge across it.\<close>

definition gap_at :: "worklist \<Rightarrow> nat \<Rightarrow> int" where
  "gap_at runs k = int (fst (runs ! (k + 1))) - int (snd (runs ! k))"

definition best_gap_step :: "worklist \<Rightarrow> nat \<times> int option \<Rightarrow> nat \<Rightarrow> nat \<times> int option" where
  "best_gap_step runs best k =
     (let gap = gap_at runs k
      in if snd best = None \<or> gap < the (snd best) then (k, Some gap) else best)"

definition best_k :: "worklist \<Rightarrow> nat" where
  "best_k runs = fst (foldl (best_gap_step runs) (0, None) [0..<length runs - 1])"

definition merge_at :: "nat \<Rightarrow> worklist \<Rightarrow> worklist" where
  "merge_at k runs =
     (let merged = runs[k := (fst (runs ! k), snd (runs ! (k + 1)))]
      in take (k + 1) merged @ drop (k + 2) merged)"

lemma best_gap_fold:
  "\<exists>k\<le>n. foldl (best_gap_step runs) (0, None) [0..<Suc n] = (k, Some (gap_at runs k)) \<and>
     (\<forall>i\<le>n. gap_at runs k \<le> gap_at runs i)"
proof (induction n)
  case 0
  show ?case by (simp add: best_gap_step_def Let_def)
next
  case (Suc n)
  then obtain k where k: "k \<le> n" "\<forall>i\<le>n. gap_at runs k \<le> gap_at runs i"
    "foldl (best_gap_step runs) (0, None) [0..<Suc n] = (k, Some (gap_at runs k))" by blast
  have "foldl (best_gap_step runs) (0, None) [0..<Suc (Suc n)] =
      best_gap_step runs (foldl (best_gap_step runs) (0, None) [0..<Suc n]) (Suc n)"
    by simp
  also have "\<dots> = (if gap_at runs (Suc n) < gap_at runs k then (Suc n, Some (gap_at runs (Suc n)))
      else (k, Some (gap_at runs k)))"
    unfolding k(3) by (simp add: best_gap_step_def Let_def)
  finally show ?case using k(1,2) by (auto simp: le_Suc_eq intro: order.trans less_imp_le)
qed

lemma best_k_props:
  assumes "2 \<le> length runs"
  shows "Suc (best_k runs) < length runs"
    and "Suc i < length runs \<Longrightarrow> gap_at runs (best_k runs) \<le> gap_at runs i"
proof -
  obtain n where n: "length runs = Suc (Suc n)"
    using assms by (metis One_nat_def Suc_1 Suc_le_D Suc_le_mono)
  obtain k where "k \<le> n" "\<forall>i\<le>n. gap_at runs k \<le> gap_at runs i" "best_k runs = k"
    using best_gap_fold [of n runs] n by (auto simp: best_k_def simp del: upt_Suc)
  with n show "Suc (best_k runs) < length runs"
    and "Suc i < length runs \<Longrightarrow> gap_at runs (best_k runs) \<le> gap_at runs i" by auto
qed

lemma length_merge_at: "Suc k < length runs \<Longrightarrow> length (merge_at k runs) = length runs - 1"
  by (simp add: merge_at_def Let_def)

text \<open>The loop: merge while there are more than \<open>MAXR\<close> runs.\<close>

function coalesce :: "worklist \<Rightarrow> worklist" where
  "coalesce runs = (if MAXR < length runs then coalesce (merge_at (best_k runs) runs) else runs)"
  by pat_completeness auto
termination
proof (relation "measure length", goal_cases)
  case (2 runs)
  then have "Suc (best_k runs) < length runs" by (intro best_k_props) (simp add: MAXR_def)
  with length_merge_at [OF this] show ?case by simp
qed simp

declare coalesce.simps [simp del]

definition build_worklist :: "statusmap \<Rightarrow> nat \<Rightarrow> bool \<Rightarrow> worklist" where
  "build_worklist sm t resume =
     (if \<not> resume then [(0, t)]
      else (let runs = todo_runs sm t 0
            in if runs = [] then [] else coalesce runs))"

text \<open>A merge on the list cut at the gap it closes.\<close>

lemma merge_at_split: "merge_at (length xs) (xs @ (a, b) # (c, d) # ys) = xs @ (a, d) # ys"
  by (simp add: merge_at_def nth_append list_update_append Let_def)

lemma split_at_gap:
  assumes "Suc k < length runs"
  obtains xs a b c d ys where "runs = xs @ (a, b) # (c, d) # ys" "length xs = k"
proof -
  have eq: "runs = take k runs @ runs ! k # runs ! Suc k # drop (Suc (Suc k)) runs"
    using assms by (metis Cons_nth_drop_Suc Suc_lessD append_take_drop_id)
  have len: "length (take k runs) = k" using assms by simp
  show thesis
    by (rule that [of "take k runs" "fst (runs ! k)" "snd (runs ! k)" "fst (runs ! Suc k)" "snd (runs ! Suc k)"])
       (use eq len in simp_all)
qed

lemma wf_runs_append:
  "wf_runs t (xs @ ys) \<longleftrightarrow>
     wf_runs t xs \<and> wf_runs t ys \<and> (xs \<noteq> [] \<longrightarrow> ys \<noteq> [] \<longrightarrow> snd (last xs) < fst (hd ys))"
proof (induction t xs rule: wf_runs.induct)
  case (2 t a b ws)
  then show ?case by (cases ws; cases ys) auto
qed simp

lemma merge_at_props:
  assumes wf: "wf_runs t runs" and k: "Suc k < length runs"
  shows "wf_runs t (merge_at k runs)"
    and "covered runs \<subseteq> covered (merge_at k runs)"
    and "int (todo (merge_at k runs)) = int (todo runs) + gap_at runs k"
proof -
  obtain xs a b c d ys where runs: "runs = xs @ (a, b) # (c, d) # ys" "length xs = k"
    using k by (rule split_at_gap)
  have merged: "merge_at k runs = xs @ (a, d) # ys"
    using merge_at_split [of xs a b c d ys] runs by simp
  have order: "a < b" "b < c" "c < d" using wf runs by (auto simp: wf_runs_append)
  show "wf_runs t (merge_at k runs)"
    unfolding merged using wf order unfolding runs(1) by (auto simp: wf_runs_append)
  show "covered runs \<subseteq> covered (merge_at k runs)"
    unfolding merged unfolding runs(1) using order by auto
  have "gap_at runs k = int c - int b"
    using runs by (simp add: gap_at_def nth_append)
  with order show "int (todo (merge_at k runs)) = int (todo runs) + gap_at runs k"
    unfolding merged unfolding runs(1) by (simp add: todo_def)
qed

lemma coalesce_short: "length runs \<le> MAXR \<Longrightarrow> coalesce runs = runs"
  by (simp add: coalesce.simps)

lemma length_coalesce: "length (coalesce runs) = min MAXR (length runs)"
proof (induction runs rule: coalesce.induct)
  case (1 runs)
  show ?case
  proof (cases "MAXR < length runs")
    case True
    then have k: "Suc (best_k runs) < length runs" by (intro best_k_props) (simp add: MAXR_def)
    with True 1 length_merge_at [OF k] show ?thesis
      by (subst coalesce.simps) simp
  qed (simp add: coalesce_short)
qed

lemma coalesce_props:
  assumes "wf_runs t runs"
  shows "wf_runs t (coalesce runs) \<and> covered runs \<subseteq> covered (coalesce runs)"
  using assms
proof (induction runs rule: coalesce.induct)
  case (1 runs)
  show ?case
  proof (cases "MAXR < length runs")
    case True
    then have "Suc (best_k runs) < length runs" by (intro best_k_props) (simp add: MAXR_def)
    note merged = merge_at_props [OF "1.prems" this]
    from 1(1) [OF True merged(1)] merged(2) True show ?thesis
      by (subst (1 2) coalesce.simps) auto
  next
    case False
    with "1.prems" show ?thesis by (simp add: coalesce_short)
  qed
qed

section \<open>What the worklists guarantee\<close>

lemma worklist_fresh: "build_worklist sm t False = [(0, t)]"
  by (simp add: build_worklist_def)

lemma worklist_resume_wf: "wf_runs t (build_worklist sm t True)"
  using coalesce_props [OF todo_runs_wf [of t sm 0]] by (simp add: build_worklist_def Let_def)

lemma worklist_resume_length: "length (build_worklist sm t True) \<le> MAXR"
  by (simp add: build_worklist_def Let_def length_coalesce)

lemma worklist_resume_covers:
  "{k. k < t \<and> unfinished (sm ! k)} \<subseteq> covered (build_worklist sm t True)"
  using coalesce_props [OF todo_runs_wf [of t sm 0]] todo_runs_covered [of sm t 0]
  by (auto simp: build_worklist_def Let_def)

text \<open>Without coalescing, nothing else is read.\<close>

lemma worklist_resume_exact:
  "length (todo_runs sm t 0) \<le> MAXR \<Longrightarrow>
     covered (build_worklist sm t True) = {k. k < t \<and> unfinished (sm ! k)}"
proof -
  assume "length (todo_runs sm t 0) \<le> MAXR"
  then have "build_worklist sm t True = todo_runs sm t 0"
    by (simp add: build_worklist_def Let_def coalesce_short)
  then show ?thesis by (simp only: todo_runs_covered) simp
qed

lemma worklist_resume_empty:
  "build_worklist sm t True = [] \<longleftrightarrow> (\<forall>k<t. sm ! k = GOOD)"
proof -
  have "build_worklist sm t True = [] \<longleftrightarrow> todo_runs sm t 0 = []"
    using length_coalesce [of "todo_runs sm t 0"]
    by (auto simp: build_worklist_def Let_def MAXR_def min_def split: if_splits)
  also have "\<dots> \<longleftrightarrow> covered (todo_runs sm t 0) = {}"
    using todo_runs_wf [of t sm 0] by (cases "todo_runs sm t 0") auto
  also have "\<dots> \<longleftrightarrow> (\<forall>k<t. sm ! k = GOOD)"
    unfolding todo_runs_covered by (auto, metis status.exhaust)
  finally show ?thesis .
qed

section \<open>The \<open>--range\<close> option\<close>

text \<open>The messages of the \<open>ValueError\<close>s, as constructors.\<close>

datatype range_error =
    BadRange string
  | InvalidLiteral string
  | OutOfBounds int int
  | TooManyRanges nat

fun parse_parts :: "nat \<Rightarrow> string list \<Rightarrow> range_error + worklist" where
  "parse_parts t [] = Inr []"
| "parse_parts t (p # ps) =
     (let part = py_strip p in
      if part = [] then parse_parts t ps
      else if CHR '':'' \<notin> set part then Inl (BadRange part)
      else (let (a_s, b_s) = py_split1 (CHR '':'') part in
        (case py_int 0 a_s of
           None \<Rightarrow> Inl (InvalidLiteral a_s)
         | Some a \<Rightarrow>
             (case py_int 0 b_s of
                None \<Rightarrow> Inl (InvalidLiteral b_s)
              | Some b \<Rightarrow>
                  if a < 0 \<or> b > int t \<or> a \<ge> b then Inl (OutOfBounds a b)
                  else (case parse_parts t ps of
                          Inl e \<Rightarrow> Inl e
                        | Inr out \<Rightarrow> Inr ((nat a, nat b) # out))))))"

definition parse_ranges_spec :: "string \<Rightarrow> nat \<Rightarrow> range_error + worklist" where
  "parse_ranges_spec spec t =
     (case parse_parts t (py_split (CHR '','') spec) of
        Inl e \<Rightarrow> Inl e
      | Inr out \<Rightarrow> if length out > MAXR then Inl (TooManyRanges (length out)) else Inr out)"

definition valid_range :: "nat \<Rightarrow> nat \<times> nat \<Rightarrow> bool" where
  "valid_range t r \<longleftrightarrow> fst r < snd r \<and> snd r \<le> t"

lemma parse_parts_valid: "parse_parts t ps = Inr ws \<Longrightarrow> list_all (valid_range t) ws"
  by (induction t ps arbitrary: ws rule: parse_parts.induct)
     (auto simp: Let_def valid_range_def split: if_splits option.splits sum.splits prod.splits)

lemma parse_ranges_valid:
  "parse_ranges_spec spec t = Inr ws \<Longrightarrow> list_all (valid_range t) ws \<and> length ws \<le> MAXR"
  by (auto simp: parse_ranges_spec_def dest: parse_parts_valid split: sum.splits if_splits)

text \<open>Ranges written as the help text shows them are read back.\<close>

definition range_text :: "nat \<times> nat \<Rightarrow> string" where
  "range_text r = py_dec (fst r) @ '':'' @ py_dec (snd r)"

fun ranges_text :: "worklist \<Rightarrow> string" where
  "ranges_text [] = []"
| "ranges_text [r] = range_text r"
| "ranges_text (r # rs) = range_text r @ '','' @ ranges_text rs"

lemma range_text_plain:
  "c \<in> set (range_text r) \<Longrightarrow> c = CHR '':'' \<or> (\<exists>d<36. c = digit_char d)"
  using py_dec_plain(2) by (auto simp: range_text_def)

lemma range_text_no_comma: "CHR '','' \<notin> set (range_text r)"
  using range_text_plain [of "CHR '',''" r] digit_char_plain(3) by force

lemma py_dec_no_colon: "CHR '':'' \<notin> set (py_dec n)"
  using py_dec_plain(2) [of "CHR '':''" n] digit_char_plain(3) by force

lemma range_text_strip: "py_strip (range_text r) = range_text r"
proof (rule py_strip_id)
  have "\<not> py_space (hd (py_dec n))" for n
    using py_dec_plain(1) [of n] py_dec_plain(2) [of "hd (py_dec n)" n] digit_char_plain(1) by fastforce
  then show "\<not> py_space (hd (range_text r))"
    using py_dec_plain(1) by (simp add: range_text_def)
  show "\<not> py_space (last (range_text r))"
    using last_py_dec py_dec_plain(1) by (simp add: range_text_def)
qed (simp add: range_text_def)

lemma range_text_split1: "py_split1 (CHR '':'') (range_text r) = (py_dec (fst r), py_dec (snd r))"
  using py_dec_no_colon [of "fst r"]
  by (auto simp: py_split1_def range_text_def takeWhile_append dropWhile_append)

lemma ranges_text_split: "ws \<noteq> [] \<Longrightarrow> py_split (CHR '','') (ranges_text ws) = map range_text ws"
  by (induction ws rule: ranges_text.induct)
     (simp_all add: py_split_append py_split_none range_text_no_comma)

lemma parse_parts_text:
  "list_all (valid_range t) ws \<Longrightarrow> parse_parts t (map range_text ws) = Inr ws"
proof (induction ws)
  case (Cons r ws)
  have "range_text r \<noteq> []" and "CHR '':'' \<in> set (range_text r)"
    by (simp_all add: range_text_def)
  with Cons show ?case
    by (simp add: range_text_strip range_text_split1 py_int_dec valid_range_def Let_def)
qed simp

lemma parse_ranges_text:
  assumes "ws \<noteq> []" "list_all (valid_range t) ws" "length ws \<le> MAXR"
  shows "parse_ranges_spec (ranges_text ws) t = Inr ws"
  using assms by (simp add: parse_ranges_spec_def ranges_text_split parse_parts_text)

section \<open>Properties\<close>

text \<open>C15: The worklist of a resumed run has at most \<open>MAXR\<close> ranges, which are nonempty, in
  order, apart from each other and inside the disk, and it names every sector that is bad or
  untried; no sector is named twice.\<close>

theorem resume_worklist_sound:
  "length (build_worklist sm t True) \<le> MAXR
   \<and> wf_runs t (build_worklist sm t True)
   \<and> distinct (lbas_of (build_worklist sm t True))
   \<and> {k. k < t \<and> unfinished (sm ! k)} \<subseteq> covered (build_worklist sm t True)"
  using worklist_resume_length worklist_resume_wf worklist_resume_covers wf_runs_distinct by blast

text \<open>When the unfinished sectors form at most \<open>MAXR\<close> runs, a resumed run reads these
  sectors and no other.\<close>

lemma resume_worklist_exact:
  assumes "length (todo_runs sm t 0) \<le> MAXR"
  shows "covered (build_worklist sm t True) = {k. k < t \<and> unfinished (sm ! k)}
    \<and> todo (build_worklist sm t True) = card {k. k < t \<and> unfinished (sm ! k)}"
  using worklist_resume_exact [OF assms] todo_card [OF worklist_resume_wf] by metis

lemma resume_worklist_exact_example:
  "covered (build_worklist [GOOD, BAD, GOOD, UNTRIED] 4 True) =
     {k. k < 4 \<and> unfinished ([GOOD, BAD, GOOD, UNTRIED] ! k)}"
proof -
  have "length (todo_runs [GOOD, BAD, GOOD, UNTRIED] 4 0) \<le> MAXR"
    by (simp add: todo_runs.simps todo_end.simps MAXR_def)
  from resume_worklist_exact [OF this] show ?thesis by simp
qed

text \<open>A resumed run has nothing to do exactly when every sector of the disk is good.\<close>

lemma resume_worklist_empty: "build_worklist sm t True = [] \<longleftrightarrow> (\<forall>k<t. sm ! k = GOOD)"
  by (rule worklist_resume_empty)

lemma resume_worklist_empty_example:
  "build_worklist [GOOD, GOOD] 2 True = [] \<and> build_worklist [GOOD, BAD] 2 True \<noteq> []"
  unfolding resume_worklist_empty by (auto simp: less_2_cases_iff)

text \<open>Every range list that \<open>--range\<close> accepts has at most \<open>MAXR\<close> ranges, all nonempty
  and inside the disk.\<close>

lemma parse_ranges_sound:
  assumes "parse_ranges_spec spec t = Inr ws"
  shows "length ws \<le> MAXR \<and> (\<forall>(a, b)\<in>set ws. a < b \<and> b \<le> t)"
  using parse_ranges_valid [OF assms] by (auto simp: list_all_iff valid_range_def)

lemma parse_ranges_sound_example:
  "length [(0, 200), (43301, 43302)] \<le> MAXR"
proof -
  have "parse_ranges_spec (ranges_text [(0, 200), (43301, 43302)]) 50000 = Inr [(0, 200), (43301, 43302)]"
    by (rule parse_ranges_text) (simp_all add: valid_range_def MAXR_def)
  from parse_ranges_sound [OF this] show ?thesis by simp
qed

text \<open>C33: Every list of one to \<open>MAXR\<close> ranges inside the disk can be given on the command
  line: written in the documented form, it is read back unchanged, overlaps and order
  included.\<close>

theorem parse_ranges_complete:
  assumes "ws \<noteq> []" "length ws \<le> MAXR" "\<forall>(a, b)\<in>set ws. a < b \<and> b \<le> t"
  shows "parse_ranges_spec (ranges_text ws) t = Inr ws"
  using assms by (intro parse_ranges_text) (auto simp: list_all_iff valid_range_def)

theorem parse_ranges_complete_witness:
  "parse_ranges_spec (ranges_text [(0, 200), (43301, 43302)]) 50000 = Inr [(0, 200), (43301, 43302)]"
  by (rule parse_ranges_complete) (simp_all add: MAXR_def)

end
