(* ===== verification/Mapfile.thy ===== *)
theory Mapfile
  imports StatusMap PyText
begin

text \<open>
  The ddrescue-style mapfile and the bad-block list of \<open>rx-host/rx.py\<close>: the text that
  \<open>write_mapfile\<close> and \<open>write_badlist\<close> write, and \<open>load_mapfile\<close>, which reads a mapfile
  back. The main result is the round trip that \<open>--resume\<close> rests on. The interface of such a
  store is the locale \<open>map_store\<close>.
\<close>

section \<open>Writing\<close>

definition run_line :: "nat \<times> nat \<times> char \<Rightarrow> string" where
  "run_line r =
     (case r of (pos, sz, ch) \<Rightarrow>
        ''0x'' @ py_hex08 pos @ ''  0x'' @ py_hex08 sz @ ''  '' @ [ch])"

definition mapfile_header :: "statusmap \<Rightarrow> nat \<Rightarrow> nat \<Rightarrow> string list" where
  "mapfile_header sm bps total_lba =
     (let complete = (\<forall>s\<in>set sm. s \<noteq> UNTRIED)
      in [''# Mapfile. Created by rx.py (disk-xfer-rescue).'',
          ''# Compatible with GNU ddrescue: + finished, - bad, ? non-tried.'',
          ''# sector size: '' @ py_dec bps @ ''   total sectors: '' @ py_dec total_lba,
          ''0x'' @ py_hex08 (total_lba * bps) @ ''     '' @ (if complete then ''+'' else ''?'')])"

definition write_mapfile :: "statusmap \<Rightarrow> nat \<Rightarrow> nat \<Rightarrow> string" where
  "write_mapfile sm bps total_lba =
     text_of_lines (mapfile_header sm bps total_lba @ map run_line (build_runs sm bps))"

definition write_badlist :: "statusmap \<Rightarrow> string" where
  "write_badlist sm =
     text_of_lines (''# Unreadable sectors (LBA, decimal).'' # map py_dec (bad_lbas sm))"

section \<open>Reading\<close>

text \<open>\<open>for lba in range(a, b): statusmap[lba] = val\<close>.\<close>

function set_range :: "int \<Rightarrow> int \<Rightarrow> status \<Rightarrow> statusmap \<Rightarrow> py_error + statusmap" where
  "set_range a b val sm =
     (if a < b
      then (case set_item sm a val of Inl e \<Rightarrow> Inl e | Inr sm' \<Rightarrow> set_range (a + 1) b val sm')
      else Inr sm)"
  by pat_completeness auto
termination
  by (relation "measure (\<lambda>(a, b, val, sm). nat (b - a))") auto

declare set_range.simps [simp del]

text \<open>
  One round of the loop of \<open>load_mapfile\<close>. The conversions raise \<open>ValueError\<close> (\<open>None\<close>), which
  skips the line; the item accesses raise \<open>IndexError\<close> and the division by a sector size of 0
  \<open>ZeroDivisionError\<close>, which are not caught.
\<close>

definition load_line :: "nat \<Rightarrow> nat \<Rightarrow> string \<Rightarrow> statusmap \<Rightarrow> py_error + statusmap" where
  "load_line total_lba bps line0 sm =
     (let line = py_strip line0 in
      if line = [] \<or> hd line = CHR ''#'' then Inr sm
      else (let parts = py_words line in
        if length parts < 3 then Inr sm
        else (case get_item parts 0 of
          Inl e \<Rightarrow> Inl e
        | Inr pos_s \<Rightarrow> (case py_int 16 pos_s of
          None \<Rightarrow> Inr sm
        | Some pos \<Rightarrow> (case get_item parts 1 of
          Inl e \<Rightarrow> Inl e
        | Inr size_s \<Rightarrow> (case py_int 16 size_s of
          None \<Rightarrow> Inr sm
        | Some sz \<Rightarrow> (case get_item parts 2 of
          Inl e \<Rightarrow> Inl e
        | Inr ch \<Rightarrow>
            (let val = char_status ch in
             if bps = 0 then Inl ZeroDivisionError
             else (let lba0 = pos div int bps; lba1 = (pos + sz) div int bps
                   in set_range (max 0 lba0) (min (int total_lba) lba1) val sm)))))))))"

fun load_lines :: "nat \<Rightarrow> nat \<Rightarrow> string list \<Rightarrow> statusmap \<Rightarrow> py_error + statusmap" where
  "load_lines total_lba bps [] sm = Inr sm"
| "load_lines total_lba bps (l # ls) sm =
     (case load_line total_lba bps l sm of
        Inl e \<Rightarrow> Inl e
      | Inr sm' \<Rightarrow> load_lines total_lba bps ls sm')"

definition load_mapfile :: "string \<Rightarrow> nat \<Rightarrow> nat \<Rightarrow> py_error + statusmap" where
  "load_mapfile contents total_lba bps =
     load_lines total_lba bps (py_lines contents) (replicate total_lba UNTRIED)"

text \<open>Within the map the loop raises nothing.\<close>

lemma set_range_inside:
  "0 \<le> a \<Longrightarrow> b \<le> int (length sm) \<Longrightarrow> set_range a b val sm = Inr (fill_range (nat a) (nat b) val sm)"
proof (induction a b val sm rule: set_range.induct)
  case (1 a b val sm)
  show ?case
  proof (cases "a < b")
    case True
    then have "[nat a..<nat b] = nat a # [nat (a + 1)..<nat b]"
      using 1(2) by (simp add: upt_conv_Cons nat_add_distrib)
    with 1 True show ?thesis
      by (simp add: set_range.simps [of a b] fill_range_def)
  qed (use 1(2) in \<open>simp add: set_range.simps [of a b] fill_range_def\<close>)
qed

text \<open>A line of three words on a map of the right length.\<close>

lemma load_line_fields:
  assumes "length sm = t"
  shows "load_line t bps line0 sm =
     (let line = py_strip line0 in
      if line = [] \<or> hd line = CHR ''#'' then Inr sm
      else (let parts = py_words line in
        if length parts < 3 then Inr sm
        else (case (py_int 16 (parts ! 0), py_int 16 (parts ! 1)) of
            (Some pos, Some sz) \<Rightarrow>
               if bps = 0 then Inl ZeroDivisionError
               else Inr (fill_range (nat (max 0 (pos div int bps))) (nat (min (int t) ((pos + sz) div int bps)))
                 (char_status (parts ! 2)) sm)
          | _ \<Rightarrow> Inr sm)))"
proof -
  have range: "set_range (max 0 x) (min (int t) y) val sm =
      Inr (fill_range (nat (max 0 x)) (nat (min (int t) y)) val sm)" for x y val
    using assms by (intro set_range_inside) simp_all
  have item: "get_item ps 0 = Inr (ps ! 0)" "get_item ps 1 = Inr (ps ! 1)" "get_item ps 2 = Inr (ps ! 2)"
    if "\<not> length ps < 3" for ps :: "string list"
  proof -
    from that have "0 < length ps" "1 < length ps" "2 < length ps" by linarith+
    then show "get_item ps 0 = Inr (ps ! 0)" "get_item ps 1 = Inr (ps ! 1)" "get_item ps 2 = Inr (ps ! 2)"
      by simp_all
  qed
  show ?thesis
    by (cases "length (py_words (py_strip line0)) < 3")
       (simp_all add: load_line_def Let_def range item split: option.split)
qed

lemma load_line_length: "load_line t bps l sm = Inr sm' \<Longrightarrow> length sm = t \<Longrightarrow> length sm' = t"
  by (auto simp: load_line_fields Let_def split: if_splits option.splits)

lemma load_line_ok: "0 < bps \<Longrightarrow> length sm = t \<Longrightarrow> \<exists>sm'. load_line t bps l sm = Inr sm'"
  by (auto simp: load_line_fields Let_def split: option.split)

lemma load_lines_length: "load_lines t bps ls sm = Inr sm' \<Longrightarrow> length sm = t \<Longrightarrow> length sm' = t"
  by (induction ls arbitrary: sm) (auto split: sum.splits dest: load_line_length)

lemma load_mapfile_length: "load_mapfile txt t bps = Inr sm \<Longrightarrow> length sm = t"
  by (auto simp: load_mapfile_def dest: load_lines_length)

text \<open>With a positive sector size no file content makes the reader fail.\<close>

lemma load_lines_total: "0 < bps \<Longrightarrow> length sm = t \<Longrightarrow> \<exists>sm'. load_lines t bps ls sm = Inr sm'"
proof (induction ls arbitrary: sm)
  case (Cons l ls)
  obtain sm1 where "load_line t bps l sm = Inr sm1"
    using load_line_ok [OF Cons.prems] by blast
  with Cons load_line_length show ?case by fastforce
qed simp

lemma load_mapfile_ok: "0 < bps \<Longrightarrow> \<exists>sm. load_mapfile contents t bps = Inr sm \<and> length sm = t"
  using load_lines_total [of bps "replicate t UNTRIED" t "py_lines contents"] load_mapfile_length [of contents t bps]
  by (fastforce simp: load_mapfile_def)

lemma load_mapfile_error:
  assumes "load_mapfile contents t bps = Inl e"
  shows "bps = 0 \<and> e = ZeroDivisionError"
proof -
  have "load_lines t bps ls sm = Inl e \<Longrightarrow> length sm = t \<Longrightarrow> bps = 0 \<and> e = ZeroDivisionError" for ls sm
  proof (induction ls arbitrary: sm)
    case (Cons l ls)
    show ?case
    proof (cases "load_line t bps l sm")
      case (Inl e')
      with Cons.prems show ?thesis
        by (auto simp: load_line_fields Let_def split: if_splits option.splits)
    next
      case (Inr sm')
      with Cons load_line_length show ?thesis by simp
    qed
  qed simp
  with assms show ?thesis by (auto simp: load_mapfile_def)
qed

lemma load_lines_append:
  "load_lines t bps (xs @ ys) sm =
     (case load_lines t bps xs sm of Inl e \<Rightarrow> Inl e | Inr sm' \<Rightarrow> load_lines t bps ys sm')"
  by (induction xs arbitrary: sm) (auto split: sum.split)

section \<open>The round trip\<close>

lemma status_char_plain [simp]:
  "\<not> py_space (status_char s)" "status_char s \<noteq> CHR 0x0A" "status_char s \<noteq> CHR 0x0D"
  by (cases s; simp add: py_space_def)+

lemma py_space_blank [simp]: "py_space CHR '' ''"
  by (simp add: py_space_def)

lemma hex_word: "\<forall>x\<in>set (''0x'' @ py_hex08 n). \<not> py_space x"
  using number_chars [of _ n] by (auto simp: py_space_def)

lemma run_line_words:
  "py_words (run_line (pos, sz, status_char s)) =
     [''0x'' @ py_hex08 pos, ''0x'' @ py_hex08 sz, [status_char s]]"
proof -
  have a: "py_words ((''0x'' @ py_hex08 n) @ CHR '' '' # CHR '' '' # rest) =
      (''0x'' @ py_hex08 n) # py_words rest" for n rest
    by (subst py_words_word) (use hex_word in simp_all)
  have b: "py_words ([status_char s] @ []) = [status_char s] # py_words []"
    by (rule py_words_word) simp_all
  show ?thesis using a b by (simp add: run_line_def)
qed

lemma run_line_strip: "py_strip (run_line (pos, sz, status_char s)) = run_line (pos, sz, status_char s)"
  by (rule py_strip_id) (simp_all add: run_line_def py_space_def [of "CHR ''0''"])

lemma load_run_line:
  assumes "0 < bps" "j \<le> t" "length sm = t"
  shows "load_line t bps (run_line (i * bps, (j - i) * bps, status_char s)) sm = Inr (fill_range i j s sm)"
proof (cases "i \<le> j")
  case True
  then have "int (i * bps) + int ((j - i) * bps) = int j * int bps"
    by (simp add: of_nat_diff algebra_simps)
  moreover have "hd (run_line (i * bps, (j - i) * bps, status_char s)) \<noteq> CHR ''#''"
    and "run_line (i * bps, (j - i) * bps, status_char s) \<noteq> []"
    by (simp_all add: run_line_def)
  ultimately show ?thesis
    using assms
    by (simp add: load_line_fields run_line_strip run_line_words py_int_hex08 [simplified] Let_def
        del: of_nat_mult) (simp add: min_def)
next
  case False
  moreover have "hd (run_line (i * bps, 0, status_char s)) \<noteq> CHR ''#''"
    and "run_line (i * bps, 0, status_char s) \<noteq> []"
    by (simp_all add: run_line_def)
  ultimately show ?thesis
    using assms
    by (simp add: load_line_fields run_line_strip run_line_words py_int_hex08 [simplified] Let_def
        fill_range_def)
qed

lemma load_run_lines:
  assumes "0 < bps" "length sm = t" "length m = t"
  shows "load_lines t bps (map run_line (build_runs_from sm bps i)) m =
    Inr (map (\<lambda>k. if k < i then m ! k else sm ! k) [0..<t])"
  using assms
proof (induction sm bps i arbitrary: m rule: build_runs_from.induct)
  case (1 sm bps i)
  show ?case
  proof (cases "i < length sm")
    case False
    with 1 show ?thesis
      by (subst build_runs_from.simps) (auto intro!: nth_equalityI)
  next
    case True
    let ?j = "run_end sm (sm ! i) i"
    have j: "?j \<le> t" using run_end_le [of i sm] True 1 by simp
    have same: "i \<le> k \<Longrightarrow> k < ?j \<Longrightarrow> sm ! k = sm ! i" for k
      by (rule run_end_same)
    have "load_lines t bps (map run_line (build_runs_from sm bps i)) m =
        load_lines t bps (map run_line (build_runs_from sm bps ?j)) (fill_range i ?j (sm ! i) m)"
      using True 1(2-) j by (subst build_runs_from.simps) (simp add: Let_def load_run_line)
    also have "\<dots> = Inr (map (\<lambda>k. if k < ?j then fill_range i ?j (sm ! i) m ! k else sm ! k) [0..<t])"
      using 1(1) [OF True refl refl] 1(2-) by simp
    also have "map (\<lambda>k. if k < ?j then fill_range i ?j (sm ! i) m ! k else sm ! k) [0..<t] =
        map (\<lambda>k. if k < i then m ! k else sm ! k) [0..<t]"
    proof (rule map_cong [OF refl])
      fix k assume "k \<in> set [0..<t]"
      then have "k < length m" using 1(4) by simp
      then show "(if k < ?j then fill_range i ?j (sm ! i) m ! k else sm ! k) =
          (if k < i then m ! k else sm ! k)"
        using same [of k] run_end_ge [of i sm "sm ! i"] by (simp add: nth_fill_range)
    qed
    finally show ?thesis .
  qed
qed

lemma load_header:
  "load_lines t bps (mapfile_header sm bps' t') m = Inr m"
proof -
  have hash: "load_line t bps (CHR ''#'' # l) m = Inr m" if "l \<noteq> []" "\<not> py_space (last l)" for l
    using that by (simp add: load_line_def py_strip_id py_space_def [of "CHR ''#''"])
  have status: "load_line t bps (''0x'' @ py_hex08 n @ ''     '' @ [status_char s]) m = Inr m" for n s
  proof -
    let ?l = "''0x'' @ py_hex08 n @ ''     '' @ [status_char s]"
    have strip: "py_strip ?l = ?l"
      by (rule py_strip_id) (simp_all add: py_space_def [of "CHR ''0''"])
    have "py_words ((''0x'' @ py_hex08 n) @ ''     '' @ [status_char s]) =
        (''0x'' @ py_hex08 n) # py_words (''     '' @ [status_char s])"
      by (rule py_words_word) (use hex_word in simp_all)
    moreover have "py_words ([status_char s] @ []) = [status_char s] # py_words []"
      by (rule py_words_word) simp_all
    ultimately have "length (py_words ?l) = 2" by simp
    with strip show ?thesis by (simp add: load_line_def)
  qed
  have status': "load_line t bps (''0x'' @ py_hex08 n @ ''     '' @ (if c then ''+'' else ''?'')) m = Inr m" for n c
    using status [of n GOOD] status [of n UNTRIED] by simp
  have blank: "load_line t bps (''# sector size: '' @ py_dec a @ ''   total sectors: '' @ py_dec b) m = Inr m"
    for a b
    using hash [of "tl (''# sector size: '') @ py_dec a @ ''   total sectors: '' @ py_dec b"]
    by (simp add: py_dec_plain last_py_dec)
  have comments: "load_line t bps ''# Mapfile. Created by rx.py (disk-xfer-rescue).'' m = Inr m"
    "load_line t bps ''# Compatible with GNU ddrescue: + finished, - bad, ? non-tried.'' m = Inr m"
    by (rule hash; simp add: py_space_def)+
  show ?thesis
    unfolding mapfile_header_def Let_def load_lines.simps comments blank status' sum.case ..
qed

lemma mapfile_lines_plain:
  assumes "l \<in> set (mapfile_header sm bps t @ map run_line (build_runs sm bps))"
  shows "CHR 0x0A \<notin> set l \<and> CHR 0x0D \<notin> set l"
proof -
  have runs: "r \<in> set (build_runs_from sm bps i) \<Longrightarrow> \<exists>s. snd (snd r) = status_char s" for r i
  proof (induction sm bps i rule: build_runs_from.induct)
    case (1 sm bps i)
    then show ?case
      by (cases "i < length sm") (auto simp: Let_def build_runs_from.simps [of sm bps i])
  qed
  have "CHR 0x0A \<notin> set (run_line (p, z, status_char s)) \<and> CHR 0x0D \<notin> set (run_line (p, z, status_char s))"
    for p z s
    by (simp add: run_line_def status_char_plain(2,3) [symmetric])
  with runs [of _ 0] have "CHR 0x0A \<notin> set (run_line r) \<and> CHR 0x0D \<notin> set (run_line r)"
    if "r \<in> set (build_runs sm bps)" for r
    using that by (metis build_runs_def prod.collapse)
  moreover have "CHR 0x0A \<notin> set l \<and> CHR 0x0D \<notin> set l" if "l \<in> set (mapfile_header sm bps t)"
    using that by (auto simp: mapfile_header_def Let_def split: if_splits)
  ultimately show ?thesis using assms by auto
qed

lemma load_write_mapfile:
  assumes "0 < bps" "length sm = t"
  shows "load_mapfile (write_mapfile sm bps t) t bps = Inr sm"
proof -
  have "py_lines (write_mapfile sm bps t) =
      mapfile_header sm bps t @ map run_line (build_runs sm bps)"
    unfolding write_mapfile_def using mapfile_lines_plain [of _ sm bps t]
    by (intro py_lines_text_of_lines) blast
  then have "load_mapfile (write_mapfile sm bps t) t bps =
      Inr (map (\<lambda>k. if k < 0 then UNTRIED else sm ! k) [0..<t])"
    using assms load_run_lines [of bps sm t "replicate t UNTRIED" 0]
    by (simp add: load_mapfile_def load_lines_append load_header build_runs_def)
  with assms map_nth [of sm] show ?thesis by auto
qed

section \<open>The interface of a map store\<close>

text \<open>
  What the capture needs of its mapfile: a saved map is loaded back, and a loaded map has one
  entry per sector.
\<close>

locale map_store =
  fixes save :: "statusmap \<Rightarrow> nat \<Rightarrow> nat \<Rightarrow> 'f"
    and load :: "'f \<Rightarrow> nat \<Rightarrow> nat \<Rightarrow> py_error + statusmap"
  assumes load_save: "0 < bps \<Longrightarrow> length sm = t \<Longrightarrow> load (save sm bps t) t bps = Inr sm"
    and load_length: "load f t bps = Inr sm \<Longrightarrow> length sm = t"
begin

text \<open>Two maps with the same saved form are the same map.\<close>

lemma save_inj:
  assumes "0 < bps" "length sm = t" "length sm' = t" "save sm bps t = save sm' bps t"
  shows "sm = sm'"
  by (metis Inr_inject load_save [OF assms(1,2)] load_save [OF assms(1,3)] assms(4))

text \<open>Saving what was loaded loses nothing, whatever was loaded.\<close>

lemma load_save_load:
  assumes "0 < bps" "load f t bps = Inr sm"
  shows "load (save sm bps t) t bps = load f t bps"
  by (simp only: assms(2) load_save [OF assms(1) load_length [OF assms(2)]])

end

interpretation mapfile: map_store write_mapfile load_mapfile
proof
  show "0 < bps \<Longrightarrow> length sm = t \<Longrightarrow> load_mapfile (write_mapfile sm bps t) t bps = Inr sm"
    for bps sm t by (rule load_write_mapfile)
  show "load_mapfile f t bps = Inr sm \<Longrightarrow> length sm = t" for f t bps sm
    by (rule load_mapfile_length)
qed

section \<open>Properties\<close>

text \<open>C13: A status map written with \<open>write_mapfile\<close> is read back unchanged by
  \<open>load_mapfile\<close>, for every map and every positive sector size: a resumed run starts from
  exactly the state the interrupted run had recorded.\<close>

theorem mapfile_roundtrip:
  assumes "0 < bps"
  shows "load_mapfile (write_mapfile sm bps (length sm)) (length sm) bps = Inr sm"
  using assms by (rule mapfile.load_save) simp

theorem mapfile_roundtrip_witness:
  "load_mapfile (write_mapfile [GOOD, BAD, UNTRIED] 512 3) 3 512 = Inr [GOOD, BAD, UNTRIED]"
  using mapfile_roundtrip [of 512 "[GOOD, BAD, UNTRIED]"] by (simp add: numeral_3_eq_3)

text \<open>C32: Whatever text a mapfile holds, with a positive sector size reading it raises nothing
  (no field of a line that is not there, no sector outside the map) and gives a map with one
  entry per sector; with sector size 0 it fails only by dividing by zero.\<close>

theorem load_mapfile_robust:
  "if 0 < bps then \<exists>sm. load_mapfile contents t bps = Inr sm \<and> length sm = t
   else \<forall>e. load_mapfile contents t bps = Inl e \<longrightarrow> e = ZeroDivisionError"
  using load_mapfile_ok load_mapfile_error by (metis (full_types))

theorem load_mapfile_robust_witness:
  "\<exists>sm. load_mapfile ''0x0  0x200  *'' 1 512 = Inr sm \<and> length sm = 1"
  using load_mapfile_robust [of 512 "''0x0  0x200  *''" 1] by simp

end
