(* ===== verification/ImageFile.thy ===== *)
theory ImageFile
  imports Prelude
begin

text \<open>
  Binary files of \<open>rx-host/rx.py\<close> as byte lists: \<open>truncate\<close>, and \<open>seek\<close> followed by
  \<open>read\<close> or \<open>write\<close>. The locale \<open>sector_file\<close> is what the capture needs of the image file:
  sector-sized writes that do not disturb other sectors.
\<close>

text \<open>
  \<open>f.truncate(n)\<close> cuts or zero-fills; a write beyond the end leaves a hole of zero bytes.
\<close>

definition file_truncate :: "nat \<Rightarrow> byte list \<Rightarrow> byte list" where
  "file_truncate n f = take n f @ replicate (n - length f) 0"

definition file_read_at :: "nat \<Rightarrow> nat \<Rightarrow> byte list \<Rightarrow> byte list" where
  "file_read_at off n f = take n (drop off f)"

definition file_write_at :: "nat \<Rightarrow> byte list \<Rightarrow> byte list \<Rightarrow> byte list" where
  "file_write_at off data f =
     (if data = [] then f
      else take off f @ replicate (off - length f) 0 @ data @ drop (off + length data) f)"

lemma length_file_truncate [simp, layout]: "length (file_truncate n f) = n"
  by (simp add: file_truncate_def)

lemma length_file_write_at [layout]:
  "length (file_write_at off data f) =
     (if data = [] then length f else max (length f) (off + length data))"
  by (auto simp: file_write_at_def max_def min_def)

text \<open>Byte by byte.\<close>

lemma nth_file_write_at:
  assumes "i < length (file_write_at off data f)"
  shows "file_write_at off data f ! i =
    (if off \<le> i \<and> i < off + length data then data ! (i - off)
     else if i < length f then f ! i else 0)"
  using assms
  by (auto simp: file_write_at_def nth_append min_def not_less split: if_splits)

lemma read_write_same:
  "file_read_at off (length data) (file_write_at off data f) = data"
  by (simp add: file_read_at_def file_write_at_def)

lemma read_write_other:
  assumes "off' + n \<le> off \<or> off + length data \<le> off'" and "off' + n \<le> length f"
  shows "file_read_at off' n (file_write_at off data f) = file_read_at off' n f"
proof (rule nth_equalityI)
  let ?g = "file_write_at off data f"
  have len: "off' + n \<le> length ?g" using assms(2) by (simp add: length_file_write_at le_max_iff_disj)
  then show "length (file_read_at off' n ?g) = length (file_read_at off' n f)"
    using assms(2) by (simp add: file_read_at_def)
  fix i assume "i < length (file_read_at off' n ?g)"
  then have i: "i < n" by (simp add: file_read_at_def)
  with len assms show "file_read_at off' n ?g ! i = file_read_at off' n f ! i"
    by (auto simp: file_read_at_def nth_file_write_at)
qed

section \<open>The interface of a sector file\<close>

text \<open>
  A file of \<open>t\<close> sectors of \<open>bps\<close> bytes. The laws speak of whole sectors inside the file.
\<close>

locale sector_file =
  fixes read_at :: "nat \<Rightarrow> nat \<Rightarrow> 'f \<Rightarrow> byte list"
    and write_at :: "nat \<Rightarrow> byte list \<Rightarrow> 'f \<Rightarrow> 'f"
    and extent :: "'f \<Rightarrow> nat"
  assumes read_same: "read_at off (length data) (write_at off data f) = data"
    and read_apart: "off' + n \<le> off \<or> off + length data \<le> off' \<Longrightarrow> off' + n \<le> extent f \<Longrightarrow>
      read_at off' n (write_at off data f) = read_at off' n f"
    and extent_write: "off + length data \<le> extent f \<Longrightarrow> extent (write_at off data f) = extent f"
begin

text \<open>One sector write inside the file, seen sector by sector.\<close>

lemma read_sector:
  assumes "length data = bps" "lba < t" "k < t" "t * bps \<le> extent f"
  shows "read_at (k * bps) bps (write_at (lba * bps) data f) =
    (if k = lba then data else read_at (k * bps) bps f)"
proof (cases "k = lba")
  case True
  then show ?thesis using assms(1) read_same by auto
next
  case False
  have "Suc i * bps \<le> j * bps" if "i < j" for i j
    using that by (intro mult_le_mono1) simp
  then have "k * bps + bps \<le> lba * bps \<or> lba * bps + bps \<le> k * bps"
    using False by (metis mult_Suc add.commute nat_neq_iff)
  moreover have "k * bps + bps \<le> extent f"
  proof -
    have "Suc k * bps \<le> t * bps" using assms(3) by (intro mult_le_mono1) simp
    with assms(4) show ?thesis by simp
  qed
  ultimately show ?thesis using False assms(1) read_apart by simp
qed

lemma extent_sector:
  assumes "length data = bps" "lba < t" "t * bps \<le> extent f"
  shows "extent (write_at (lba * bps) data f) = extent f"
proof (rule extent_write)
  have "Suc lba * bps \<le> t * bps" using assms(2) by (intro mult_le_mono1) simp
  with assms show "lba * bps + length data \<le> extent f" by simp
qed

end

interpretation image: sector_file file_read_at file_write_at length
proof
  show "file_read_at off (length data) (file_write_at off data f) = data" for off data f
    by (rule read_write_same)
  show "off' + n \<le> off \<or> off + length data \<le> off' \<Longrightarrow> off' + n \<le> length f \<Longrightarrow>
      file_read_at off' n (file_write_at off data f) = file_read_at off' n f" for off' n off data f
    by (rule read_write_other)
  show "off + length data \<le> length f \<Longrightarrow> length (file_write_at off data f) = length f" for off data f
    by (simp add: length_file_write_at)
qed

section \<open>An image as the sequence of its sectors\<close>

lemma image_of_sectors:
  assumes "length f = t * bps" "\<And>k. k < t \<Longrightarrow> file_read_at (k * bps) bps f = g k"
  shows "f = concat (map g [0..<t])"
  using assms
proof (induction t arbitrary: f)
  case (Suc t)
  let ?f = "take (t * bps) f"
  have same: "file_read_at (k * bps) bps ?f = g k" if "k < t" for k
  proof -
    have "k * bps + bps \<le> t * bps" using that by (metis Suc_leI add.commute mult_Suc mult_le_mono1)
    then have "min bps (t * bps - k * bps) = bps" by simp
    then have "file_read_at (k * bps) bps ?f = file_read_at (k * bps) bps f"
      by (simp only: file_read_at_def drop_take take_take)
    with Suc.prems(2) that show ?thesis by simp
  qed
  have "?f = concat (map g [0..<t])"
    using Suc.IH [of ?f] Suc.prems(1) same by simp
  moreover have "drop (t * bps) f = g t"
    using Suc.prems(2) [of t] Suc.prems(1) by (simp add: file_read_at_def)
  ultimately have "f = concat (map g [0..<t]) @ g t" by (metis append_take_drop_id)
  then show ?case by simp
qed simp

end
