(* ===== verification/Verify.thy ===== *)
theory Verify
  imports Mapfile ImageFile
begin

text \<open>
  Image inspection of \<open>rx-host/rx.py\<close>: \<open>parse_partitions\<close>, \<open>fs_label\<close> and
  \<open>verify_image\<close>. The printed report is a list of constructors, one per message, that hold
  the printed values; floating-point numbers are the exact rationals they stand for.
\<close>

section \<open>The partition table\<close>

definition py_slice :: "nat \<Rightarrow> nat \<Rightarrow> 'a list \<Rightarrow> 'a list" where
  "py_slice a b xs = take (b - a) (drop a xs)"

record partition =
  p_boot :: nat
  p_type :: nat
  p_start :: nat
  p_size :: nat

text \<open>One 16-byte entry; the caller has checked that the sector holds 512 bytes.\<close>

definition parse_entry :: "byte list \<Rightarrow> partition" where
  "parse_entry e =
     \<lparr>p_boot = unat (e ! 0), p_type = unat (e ! 4),
      p_start = from_bytes_le (py_slice 8 12 e), p_size = from_bytes_le (py_slice 12 16 e)\<rparr>"

definition parse_partitions :: "byte list \<Rightarrow> partition list" where
  "parse_partitions mbr =
     map (\<lambda>i. let off = 0x1BE + i * 16 in parse_entry (py_slice off (off + 16) mbr)) [0..<4]"

definition PART_TYPES :: "(nat \<times> string) list" where
  "PART_TYPES =
     [(0x00, ''empty''), (0x01, ''FAT12''), (0x04, ''FAT16 <32M''), (0x05, ''extended''),
      (0x06, ''FAT16''), (0x07, ''NTFS/HPFS/exFAT''), (0x0B, ''FAT32 (CHS)''),
      (0x0C, ''FAT32 (LBA)''), (0x0E, ''FAT16 (LBA)''), (0x0F, ''extended (LBA)''),
      (0x82, ''Linux swap''), (0x83, ''Linux''), (0xDE, ''Dell utility''),
      (0xEE, ''GPT protective''), (0xEF, ''EFI System'')]"

definition py_hex02 :: "nat \<Rightarrow> string" where
  "py_hex02 n = (let ds = map digit_char (to_base 16 n) in replicate (2 - length ds) (CHR ''0'') @ ds)"

definition part_name :: "nat \<Rightarrow> string" where
  "part_name ty =
     (case map_of PART_TYPES ty of Some name \<Rightarrow> name | None \<Rightarrow> ''type 0x'' @ py_hex02 ty)"

section \<open>File system labels\<close>

text \<open>\<open>bytes.decode("latin-1")\<close>: one character per byte.\<close>

definition latin1 :: "byte list \<Rightarrow> string" where
  "latin1 bs = map (\<lambda>b. char_of (unat b)) bs"

definition oem_suffix :: "string \<Rightarrow> string" where
  "oem_suffix oem = (if oem \<noteq> [] then '' (OEM '' @ [CHR 0x27] @ oem @ [CHR 0x27] @ '')'' else [])"

text \<open>One round of the loop over the two label fields.\<close>

definition label_at :: "nat \<Rightarrow> byte list \<Rightarrow> string option" where
  "label_at off sector =
     (let oem = py_strip (latin1 (py_slice 3 11 sector));
          tag = py_strip (latin1 (py_slice off (off + 8) sector))
      in if tag \<noteq> [] \<and> (\<forall>c\<in>set tag. 32 \<le> (of_char c :: nat) \<and> (of_char c :: nat) < 127) \<and>
            (take 3 tag = ''FAT'' \<or> take 4 tag = ''NTFS'')
         then Some (tag @ oem_suffix oem) else None)"

definition fs_label :: "byte list \<Rightarrow> string option" where
  "fs_label sector =
     (if length sector < 512 then None
      else (case label_at 0x36 sector of
          Some l \<Rightarrow> Some l
        | None \<Rightarrow> (case label_at 0x52 sector of
            Some l \<Rightarrow> Some l
          | None \<Rightarrow>
              if py_slice 510 512 sector = [0x55, 0xAA]
              then Some (''boot sector present'' @ oem_suffix (py_strip (latin1 (py_slice 3 11 sector))))
              else None)))"

section \<open>The report\<close>

datatype report =
    SectorsLine nat nat nat nat rat nat
  | MbrNotClean
  | MbrPresent
  | PartitionTableEmpty
  | PartitionLine nat string bool nat nat rat
  | ExtendsPastImage nat nat
  | IntegrityBad nat nat
  | IntegrityGood
  | Filesystem string
  | MbrNotFound
  | LooksLikeFilesystem string
  | VerifyIncomplete
  | VerifyComplete

text \<open>\<open>if lbl: print(...)\<close>; a label is never the empty string.\<close>

definition opt_line :: "(string \<Rightarrow> report) \<Rightarrow> string option \<Rightarrow> report list" where
  "opt_line line lbl = (case lbl of Some l \<Rightarrow> [line l] | None \<Rightarrow> [])"

definition good_pct :: "nat \<Rightarrow> nat \<Rightarrow> rat" where
  "good_pct good total_lba =
     (if total_lba = 0 then 0
      else if good = total_lba then 100
      else min (9999 / 100) (100 * of_nat good / of_nat total_lba))"

definition report_partition ::
  "byte list \<Rightarrow> statusmap \<Rightarrow> nat \<Rightarrow> nat \<Rightarrow> nat \<Rightarrow> partition \<Rightarrow> report list" where
  "report_partition f sm bps total_lba i p =
     (if p_type p = 0 then []
      else (let stop = p_start p + p_size p;
                (g, b, u) = range_status sm (p_start p) stop total_lba
            in [PartitionLine i (part_name (p_type p)) (p_boot p = 0x80) (p_start p) (p_size p)
                  (of_nat (p_size p * bps) / 1024 / 1024)] @
               (if total_lba < stop then [ExtendsPastImage stop total_lba] else []) @
               (if b \<noteq> 0 \<or> u \<noteq> 0 then [IntegrityBad b u] else [IntegrityGood]) @
               (if p_start p < total_lba \<and> sm ! p_start p = GOOD
                then opt_line Filesystem (fs_label (file_read_at (p_start p * bps) bps f))
                else [])))"

definition verify_image :: "byte list \<Rightarrow> statusmap \<Rightarrow> nat \<Rightarrow> nat \<Rightarrow> report list" where
  "verify_image f sm bps total_lba =
     (let good = count_status GOOD sm;
          bad = count_status BAD sm;
          unt = count_status UNTRIED sm;
          pct = good_pct good total_lba;
          dp = (if good = total_lba then 1 else 2);
          mbr = file_read_at 0 bps f
      in [SectorsLine good bad unt total_lba pct dp] @
         (if total_lba = 0 then []
          else
            (if sm ! 0 \<noteq> GOOD then [MbrNotClean] else []) @
            (if 512 \<le> length mbr \<and> mbr ! 510 = 0x55 \<and> mbr ! 511 = 0xAA
             then (let parts = parse_partitions mbr
                   in [MbrPresent] @
                      (if \<not> (\<exists>p\<in>set parts. p_type p \<noteq> 0) then [PartitionTableEmpty] else []) @
                      concat (map (\<lambda>(i, p). report_partition f sm bps total_lba i p)
                        (enumerate 1 parts)))
             else [MbrNotFound] @
                  opt_line LooksLikeFilesystem (if sm ! 0 = GOOD then fs_label mbr else None)) @
            (if bad \<noteq> 0 \<or> unt \<noteq> 0 then [VerifyIncomplete] else [VerifyComplete])))"

section \<open>The percentage and the verdict\<close>

lemma good_pct_bounds: "good \<le> t \<Longrightarrow> 0 \<le> good_pct good t \<and> good_pct good t \<le> 100"
  by (auto simp: good_pct_def min_def divide_nonneg_nonneg)

lemma good_pct_incomplete: "good \<noteq> t \<Longrightarrow> good_pct good t \<le> 9999 / 100"
  unfolding good_pct_def using min.cobounded1 [of "9999 / 100 :: rat"] by auto

lemma good_pct_complete: "good_pct good t = 100 \<longleftrightarrow> 0 < t \<and> good = t"
  by (auto simp: good_pct_def min_def)

text \<open>
  \<open>f"{pct:.{dp}f}"\<close>: the decimal with \<open>dp\<close> digits after the point that is nearest to the
  number, the digits given as an integer. Of two that are equally near either may be printed.
\<close>

definition prints_as :: "nat \<Rightarrow> rat \<Rightarrow> int \<Rightarrow> bool" where
  "prints_as dp x k \<longleftrightarrow> 2 * \<bar>of_int k - x * 10 ^ dp\<bar> \<le> 1"

definition decimal :: "nat \<Rightarrow> int \<Rightarrow> rat" where
  "decimal dp k = of_int k / 10 ^ dp"

lemma prints_as_exact: "prints_as dp (decimal dp n) k \<longleftrightarrow> k = n"
proof -
  have "decimal dp n * 10 ^ dp = of_int n" by (simp add: decimal_def)
  then have "prints_as dp (decimal dp n) k \<longleftrightarrow> of_int (2 * \<bar>k - n\<bar>) \<le> (of_int 1 :: rat)"
    by (simp add: prints_as_def)
  also have "\<dots> \<longleftrightarrow> 2 * \<bar>k - n\<bar> \<le> 1" by (rule of_int_le_iff)
  also have "\<dots> \<longleftrightarrow> k = n" by presburger
  finally show ?thesis .
qed

lemma prints_as_bounds:
  assumes "prints_as dp x k" "decimal dp a \<le> x" "x \<le> decimal dp b"
  shows "a \<le> k" "k \<le> b"
proof -
  have "of_int a \<le> x * 10 ^ dp" "x * 10 ^ dp \<le> of_int b"
    using assms(2,3) by (simp_all add: decimal_def pos_divide_le_eq pos_le_divide_eq)
  moreover have "2 * (of_int k - x * 10 ^ dp) \<le> 1" "2 * (x * 10 ^ dp - of_int k) \<le> 1"
    using assms(1) by (simp_all add: prints_as_def abs_if split: if_splits)
  ultimately have "of_int (2 * a) \<le> (of_int (2 * k + 1) :: rat)" "of_int (2 * k) \<le> (of_int (2 * b + 1) :: rat)"
    by simp_all
  then show "a \<le> k" "k \<le> b" unfolding of_int_le_iff by simp_all
qed

lemma printed_pct:
  assumes "good \<le> t" "prints_as (if good = t then 1 else 2) (good_pct good t) k"
  defines "shown \<equiv> decimal (if good = t then 1 else 2) k"
  shows "(shown = 100 \<longleftrightarrow> good = t \<and> 0 < t) \<and> 0 \<le> shown \<and> shown \<le> 100
    \<and> \<bar>shown - 100 * of_nat good / of_nat t\<bar> \<le> 1 / 100"
proof (cases "good = t")
  case True
  then have "good_pct good t = decimal 1 (if t = 0 then 0 else 1000)"
    by (simp add: good_pct_def decimal_def)
  with assms(2) True have "k = (if t = 0 then 0 else 1000)" by (simp add: prints_as_exact)
  with True show ?thesis by (simp add: shown_def decimal_def)
next
  case False
  let ?x = "100 * of_nat good / of_nat t :: rat"
  have p: "prints_as 2 (good_pct good t) k" and s: "shown = of_int k / 100"
    using assms(2) False by (simp_all add: shown_def decimal_def)
  have t: "0 < t" "?x < 100" "0 \<le> ?x" using False assms(1) by (simp_all add: divide_less_eq)
  have x: "good_pct good t = min (9999 / 100) ?x" using False t(1) by (simp add: good_pct_def)
  have k: "0 \<le> k" "k \<le> 9999"
    using prints_as_bounds [OF p, of 0 9999] t x by (simp_all add: decimal_def)
  have "\<bar>shown - ?x\<bar> \<le> 1 / 100"
  proof (cases "9999 / 100 \<le> ?x")
    case True
    then have "good_pct good t = decimal 2 9999" by (simp add: x decimal_def)
    with p have "k = 9999" by (simp only: prints_as_exact)
    with True t show ?thesis by (simp add: s)
  next
    case False
    then have "2 * \<bar>of_int k - ?x * 100\<bar> \<le> 1" using p by (simp add: x prints_as_def)
    moreover have "of_int k / 100 - ?x = (of_int k - ?x * 100) / 100" by (simp add: diff_divide_distrib)
    ultimately show ?thesis unfolding s by (simp only: abs_divide) simp
  qed
  moreover have "0 \<le> shown" "shown \<le> 9999 / 100"
    using k unfolding s by (simp_all add: divide_right_mono)
  ultimately show ?thesis using \<open>good \<noteq> t\<close> by auto
qed

lemma set_opt_line: "set (opt_line c lbl) = c ` set_option lbl"
  by (cases lbl) (simp_all add: opt_line_def)

lemma fs_label_nonempty: "fs_label sector \<noteq> Some []"
  by (auto simp: fs_label_def label_at_def Let_def split: option.splits if_splits)

lemma verdict_not_inside:
  "VerifyComplete \<notin> set (report_partition f sm bps t i p)"
  "VerifyIncomplete \<notin> set (report_partition f sm bps t i p)"
  by (auto simp: report_partition_def Let_def case_prod_unfold set_opt_line)

lemma verdict_complete:
  "VerifyComplete \<in> set (verify_image f sm bps t) \<longleftrightarrow> 0 < t \<and> (\<forall>s\<in>set sm. s = GOOD)"
proof -
  have "(\<forall>s\<in>set sm. s = GOOD) \<longleftrightarrow> count_status BAD sm = 0 \<and> count_status UNTRIED sm = 0"
    unfolding count_status_0_iff by (metis status.exhaust status.distinct)
  then show ?thesis
    by (auto simp: verify_image_def Let_def verdict_not_inside set_opt_line)
qed

text \<open>The entries of a partition table laid out by field.\<close>

definition entry_bytes :: "partition \<Rightarrow> byte list" where
  "entry_bytes p =
     [word_of_nat (p_boot p), 0, 0, 0, word_of_nat (p_type p), 0, 0, 0] @
     le_bytes 4 (p_start p) @ le_bytes 4 (p_size p)"

lemma length_entry_bytes [simp]: "length (entry_bytes p) = 16"
  by (simp add: entry_bytes_def)

lemma parse_entry_bytes:
  assumes "p_boot p < 256" "p_type p < 256" "p_start p < 2 ^ 32" "p_size p < 2 ^ 32"
  shows "parse_entry (entry_bytes p) = p"
  using assms
  by (cases p) (simp add: parse_entry_def entry_bytes_def py_slice_def unat_of_nat)

lemma py_slice_entry:
  assumes "length boot = n" "length e = 16"
  shows "py_slice n (n + 16) (boot @ e @ rest) = e"
  using assms by (simp add: py_slice_def)

lemma parse_partitions_table:
  assumes "length boot = 0x1BE" "\<forall>p\<in>set [p1, p2, p3, p4].
      p_boot p < 256 \<and> p_type p < 256 \<and> p_start p < 2 ^ 32 \<and> p_size p < 2 ^ 32"
  shows "parse_partitions (boot @ entry_bytes p1 @ entry_bytes p2 @ entry_bytes p3 @ entry_bytes p4 @ sig) =
    [p1, p2, p3, p4]"
proof -
  have four: "[0..<4] = [0, 1, 2, 3]" by (simp add: eval_nat_numeral)
  have "py_slice 446 462 (boot @ entry_bytes p1 @ r) = entry_bytes p1"
    "py_slice 462 478 (boot @ entry_bytes p1 @ entry_bytes p2 @ r) = entry_bytes p2"
    "py_slice 478 494 (boot @ entry_bytes p1 @ entry_bytes p2 @ entry_bytes p3 @ r) = entry_bytes p3"
    "py_slice 494 510 (boot @ entry_bytes p1 @ entry_bytes p2 @ entry_bytes p3 @ entry_bytes p4 @ r) =
       entry_bytes p4" for r
    using assms(1) by (simp_all add: py_slice_def)
  then show ?thesis
    using assms(2) by (simp add: parse_partitions_def four Let_def parse_entry_bytes)
qed

text \<open>All sectors of the clamped range are good when nothing else is counted.\<close>

lemma range_status_good:
  assumes "range_status sm a b t = (g, bd, u)"
  shows "bd = 0 \<and> u = 0 \<longleftrightarrow> (!) sm ` {a..<min t b} \<subseteq> {GOOD}"
proof -
  have "X \<subseteq> {GOOD} \<longleftrightarrow> BAD \<notin> X \<and> UNTRIED \<notin> X" for X
  proof
    assume x: "BAD \<notin> X \<and> UNTRIED \<notin> X"
    have "s = GOOD" if "s \<in> X" for s using x that by (cases s) auto
    then show "X \<subseteq> {GOOD}" by blast
  qed auto
  moreover have "bd = count_status BAD (map ((!) sm) [a..<min t b])"
    "u = count_status UNTRIED (map ((!) sm) [a..<min t b])"
    using assms by (simp_all add: range_status_counts Let_def)
  ultimately show ?thesis by (simp only: count_status_0_iff set_map set_upt)
qed

lemma report_partition_cases:
  "IntegrityGood \<in> set (report_partition f sm bps t i p) \<longleftrightarrow>
     p_type p \<noteq> 0 \<and> (!) sm ` {p_start p..<min t (p_start p + p_size p)} \<subseteq> {GOOD}"
  "Filesystem l \<in> set (report_partition f sm bps t i p) \<longleftrightarrow>
     p_type p \<noteq> 0 \<and> p_start p < t \<and> sm ! p_start p = GOOD
     \<and> fs_label (file_read_at (p_start p * bps) bps f) = Some l"
proof -
  obtain g bd u where r: "range_status sm (p_start p) (p_start p + p_size p) t = (g, bd, u)"
    by (cases "range_status sm (p_start p) (p_start p + p_size p) t")
  show "IntegrityGood \<in> set (report_partition f sm bps t i p) \<longleftrightarrow>
      p_type p \<noteq> 0 \<and> (!) sm ` {p_start p..<min t (p_start p + p_size p)} \<subseteq> {GOOD}"
    unfolding range_status_good [OF r, symmetric]
    by (auto simp: report_partition_def Let_def r set_opt_line)
  show "Filesystem l \<in> set (report_partition f sm bps t i p) \<longleftrightarrow>
     p_type p \<noteq> 0 \<and> p_start p < t \<and> sm ! p_start p = GOOD
     \<and> fs_label (file_read_at (p_start p * bps) bps f) = Some l"
    by (auto simp: report_partition_def Let_def r set_opt_line image_iff)
qed

section \<open>Verification without a transfer\<close>

text \<open>The \<open>--verify-only\<close> branch of \<open>main\<close>, for an image file that exists.\<close>

definition verify_only :: "byte list \<Rightarrow> string option \<Rightarrow> py_error + report list" where
  "verify_only f mapfile =
     (let bps = 512; total_lba = length f div bps
      in case (case mapfile of
                 Some contents \<Rightarrow> load_mapfile contents total_lba bps
               | None \<Rightarrow> Inr (replicate total_lba GOOD)) of
           Inl e \<Rightarrow> Inl e
         | Inr sm \<Rightarrow> Inr (verify_image f sm bps total_lba))"

section \<open>Properties\<close>

text \<open>C34: The report of an image opens with the counts of its map and ends with the right
  verdict: "complete" is printed exactly when the image has a sector and all its sectors are
  good. The percentage is right as it is printed, rounded to the decimals the report asks for:
  it reads 100 exactly for a complete image, never for another one however close to complete
  it is, lies between 0 and 100, and is within a hundredth of the share of good sectors.\<close>

theorem verify_verdict:
  "\<exists>pct dp rest. verify_image f sm bps (length sm) =
      SectorsLine (count_status GOOD sm) (count_status BAD sm) (count_status UNTRIED sm) (length sm) pct dp # rest
    \<and> (VerifyComplete \<in> set rest \<longleftrightarrow> set sm = {GOOD})
    \<and> (\<forall>k. prints_as dp pct k \<longrightarrow>
          (decimal dp k = 100 \<longleftrightarrow> set sm = {GOOD}) \<and> 0 \<le> decimal dp k \<and> decimal dp k \<le> 100
        \<and> \<bar>decimal dp k - 100 * of_nat (count_status GOOD sm) / of_nat (length sm)\<bar> \<le> 1 / 100)"
proof -
  let ?good = "count_status GOOD sm" and ?t = "length sm"
  have all: "0 < ?t \<and> (\<forall>s\<in>set sm. s = GOOD) \<longleftrightarrow> set sm = {GOOD}"
    by (cases sm) auto
  have good: "?good = ?t \<longleftrightarrow> (\<forall>s\<in>set sm. s = GOOD)"
    unfolding count_status_def by (metis (mono_tags) filter_True length_filter_less less_irrefl)
  obtain rest where rest: "verify_image f sm bps ?t =
      SectorsLine ?good (count_status BAD sm) (count_status UNTRIED sm) ?t (good_pct ?good ?t)
        (if ?good = ?t then 1 else 2) # rest"
    by (simp add: verify_image_def Let_def)
  have "VerifyComplete \<in> set rest \<longleftrightarrow> set sm = {GOOD}"
    using verdict_complete [of f sm bps ?t] all unfolding rest by simp
  moreover have "set sm = {GOOD} \<longleftrightarrow> ?good = ?t \<and> 0 < ?t" using all good by blast
  ultimately show ?thesis using printed_pct [OF count_status_le, of GOOD sm] rest by metis
qed

theorem verify_verdict_witness:
  "\<exists>rest. verify_image [] [GOOD, BAD] 512 2 = SectorsLine 1 1 0 2 50 2 # rest
    \<and> prints_as 2 50 5000 \<and> \<bar>decimal 2 5000 - 50\<bar> \<le> 1 / 100 \<and> decimal 2 5000 \<noteq> 100"
proof -
  have sm: "count_status GOOD [GOOD, BAD] = 1" "count_status BAD [GOOD, BAD] = 1"
    "count_status UNTRIED [GOOD, BAD] = 0" by (simp_all add: count_status_def)
  obtain pct dp rest where report: "verify_image [] [GOOD, BAD] 512 2 = SectorsLine 1 1 0 2 pct dp # rest"
    and printed: "\<forall>k. prints_as dp pct k \<longrightarrow> decimal dp k \<noteq> 100 \<and> \<bar>decimal dp k - 50\<bar> \<le> 1 / 100"
    using verify_verdict [of "[]" "[GOOD, BAD]" 512] unfolding sm by (auto simp: numeral_2_eq_2)
  have "pct = 50" "dp = 2" using report by (simp_all add: verify_image_def Let_def sm good_pct_def)
  moreover have "prints_as 2 50 5000" by (simp add: prints_as_def)
  ultimately show ?thesis using report printed by blast
qed

text \<open>The four entries of a partition table are read back with every field, wherever their
  values lie in the fields' ranges.\<close>

lemma partition_table_roundtrip:
  assumes "length boot = 0x1BE" and "\<forall>p\<in>set [p1, p2, p3, p4].
      p_boot p < 256 \<and> p_type p < 256 \<and> p_start p < 2 ^ 32 \<and> p_size p < 2 ^ 32"
  shows "parse_partitions (boot @ entry_bytes p1 @ entry_bytes p2 @ entry_bytes p3 @ entry_bytes p4 @ sig) =
    [p1, p2, p3, p4]"
  using assms by (rule parse_partitions_table)

lemma partition_table_roundtrip_example:
  "let p = \<lparr>p_boot = 0x80, p_type = 6, p_start = 17, p_size = 41735\<rparr>;
       q = \<lparr>p_boot = 0, p_type = 0, p_start = 0, p_size = 0\<rparr>
   in parse_partitions (replicate 0x1BE 0 @ entry_bytes p @ entry_bytes q @ entry_bytes q @ entry_bytes q @
     [0x55, 0xAA]) = [p, q, q, q]"
proof -
  let ?p = "\<lparr>p_boot = 0x80, p_type = 6, p_start = 17, p_size = 41735\<rparr>"
  let ?q = "\<lparr>p_boot = 0, p_type = 0, p_start = 0, p_size = 0\<rparr>"
  have valid: "\<forall>p\<in>set [?p, ?q, ?q, ?q]. p_boot p < 256 \<and> p_type p < 256 \<and> p_start p < 2 ^ 32 \<and> p_size p < 2 ^ 32"
    by simp
  have boot: "length (replicate 0x1BE (0 :: byte)) = 0x1BE" by (simp only: length_replicate)
  show ?thesis using partition_table_roundtrip [OF boot valid, of "[0x55, 0xAA]"] unfolding Let_def .
qed

text \<open>C35: "All sectors good" is printed for a partition exactly when every sector of it that lies
  inside the image is good, and a file system label exactly when its first sector is in the
  image, was read cleanly, and carries one.\<close>

theorem partition_report:
  "(IntegrityGood \<in> set (report_partition f sm bps t i p) \<longleftrightarrow>
      p_type p \<noteq> 0 \<and> (!) sm ` {p_start p..<min t (p_start p + p_size p)} \<subseteq> {GOOD})
   \<and> (Filesystem l \<in> set (report_partition f sm bps t i p) \<longleftrightarrow>
      p_type p \<noteq> 0 \<and> p_start p < t \<and> sm ! p_start p = GOOD
      \<and> fs_label (file_read_at (p_start p * bps) bps f) = Some l)"
  by (intro conjI report_partition_cases)

end
