(* ===== verification/DosSender.thy ===== *)
theory DosSender
  imports Link Worklist Verify
begin

text \<open>
  The sender on the DOS side, \<open>tx-msdos/src/main.c\<close>, as the device at the other end of the
  serial line: a state machine that reacts to the bytes it receives and to its own timeouts,
  with the program's 16-bit and 32-bit integers as words. The BIOS disk service (INT 13h) is
  not part of the program: it is a parameter, the outcome of each read attempt at each
  cylinder, head and sector (\<open>None\<close>: the read failed). The keyboard is not modelled.
\<close>

section \<open>Framing\<close>

definition BPS :: nat where "BPS = 512"
definition READ_TRIES :: nat where "READ_TRIES = 5"
definition TX_LINK_TRIES :: nat where "TX_LINK_TRIES = 8"
definition BAD_FILL :: byte where "BAD_FILL = 0x00"

text \<open>
  Every frame is sent byte by byte through \<open>put\<close>, which folds the byte into the checksum;
  the checksum follows, low byte first.
\<close>

definition tx_frame :: "byte list \<Rightarrow> byte list" where
  "tx_frame body =
     (let crc = foldl crc16_update 0xFFFF body
      in [SOH] @ body @ [ucast (crc AND 0xFF), ucast (drop_bit 8 crc AND 0xFF)])"

text \<open>\<open>x & 0xFF\<close>, \<open>(x >> 8) & 0xFF\<close>, \<open>...\<close> of an \<open>unsigned long\<close> and of an \<open>unsigned int\<close>.\<close>

definition bytes32 :: "32 word \<Rightarrow> byte list" where
  "bytes32 w = [ucast (w AND 0xFF), ucast (drop_bit 8 w AND 0xFF),
     ucast (drop_bit 16 w AND 0xFF), ucast (drop_bit 24 w AND 0xFF)]"

definition bytes16 :: "16 word \<Rightarrow> byte list" where
  "bytes16 w = [ucast (w AND 0xFF), ucast (drop_bit 8 w)]"

definition tx_info :: "32 word \<Rightarrow> 16 word \<Rightarrow> 16 word \<Rightarrow> 16 word \<Rightarrow> byte list" where
  "tx_info total_lba cyls heads spt =
     tx_frame ([TYPE_INFO] @ bytes32 total_lba @ bytes16 cyls @ bytes16 heads @ bytes16 spt @
       bytes16 (word_of_nat BPS))"

definition data_frame :: "32 word \<Rightarrow> byte \<Rightarrow> byte list \<Rightarrow> byte list" where
  "data_frame lba st buf = tx_frame ([TYPE_DATA] @ bytes32 lba @ [st] @ buf)"

definition eot_frame :: "32 word \<Rightarrow> 32 word \<Rightarrow> byte list" where
  "eot_frame good bad = tx_frame ([TYPE_EOT] @ bytes32 good @ bytes32 bad)"

section \<open>The worklist\<close>

text \<open>
  \<open>recv_command\<close> as a parser of the bytes received after the \<open>SOH\<close>: it wants more, fails, or
  has the ranges.
\<close>

datatype cmd_status = CmdMore | CmdFail | CmdRanges "(32 word \<times> 32 word) list"

definition word32_at :: "nat \<Rightarrow> byte list \<Rightarrow> 32 word" where
  "word32_at i bs =
     ((ucast (bs ! i) OR push_bit 8 (ucast (bs ! (i + 1)))) OR
     push_bit 16 (ucast (bs ! (i + 2)))) OR push_bit 24 (ucast (bs ! (i + 3)))"

definition word16_at :: "nat \<Rightarrow> byte list \<Rightarrow> 16 word" where
  "word16_at i bs = ucast (bs ! i) OR push_bit 8 (ucast (bs ! (i + 1)))"

definition parse_cmd :: "byte list \<Rightarrow> cmd_status" where
  "parse_cmd bs =
     (if length bs < 1 then CmdMore
      else if bs ! 0 \<noteq> TYPE_CMD then CmdFail
      else if length bs < 3 then CmdMore
      else (let count = unat (word16_at 1 bs) in
        if count > MAXR then CmdFail
        else if length bs < 3 + 8 * count + 2 then CmdMore
        else (let crc = foldl crc16_update 0xFFFF (take (3 + 8 * count) bs) in
          if word16_at (3 + 8 * count) bs \<noteq> crc then CmdFail
          else CmdRanges (map (\<lambda>i. (word32_at (3 + 8 * i) bs, word32_at (3 + 8 * i + 4) bs)) [0..<count]))))"

section \<open>Reading the disk\<close>

type_synonym chs = "16 word \<times> 8 word \<times> 8 word"
type_synonym bios = "chs \<Rightarrow> nat \<Rightarrow> byte list option"

text \<open>
  Cylinder (\<open>short\<close>), head and sector (\<open>unsigned char\<close>) of a sector number, by the divisions
  and casts of the main loop. The geometry has no zero in it.
\<close>

definition chs_of :: "nat \<Rightarrow> nat \<Rightarrow> nat \<Rightarrow> chs" where
  "chs_of heads spt lba =
     (let s = word_of_nat (lba mod spt) + 1; t = lba div spt
      in (word_of_nat (t div heads), word_of_nat (t mod heads), s))"

text \<open>\<open>read_with_retries\<close>: attempt \<open>t\<close> and the ones after it; \<open>None\<close> if all of them fail.\<close>

fun read_from :: "bios \<Rightarrow> chs \<Rightarrow> nat \<Rightarrow> nat \<Rightarrow> byte list option" where
  "read_from rd c t 0 = None"
| "read_from rd c t (Suc n) =
     (case rd c t of Some buf \<Rightarrow> Some buf | None \<Rightarrow> read_from rd c (t + 1) n)"

definition read_with_retries :: "bios \<Rightarrow> chs \<Rightarrow> byte list option" where
  "read_with_retries rd c = read_from rd c 0 READ_TRIES"

section \<open>The machine\<close>

datatype tx_phase =
    TxHunt nat
  | TxCmd "byte list"
  | TxData nat
  | TxEot nat
  | TxDone
  | TxLinkLost

record tx_disk =
  d_total :: "32 word"
  d_cyls :: "16 word"
  d_heads :: "16 word"
  d_spt :: "16 word"
  d_bios :: bios

text \<open>
  The head of \<open>tx_ranges\<close> starts at the sector being sent; \<open>tx_status\<close> and \<open>tx_buf\<close> are its
  status and \<open>sector_buf\<close>.
\<close>

record tx_state =
  tx_phase :: tx_phase
  tx_ranges :: "(32 word \<times> 32 word) list"
  tx_status :: byte
  tx_buf :: "byte list"
  tx_good :: "32 word"
  tx_bad :: "32 word"

definition send_info :: "tx_disk \<Rightarrow> byte list" where
  "send_info d = tx_info (d_total d) (d_cyls d) (d_heads d) (d_spt d)"

definition tx_init :: tx_state where
  "tx_init = \<lparr>tx_phase = TxHunt 0, tx_ranges = [], tx_status = STATUS_GOOD, tx_buf = [],
     tx_good = 0, tx_bad = 0\<rparr>"

text \<open>The next round of the range loop: read and send a sector, or send \<open>EOT\<close> after the last.\<close>

function next_sector :: "tx_disk \<Rightarrow> tx_state \<Rightarrow> tx_state \<times> byte list" where
  "next_sector d x =
     (case tx_ranges x of
        [] \<Rightarrow> (x\<lparr>tx_phase := TxEot 0\<rparr>, eot_frame (tx_good x) (tx_bad x))
      | (lba, stop) # rs \<Rightarrow>
          if lba < stop
          then (case read_with_retries (d_bios d)
                    (chs_of (unat (d_heads d)) (unat (d_spt d)) (unat lba)) of
                  None \<Rightarrow>
                    (x\<lparr>tx_phase := TxData 0, tx_status := STATUS_BAD,
                       tx_buf := replicate BPS BAD_FILL, tx_bad := tx_bad x + 1\<rparr>,
                     data_frame lba STATUS_BAD (replicate BPS BAD_FILL))
                | Some buf \<Rightarrow>
                    (x\<lparr>tx_phase := TxData 0, tx_status := STATUS_GOOD,
                       tx_buf := buf, tx_good := tx_good x + 1\<rparr>,
                     data_frame lba STATUS_GOOD buf))
          else next_sector d (x\<lparr>tx_ranges := rs\<rparr>))"
  by pat_completeness auto
termination
  by (relation "measure (\<lambda>(d, x). length (tx_ranges x))") auto

declare next_sector.simps [simp del]

definition advance :: "tx_state \<Rightarrow> tx_state" where
  "advance x =
     (case tx_ranges x of
        [] \<Rightarrow> x
      | (lba, stop) # rs \<Rightarrow> x\<lparr>tx_ranges := (lba + 1, stop) # rs\<rparr>)"

text \<open>A failed handshake sends \<open>INFO\<close> again and hunts from the start.\<close>

definition rehandshake :: "tx_disk \<Rightarrow> tx_state \<Rightarrow> tx_state \<times> byte list" where
  "rehandshake d x = (x\<lparr>tx_phase := TxHunt 0\<rparr>, send_info d)"

text \<open>The sector or the totals once more, while tries are left.\<close>

definition resend_data :: "nat \<Rightarrow> tx_state \<Rightarrow> tx_state \<times> byte list" where
  "resend_data n x =
     (if n + 1 < TX_LINK_TRIES
      then (x\<lparr>tx_phase := TxData (n + 1)\<rparr>, data_frame (fst (hd (tx_ranges x))) (tx_status x) (tx_buf x))
      else (x\<lparr>tx_phase := TxLinkLost\<rparr>, []))"

definition resend_eot :: "nat \<Rightarrow> tx_state \<Rightarrow> tx_state \<times> byte list" where
  "resend_eot n x =
     (if n + 1 < TX_LINK_TRIES
      then (x\<lparr>tx_phase := TxEot (n + 1)\<rparr>, eot_frame (tx_good x) (tx_bad x))
      else (x\<lparr>tx_phase := TxDone\<rparr>, []))"

text \<open>One received byte.\<close>

definition tx_byte :: "tx_disk \<Rightarrow> byte \<Rightarrow> tx_state \<Rightarrow> tx_state \<times> byte list" where
  "tx_byte d b x =
     (case tx_phase x of
        TxHunt n \<Rightarrow>
          if b = SOH then (x\<lparr>tx_phase := TxCmd []\<rparr>, [])
          else if n + 1 < 300 then (x\<lparr>tx_phase := TxHunt (n + 1)\<rparr>, [])
          else rehandshake d x
      | TxCmd bs \<Rightarrow>
          (case parse_cmd (bs @ [b]) of
             CmdMore \<Rightarrow> (x\<lparr>tx_phase := TxCmd (bs @ [b])\<rparr>, [])
           | CmdFail \<Rightarrow> rehandshake d x
           | CmdRanges rs \<Rightarrow> next_sector d (x\<lparr>tx_ranges := rs\<rparr>))
      | TxData n \<Rightarrow> if b = ACK then next_sector d (advance x) else resend_data n x
      | TxEot n \<Rightarrow> if b = ACK then (x\<lparr>tx_phase := TxDone\<rparr>, []) else resend_eot n x
      | TxDone \<Rightarrow> (x, [])
      | TxLinkLost \<Rightarrow> (x, []))"

text \<open>One expired wait for a byte.\<close>

definition tx_timeout :: "tx_disk \<Rightarrow> tx_state \<Rightarrow> tx_state \<times> byte list" where
  "tx_timeout d x =
     (case tx_phase x of
        TxHunt n \<Rightarrow> rehandshake d x
      | TxCmd bs \<Rightarrow> rehandshake d x
      | TxData n \<Rightarrow> resend_data n x
      | TxEot n \<Rightarrow> resend_eot n x
      | TxDone \<Rightarrow> (x, [])
      | TxLinkLost \<Rightarrow> (x, []))"

fun tx_bytes :: "tx_disk \<Rightarrow> byte list \<Rightarrow> tx_state \<Rightarrow> tx_state \<times> byte list" where
  "tx_bytes d [] x = (x, [])"
| "tx_bytes d (b # bs) x =
     (let (x', out) = tx_byte d b x; (x'', out') = tx_bytes d bs x' in (x'', out @ out'))"

end
