(* ===== verification/Wire.thy ===== *)
theory Wire
  imports DosSender
begin

text \<open>
  The two ends of the line agree on the layout of the bytes: the integers, the checksum and
  the frames that \<open>main.c\<close> builds with shifts and masks are those of \<open>rx.py\<close>'s
  \<open>to_bytes\<close> / \<open>from_bytes\<close>, and the sender reads from the host's worklist command the ranges
  the host put into it.
\<close>

section \<open>Integers and frames\<close>

lemma byte_of_word: "(word_of_nat (unat w mod 256) :: byte) = ucast (w :: 'a::len word)"
proof -
  have "unat (word_of_nat (unat w mod 256) :: byte) = unat w mod 256" by simp
  also have "\<dots> = unat (ucast w :: byte)" 
    by (simp add: unsigned_ucast_eq take_bit_eq_mod)
  finally show ?thesis by (rule unsigned_word_eqI)
qed

lemma ucast_and_FF: "ucast (w AND 0xFF) = (ucast w :: byte)" for w :: "'a::len word"
proof (rule bit_word_eqI)
  fix n assume "n < LENGTH(8)"
  moreover have "bit (0xFF :: 'a word) n = (n < 8 \<and> n < LENGTH('a))"
  proof -
    have "(0xFF :: 'a word) = mask 8" by (simp add: mask_eq_exp_minus_1)
    show ?thesis unfolding \<open>(0xFF :: 'a word) = mask 8\<close> bit_mask_iff by auto
  qed
  ultimately show "bit (ucast (w AND 0xFF) :: byte) n = bit (ucast w :: byte) n"
    by (auto simp: bit_simps dest: bit_imp_le_length)
qed

lemma unat_drop: "unat (drop_bit n w) = unat w div 2 ^ n" for w :: "'a::len word"
  by (metis unat_drop_bit_eq drop_bit_eq_div)

lemma byte_of_word_div: "(word_of_nat (unat w div 2 ^ n mod 256) :: byte) = ucast (drop_bit n w)"
  for w :: "'a::len word"
  using byte_of_word [of "drop_bit n w"] by (simp add: unat_drop)

lemma le_bytes_2: "le_bytes 2 k = [word_of_nat (k mod 256), word_of_nat (k div 256 mod 256)]"
  by (simp add: numeral_2_eq_2)

lemma le_bytes_4: "le_bytes 4 k = [word_of_nat (k mod 256), word_of_nat (k div 256 mod 256),
   word_of_nat (k div 65536 mod 256), word_of_nat (k div 16777216 mod 256)]"
proof -
  have four: "(4::nat) = Suc (Suc (Suc (Suc 0)))" by simp
  show ?thesis unfolding four by (simp add: div_mult2_eq [symmetric])
qed

lemma bytes32_le: "bytes32 w = le_bytes 4 (unat w)"
  using byte_of_word_div [of w 8] byte_of_word_div [of w 16] byte_of_word_div [of w 24]
  by (simp add: bytes32_def le_bytes_4 ucast_and_FF byte_of_word)

lemma bytes16_le: "bytes16 w = le_bytes 2 (unat w)"
  using byte_of_word_div [of w 8]
  by (simp add: bytes16_def le_bytes_2 ucast_and_FF byte_of_word)

lemma tx_frame_eq: "tx_frame (ty # payload) = frame ty payload"
  using byte_of_word_div [of "foldl crc16_update 0xFFFF (ty # payload)" 8]
  by (simp add: tx_frame_def frame_simp Let_def ucast_and_FF crc16_word le_bytes_2 byte_of_word)

lemma unat_or_byte:
  fixes w :: "'a::len word" and b :: byte
  assumes "unat w < 2 ^ n" "n + 8 \<le> LENGTH('a)"
  shows "unat (w OR push_bit n (ucast b)) = unat w + 2 ^ n * unat b"
proof -
  have lt: "unat b < 256" by simp
  then have "2 ^ n * unat b + 2 ^ n \<le> 2 ^ n * 256"
    by (metis Suc_leI mult_Suc_right mult_le_mono2 add.commute)
  also have "\<dots> = 2 ^ (n + 8)" by (simp add: power_add)
  also have "\<dots> \<le> 2 ^ LENGTH('a)" using assms(2) by (rule power_increasing) simp
  finally have fits: "2 ^ n * unat b + 2 ^ n \<le> 2 ^ LENGTH('a)" .
  have "unat (ucast b :: 'a word) = unat b"
    using assms(2) by (simp add: unsigned_ucast_eq take_bit_nat_eq_self_iff less_le_trans [OF lt])
       (rule less_le_trans [OF lt], rule order.trans [of _ "2 ^ 8"], simp, rule power_increasing, simp_all)
  then have "unat (push_bit n (ucast b) :: 'a word) = take_bit LENGTH('a) (push_bit n (unat b))"
    by (simp only: unsigned_push_bit_eq)
  moreover have "push_bit n (unat b) = 2 ^ n * unat b" by (simp add: push_bit_eq_mult)
  moreover have "2 ^ n * unat b < 2 ^ LENGTH('a)"
    using fits by (rule less_le_trans [rotated]) simp
  ultimately have hi: "unat (push_bit n (ucast b) :: 'a word) = 2 ^ n * unat b"
    by (simp only: take_bit_nat_eq_self)
  have small: "take_bit n (unat w) = unat w" using assms(1) by (rule take_bit_nat_eq_self)
  have "k < n" if "bit w k" for k
  proof -
    from that have "bit (unat w) k" by (simp add: bit_unsigned_iff)
    with small have "bit (take_bit n (unat w)) k" by simp
    then show ?thesis by (simp add: bit_take_bit_iff)
  qed
  then have disj: "\<not> (bit w k \<and> bit (push_bit n (ucast b :: 'a word)) k)" for k
    by (auto simp: bit_push_bit_iff not_le)
  then have "w OR push_bit n (ucast b) = w + push_bit n (ucast b)"
    by (metis disjunctive_add)
  then show ?thesis
    using hi fits assms(1) by (simp add: unat_plus_if')
qed

lemma unat_of_byte: "8 \<le> LENGTH('a) \<Longrightarrow> unat (ucast (b :: byte) :: 'a::len word) = unat b"
  using unat_or_byte [of "0 :: 'a word" 0 b] by simp

lemma word16_at_le:
  assumes "i + 1 < length bs"
  shows "unat (word16_at i bs) = from_bytes_le (take 2 (drop i bs))"
proof -
  have t: "take 2 (drop i bs) = [bs ! i, bs ! (i + 1)]"
    using assms by (intro nth_equalityI) (auto simp: less_2_cases_iff)
  have b: "unat (bs ! i) < 256" by simp
  have "unat (word16_at i bs) = unat (bs ! i) + 256 * unat (bs ! (i + 1))"
    unfolding word16_at_def
    using unat_or_byte [of "ucast (bs ! i) :: 16 word" 8 "bs ! (i + 1)"] b by (simp add: unat_of_byte)
  then show ?thesis by (simp add: t)
qed

lemma word32_at_le:
  assumes "i + 3 < length bs"
  shows "unat (word32_at i bs) = from_bytes_le (take 4 (drop i bs))"
proof -
  have t: "take 4 (drop i bs) = [bs ! i, bs ! (i + 1), bs ! (i + 2), bs ! (i + 3)]"
    using assms by (intro nth_equalityI) (auto simp: less_Suc_eq numeral_eq_Suc)
  let ?w0 = "ucast (bs ! i) :: 32 word"
  let ?w1 = "?w0 OR push_bit 8 (ucast (bs ! (i + 1)))"
  let ?w2 = "?w1 OR push_bit 16 (ucast (bs ! (i + 2)))"
  have b: "unat (bs ! k) < 256" for k by simp
  have lt: "unat (bs ! i) + 256 * unat (bs ! (i + 1)) < 65536"
    "unat (bs ! i) + 256 * unat (bs ! (i + 1)) + 65536 * unat (bs ! (i + 2)) < 16777216"
    using b [of i] b [of "i + 1"] b [of "i + 2"] by linarith+
  have w1: "unat ?w1 = unat (bs ! i) + 256 * unat (bs ! (i + 1))"
    using unat_or_byte [of ?w0 8 "bs ! (i + 1)"] b [of i] by (simp add: unat_of_byte)
  have w2: "unat ?w2 = unat ?w1 + 65536 * unat (bs ! (i + 2))"
    using unat_or_byte [of ?w1 16 "bs ! (i + 2)"] lt w1 by simp
  have "unat (word32_at i bs) = unat ?w2 + 16777216 * unat (bs ! (i + 3))"
    unfolding word32_at_def
    using unat_or_byte [of ?w2 24 "bs ! (i + 3)"] lt w1 w2 by simp
  then have "unat (word32_at i bs) = unat (bs ! i) + 256 * unat (bs ! (i + 1)) +
      65536 * unat (bs ! (i + 2)) + 16777216 * unat (bs ! (i + 3))"
    using w1 w2 by linarith
  then show ?thesis by (simp add: t)
qed

section \<open>The worklist command\<close>

abbreviation range_words :: "(nat \<times> nat) list \<Rightarrow> (32 word \<times> 32 word) list" where
  "range_words ws \<equiv> map (\<lambda>(a, b). (word_of_nat a, word_of_nat b)) ws"

abbreviation range_bytes :: "(nat \<times> nat) list \<Rightarrow> byte list" where
  "range_bytes ws \<equiv> concat (map (\<lambda>(a, b). le_bytes 4 a @ le_bytes 4 b) ws)"

lemma length_range_bytes [simp]: "length (range_bytes ws) = 8 * length ws"
  by (induction ws) auto

lemma range_bytes_field:
  assumes "i < length ws" "off \<le> 4"
  shows "take 4 (drop (8 * i + off) (range_bytes ws @ rest)) =
    take 4 (drop off (le_bytes 4 (fst (ws ! i)) @ le_bytes 4 (snd (ws ! i))))"
  using assms
proof (induction ws arbitrary: i)
  case (Cons w ws)
  obtain a b where w: "w = (a, b)" by (cases w)
  show ?case
  proof (cases i)
    case 0
    with Cons.prems w show ?thesis by simp
  next
    case (Suc j)
    have "drop (8 * Suc j + off) (range_bytes (w # ws) @ rest) = drop (8 * j + off) (range_bytes ws @ rest)"
      by (simp add: w)
    with Cons.IH [of j] Cons.prems Suc show ?thesis by simp
  qed
qed simp

lemma parse_cmd_frame:
  assumes ws: "\<forall>(a, b)\<in>set ws. a < 2 ^ 32 \<and> b < 2 ^ 32" "length ws \<le> MAXR"
    and p: "cmd_payload ws = Inr p"
    and bs: "bs = tl (frame TYPE_CMD p)"
  shows "parse_cmd bs = CmdRanges (range_words ws)"
    and "k < length bs \<Longrightarrow> parse_cmd (take k bs) = CmdMore"
proof -
  let ?n = "length ws"
  let ?crc = "crc16 (TYPE_CMD # p)"
  have p_eq: "p = le_bytes 2 ?n @ range_bytes ws"
    using cmd_payload_Inr [OF ws(1)] ws(2) p by (simp add: MAXR_def)
  have bs_eq: "bs = TYPE_CMD # p @ le_bytes 2 ?crc" by (simp add: bs frame_simp)
  have len: "length bs = 3 + 8 * ?n + 2" by (simp add: bs_eq p_eq)
  have "take 2 (drop 1 bs) = le_bytes 2 ?n" by (simp add: bs_eq p_eq)
  then have count: "unat (word16_at 1 bs) = ?n"
    using word16_at_le [of 1 bs] len ws(2) by (simp add: MAXR_def)
  have "take 2 (drop (3 + 8 * ?n) bs) = le_bytes 2 ?crc" by (simp add: bs_eq p_eq numeral_3_eq_3)
  then have "unat (word16_at (3 + 8 * ?n) bs) = ?crc"
    using word16_at_le [of "3 + 8 * ?n" bs] len by simp
  moreover have "take (3 + 8 * ?n) bs = TYPE_CMD # p" by (simp add: bs_eq p_eq numeral_3_eq_3)
  moreover have "unat (foldl crc16_update 0xFFFF (TYPE_CMD # p)) = ?crc" by (simp only: crc16_word)
  ultimately have crc: "word16_at (3 + 8 * ?n) bs = foldl crc16_update 0xFFFF (take (3 + 8 * ?n) bs)"
    by (metis unsigned_word_eqI)
  have field: "word32_at (3 + 8 * i) bs = word_of_nat (fst (ws ! i))"
    "word32_at (3 + 8 * i + 4) bs = word_of_nat (snd (ws ! i))" if i: "i < ?n" for i
  proof -
    have drop3: "drop (3 + k) bs = drop k (range_bytes ws @ le_bytes 2 ?crc)" for k
      by (simp add: bs_eq p_eq numeral_3_eq_3)
    have small: "fst (ws ! i) < 2 ^ 32" "snd (ws ! i) < 2 ^ 32"
      using ws(1) nth_mem [OF i] by auto
    have "take 4 (drop (3 + 8 * i) bs) = le_bytes 4 (fst (ws ! i))"
      "take 4 (drop (3 + 8 * i + 4) bs) = le_bytes 4 (snd (ws ! i))"
      using range_bytes_field [OF i, of 0 "le_bytes 2 ?crc"] range_bytes_field [OF i, of 4 "le_bytes 2 ?crc"]
        drop3 [of "8 * i"] drop3 [of "8 * i + 4"] by (simp_all add: add.assoc)
    with small have "unat (word32_at (3 + 8 * i) bs) = fst (ws ! i)"
      "unat (word32_at (3 + 8 * i + 4) bs) = snd (ws ! i)"
      using word32_at_le [of "3 + 8 * i" bs] word32_at_le [of "3 + 8 * i + 4" bs] len i by simp_all
    then show "word32_at (3 + 8 * i) bs = word_of_nat (fst (ws ! i))"
      "word32_at (3 + 8 * i + 4) bs = word_of_nat (snd (ws ! i))"
      by (metis of_nat_unat ucast_id)+
  qed
  have "map (\<lambda>i. (word32_at (3 + 8 * i) bs, word32_at (3 + 8 * i + 4) bs)) [0..<?n] = range_words ws"
    using field(1) field(2) [simplified add.commute [of _ 4], simplified]
    by (intro nth_equalityI) (simp_all add: case_prod_unfold)
  then show "parse_cmd bs = CmdRanges (range_words ws)"
    using len count crc ws(2) bs_eq by (simp add: parse_cmd_def Let_def)
  show "parse_cmd (take k bs) = CmdMore" if k: "k < length bs"
  proof -
    have "word16_at 1 (take k bs) = word16_at 1 bs" if "3 \<le> k"
      using that by (simp add: word16_at_def)
    with k len count ws(2) show ?thesis
      by (auto simp: parse_cmd_def Let_def bs_eq)
  qed
qed

section \<open>The sender takes the command\<close>

lemma tx_bytes_append:
  "tx_bytes d (as @ bs) x =
     (let (x', out) = tx_bytes d as x; (x'', out') = tx_bytes d bs x' in (x'', out @ out'))"
  by (induction as arbitrary: x) (simp_all add: Let_def case_prod_unfold)

lemma tx_bytes_command:
  assumes "parse_cmd bs = CmdRanges rs" "\<And>k. k < length bs \<Longrightarrow> parse_cmd (take k bs) = CmdMore"
    and "tx_phase x = TxHunt n"
  shows "tx_bytes d (SOH # bs) x = next_sector d (x\<lparr>tx_phase := TxCmd (butlast bs), tx_ranges := rs\<rparr>)"
proof -
  have ne: "bs \<noteq> []" using assms(1) by (auto simp: parse_cmd_def)
  have "tx_bytes d (take k bs) (x\<lparr>tx_phase := TxCmd []\<rparr>) = (x\<lparr>tx_phase := TxCmd (take k bs)\<rparr>, [])"
    if "k < length bs" for k
    using that
  proof (induction k)
    case (Suc k)
    then have "take (Suc k) bs = take k bs @ [bs ! k]" by (simp add: take_Suc_conv_app_nth)
    with Suc assms(2) [of "Suc k"] show ?case
      by (simp add: tx_bytes_append tx_byte_def)
  qed simp
  from this [of "length bs - 1"] ne
  have more: "tx_bytes d (butlast bs) (x\<lparr>tx_phase := TxCmd []\<rparr>) = (x\<lparr>tx_phase := TxCmd (butlast bs)\<rparr>, [])"
    by (simp add: butlast_conv_take)
  have "bs = butlast bs @ [last bs]" using ne by simp
  then have "tx_bytes d bs (x\<lparr>tx_phase := TxCmd []\<rparr>) =
      next_sector d (x\<lparr>tx_phase := TxCmd (butlast bs), tx_ranges := rs\<rparr>)"
    using more assms(1) tx_bytes_append [of d "butlast bs" "[last bs]" "x\<lparr>tx_phase := TxCmd []\<rparr>"] ne
    by (simp add: tx_byte_def)
  then show ?thesis
    using assms(3) by (simp add: tx_byte_def)
qed

end
