(* ===== verification/Capture.thy ===== *)
theory Capture
  imports Link ImageFile Mapfile Worklist Verify
begin

text \<open>
  The capture of \<open>rx-host/rx.py\<close>: \<open>main\<close> from the \<open>INFO\<close> handshake to the written map. The
  state of the receive loop is a record (image, status map, counters) beside the state of the
  port. The clock and the progress display have no influence on it and are left out.
\<close>

section \<open>The INFO handshake\<close>

record geometry =
  g_total :: nat
  g_cyls :: nat
  g_heads :: nat
  g_spt :: nat
  g_bps :: nat

definition decode_info :: "byte list \<Rightarrow> geometry" where
  "decode_info payload =
     \<lparr>g_total = from_bytes_le (py_slice 0 4 payload), g_cyls = from_bytes_le (py_slice 4 6 payload),
      g_heads = from_bytes_le (py_slice 6 8 payload), g_spt = from_bytes_le (py_slice 8 10 payload),
      g_bps = from_bytes_le (py_slice 10 12 payload)\<rparr>"

text \<open>One try of the handshake loop; \<open>None\<close> is \<open>continue\<close>.\<close>

definition info_try :: "'s port \<Rightarrow> ('s, byte list option) link_io" where
  "info_try P =
     io_bind (hunt_soh P) (\<lambda>_.
     io_bind (read_exact P 1) (\<lambda>t.
       if t ! 0 \<noteq> TYPE_INFO then io_return None
       else
         io_bind (read_exact P 12) (\<lambda>payload.
         io_bind (read_exact P 2) (\<lambda>crc_rx.
           if crc16 ([t ! 0] @ payload) \<noteq> from_bytes_le crc_rx then io_return None
           else io_return (Some payload)))))"

definition info_handshake :: "'s port \<Rightarrow> 's \<Rightarrow> ((port_exn + geometry) \<times> 's) option" where
  "info_handshake P s =
     (case retry (info_try P) s of
        None \<Rightarrow> None
      | Some (Inl e, s') \<Rightarrow> Some (Inl e, s')
      | Some (Inr payload, s') \<Rightarrow> Some (Inr (decode_info payload), s'))"

section \<open>The receive loop\<close>

record rx_state =
  rx_image :: "byte list"
  rx_map :: statusmap
  rx_bad :: int
  rx_received :: nat

text \<open>The frame that the reads at the head of one round deliver.\<close>

datatype rx_event =
    EvData "byte list" "byte list" nat
  | EvEot "byte list" nat
  | EvInfo
  | EvOther

definition recv_event :: "'s port \<Rightarrow> nat \<Rightarrow> ('s, rx_event) link_io" where
  "recv_event P bps =
     io_bind (hunt_soh P) (\<lambda>_.
     io_bind (read_exact P 1) (\<lambda>t.
       if t ! 0 = TYPE_DATA then
         io_bind (read_exact P 5) (\<lambda>hdr.
         io_bind (read_exact P bps) (\<lambda>data.
         io_bind (read_exact P 2) (\<lambda>crc_rx.
           io_return (EvData hdr data (from_bytes_le crc_rx)))))
       else if t ! 0 = TYPE_EOT then
         io_bind (read_exact P 8) (\<lambda>payload.
         io_bind (read_exact P 2) (\<lambda>crc_rx.
           io_return (EvEot payload (from_bytes_le crc_rx))))
       else if t ! 0 = TYPE_INFO then
         io_bind (read_exact P 14) (\<lambda>_. io_return EvInfo)
       else io_return EvOther))"

text \<open>
  The bookkeeping for one accepted sector: the data is written before the map is looked at, and
  an item access outside the map raises.
\<close>

definition store_sector :: "nat \<Rightarrow> nat \<Rightarrow> byte \<Rightarrow> byte list \<Rightarrow> rx_state \<Rightarrow> py_error option \<times> rx_state" where
  "store_sector bps lba st data r =
     (let r1 = r\<lparr>rx_image := file_write_at (lba * bps) data (rx_image r)\<rparr>;
          new = (if st = STATUS_BAD then BAD else GOOD)
      in case get_item (rx_map r1) (int lba) of
           Inl e \<Rightarrow> (Some e, r1)
         | Inr prev \<Rightarrow>
             (case set_item (rx_map r1) (int lba) new of
                Inl e \<Rightarrow> (Some e, r1)
              | Inr sm \<Rightarrow>
                  (None, r1\<lparr>rx_map := sm,
                     rx_bad := (if prev = BAD \<and> new = GOOD then rx_bad r - 1
                                else if prev \<noteq> BAD \<and> new = BAD then rx_bad r + 1
                                else rx_bad r),
                     rx_received := rx_received r + 1\<rparr>)))"

text \<open>
  What leaves the loop without the totals: an exception of the port, or an error of the program.
\<close>

datatype loop_exn = LinkRaised port_exn | ProgRaised py_error

text \<open>
  The rest of the round: \<open>None\<close> goes round again, the totals of an accepted \<open>EOT\<close> end the
  loop; each branch ends with a write, whose exception leaves the loop with what was stored.
\<close>

definition then_write ::
  "(nat \<times> nat) option \<Rightarrow> rx_state \<Rightarrow> port_exn option \<times> 's \<Rightarrow>
     (loop_exn + (nat \<times> nat) option) \<times> rx_state \<times> 's" where
  "then_write res r w = (case w of (None, s) \<Rightarrow> (Inr res, r, s) | (Some e, s) \<Rightarrow> (Inl (LinkRaised e), r, s))"

lemma then_write_none [simp]: "then_write res r (None, s) = (Inr res, r, s)"
  by (simp add: then_write_def)

fun handle_event ::
  "'s port \<Rightarrow> nat \<Rightarrow> nat \<Rightarrow> byte list \<Rightarrow> rx_event \<Rightarrow> rx_state \<Rightarrow> 's \<Rightarrow>
     (loop_exn + (nat \<times> nat) option) \<times> rx_state \<times> 's" where
  "handle_event P total_lba bps cmd (EvData hdr data crc_rx) r s =
     (if crc16 ([TYPE_DATA] @ hdr @ data) \<noteq> crc_rx then then_write None r (nak P s)
      else (let lba = from_bytes_le (py_slice 0 4 hdr)
            in case get_item hdr 4 of
                 Inl e \<Rightarrow> (Inl (ProgRaised e), r, s)
               | Inr st \<Rightarrow>
                   if lba \<ge> total_lba then then_write None r (nak P s)
                   else (case store_sector bps lba st data r of
                           (Some e, r') \<Rightarrow> (Inl (ProgRaised e), r', s)
                         | (None, r') \<Rightarrow> then_write None r' (ack P s))))"
| "handle_event P total_lba bps cmd (EvEot payload crc_rx) r s =
     (if crc16 ([TYPE_EOT] @ payload) \<noteq> crc_rx then then_write None r (nak P s)
      else then_write
        (Some (from_bytes_le (py_slice 0 4 payload), from_bytes_le (py_slice 4 8 payload))) r (ack P s))"
| "handle_event P total_lba bps cmd EvInfo r s = then_write None r (send_frame P TYPE_CMD cmd s)"
| "handle_event P total_lba bps cmd EvOther r s = then_write None r (nak P s)"

definition recv_step ::
  "'s port \<Rightarrow> nat \<Rightarrow> nat \<Rightarrow> byte list \<Rightarrow> rx_state \<times> 's \<Rightarrow>
     (((loop_exn + nat \<times> nat) \<times> rx_state \<times> 's) + (rx_state \<times> 's)) option" where
  "recv_step P total_lba bps cmd rs =
     (let (r, s) = rs in
      case recv_event P bps s of
        None \<Rightarrow> None
      | Some (Inl TimeoutError, s') \<Rightarrow> Some (Inr (r, s'))
      | Some (Inl (Port e), s') \<Rightarrow> Some (Inl (Inl (LinkRaised e), r, s'))
      | Some (Inr ev, s') \<Rightarrow>
          (case handle_event P total_lba bps cmd ev r s' of
             (Inl e, r', s'') \<Rightarrow> Some (Inl (Inl e, r', s''))
           | (Inr None, r', s'') \<Rightarrow> Some (Inr (r', s''))
           | (Inr (Some tot), r', s'') \<Rightarrow> Some (Inl (Inr tot, r', s''))))"

definition recv_loop ::
  "'s port \<Rightarrow> nat \<Rightarrow> nat \<Rightarrow> byte list \<Rightarrow> rx_state \<times> 's \<Rightarrow>
     ((loop_exn + nat \<times> nat) \<times> rx_state \<times> 's) option" where
  "recv_loop P total_lba bps cmd = while_true (recv_step P total_lba bps cmd)"

section \<open>The capture\<close>

text \<open>The options \<open>main\<close> uses here, and the files it finds (\<open>None\<close>: the file does not exist).\<close>

record capture_opts =
  opt_resume :: bool
  opt_range :: string
  opt_verify :: bool

record capture_files =
  f_image :: "byte list option"
  f_mapfile :: "string option"

text \<open>\<open>overlay\<close> and the opening of the image: its contents and the initial status map.\<close>

definition open_image ::
  "capture_opts \<Rightarrow> capture_files \<Rightarrow> nat \<Rightarrow> nat \<Rightarrow> py_error + byte list \<times> statusmap" where
  "open_image opts fs total_lba bps =
     (case f_image fs of
        Some f \<Rightarrow>
          if opt_resume opts \<or> opt_range opts \<noteq> []
          then (case f_mapfile fs of
                  Some txt \<Rightarrow>
                    (case load_mapfile txt total_lba bps of
                       Inl e \<Rightarrow> Inl e
                     | Inr sm \<Rightarrow> Inr (f, sm))
                | None \<Rightarrow> Inr (f, replicate total_lba UNTRIED))
          else Inr (file_truncate (total_lba * bps) [], replicate total_lba UNTRIED)
      | None \<Rightarrow> Inr (file_truncate (total_lba * bps) [], replicate total_lba UNTRIED))"

definition choose_worklist ::
  "capture_opts \<Rightarrow> statusmap \<Rightarrow> nat \<Rightarrow> range_error + worklist" where
  "choose_worklist opts sm total_lba =
     (if opt_range opts \<noteq> [] then parse_ranges_spec (opt_range opts) total_lba
      else Inr (build_worklist sm total_lba (opt_resume opts)))"

text \<open>
  What a run leaves behind. \<open>cap_end\<close> is the exception that ended the loop or the
  totals of the \<open>EOT\<close>; the files are written in either case. The summary and the report are
  printed unless the exception is one that \<open>main\<close> does not catch.
\<close>

record capture_out =
  cap_end :: "loop_exn + nat \<times> nat"
  cap_state :: rx_state
  cap_mapfile :: string
  cap_badlist :: string
  cap_summary :: "(nat \<times> nat \<times> nat) option"
  cap_report :: "report list"

datatype capture_result =
    HandshakeRaised port_exn
  | MapRaised py_error
  | RangeExit range_error "byte list"
  | CommandRaised cmd_exn "byte list"
  | Captured capture_out

definition finish_capture ::
  "capture_opts \<Rightarrow> nat \<Rightarrow> nat \<Rightarrow> loop_exn + nat \<times> nat \<Rightarrow> rx_state \<Rightarrow> capture_out" where
  "finish_capture opts total_lba bps ending r =
     (let sm = rx_map r; printed = (case ending of Inl e \<Rightarrow> e = LinkRaised KeyboardInterrupt | Inr _ \<Rightarrow> True)
      in \<lparr>cap_end = ending, cap_state = r,
          cap_mapfile = write_mapfile sm bps total_lba,
          cap_badlist = write_badlist sm,
          cap_summary =
            (if printed then Some (count_status GOOD sm, count_status BAD sm, count_status UNTRIED sm)
             else None),
          cap_report =
            (if printed \<and> opt_verify opts then verify_image (rx_image r) sm bps total_lba else [])\<rparr>)"

definition capture ::
  "'s port \<Rightarrow> capture_opts \<Rightarrow> capture_files \<Rightarrow> 's \<Rightarrow> (capture_result \<times> 's) option" where
  "capture P opts fs s =
     (case info_handshake P s of
        None \<Rightarrow> None
      | Some (Inl e, s1) \<Rightarrow> Some (HandshakeRaised e, s1)
      | Some (Inr g, s1) \<Rightarrow>
          (let total_lba = g_total g; bps = g_bps g in
           case open_image opts fs total_lba bps of
             Inl e \<Rightarrow> Some (MapRaised e, s1)
           | Inr (f, sm) \<Rightarrow>
               (case choose_worklist opts sm total_lba of
                  Inl e \<Rightarrow> Some (RangeExit e f, s1)
                | Inr wl \<Rightarrow>
                    (case send_command P wl s1 of
                       (Inl e, s2) \<Rightarrow> Some (CommandRaised e f, s2)
                     | (Inr cmd, s2) \<Rightarrow>
                         (case recv_loop P total_lba bps cmd
                             (\<lparr>rx_image = f, rx_map = sm, rx_bad = int (count_status BAD sm),
                               rx_received = 0\<rparr>, s2) of
                            None \<Rightarrow> None
                          | Some (ending, r, s3) \<Rightarrow>
                              Some (Captured (finish_capture opts total_lba bps ending r), s3))))))"

end
