(* ===== verification/CaptureCorrect.thy ===== *)
theory CaptureCorrect
  imports Capture
begin

text \<open>
  What the receive loop of the capture guarantees, for every port: the invariant of its
  bookkeeping, the journal of accepted sectors that explains the final image and map, and the
  rejection of damaged frames.
\<close>

section \<open>The bookkeeping invariant\<close>

definition rx_inv :: "nat \<Rightarrow> rx_state \<Rightarrow> bool" where
  "rx_inv total_lba r \<longleftrightarrow>
     length (rx_map r) = total_lba \<and> rx_bad r = int (count_status BAD (rx_map r))"

text \<open>The state after a sector was stored.\<close>

definition stored :: "nat \<Rightarrow> nat \<Rightarrow> byte \<Rightarrow> byte list \<Rightarrow> rx_state \<Rightarrow> rx_state" where
  "stored bps lba st data r = snd (store_sector bps lba st data r)"

lemma store_sector_inside:
  assumes "lba < length (rx_map r)"
  shows "store_sector bps lba st data r = (None, stored bps lba st data r)"
    "stored bps lba st data r =
      (let new = (if st = STATUS_BAD then BAD else GOOD)
       in r\<lparr>rx_image := file_write_at (lba * bps) data (rx_image r),
            rx_map := (rx_map r)[lba := new],
            rx_bad := (if rx_map r ! lba = BAD \<and> new = GOOD then rx_bad r - 1
                       else if rx_map r ! lba \<noteq> BAD \<and> new = BAD then rx_bad r + 1
                       else rx_bad r),
            rx_received := rx_received r + 1\<rparr>)"
  using assms by (simp_all add: stored_def store_sector_def Let_def)

lemma stored_always [simp]:
  "length (rx_map (stored bps lba st data r)) = length (rx_map r)"
  "rx_image (stored bps lba st data r) = file_write_at (lba * bps) data (rx_image r)"
  by (auto simp: stored_def store_sector_def Let_def split: sum.split dest: set_item_length)

lemma rx_map_stored:
  "lba < length (rx_map r) \<Longrightarrow>
    rx_map (stored bps lba st data r) = (rx_map r)[lba := if st = STATUS_BAD then BAD else GOOD]"
  by (simp add: store_sector_inside(2) Let_def)

lemma stored_inv:
  assumes "rx_inv t r" "lba < t"
  shows "rx_inv t (stored bps lba st data r)"
proof -
  let ?new = "if st = STATUS_BAD then BAD else GOOD"
  have "lba < length (rx_map r)" using assms by (simp add: rx_inv_def)
  from count_status_update [OF this, of BAD ?new] store_sector_inside(2) [OF this]
  show ?thesis
    using assms by (cases "rx_map r ! lba") (auto simp: rx_inv_def Let_def split: if_splits)
qed

text \<open>The map the loop starts with.\<close>

lemma open_image_length: "open_image opts fs t bps = Inr (f, sm) \<Longrightarrow> length sm = t"
  by (auto simp: open_image_def load_mapfile_length split: option.splits if_splits sum.splits)

section \<open>The journal of accepted sectors\<close>

text \<open>
  An entry of the journal is a \<open>DATA\<close> frame as received: header, data, checksum field. It
  is accepted when the checksum matches and the sector is on the disk.
\<close>

type_synonym sector_frame = "byte list \<times> byte list \<times> nat"

definition frame_lba :: "byte list \<Rightarrow> nat" where
  "frame_lba hdr = from_bytes_le (py_slice 0 4 hdr)"

definition status_of :: "byte list \<Rightarrow> status" where
  "status_of hdr = (if hdr ! 4 = STATUS_BAD then BAD else GOOD)"

definition accepted :: "nat \<Rightarrow> sector_frame \<Rightarrow> bool" where
  "accepted t fr =
     (case fr of (hdr, data, crc_rx) \<Rightarrow>
       crc16 ([TYPE_DATA] @ hdr @ data) = crc_rx \<and> 4 < length hdr \<and> frame_lba hdr < t)"

definition replay :: "nat \<Rightarrow> sector_frame list \<Rightarrow> rx_state \<Rightarrow> rx_state" where
  "replay bps jn r =
     foldl (\<lambda>r (hdr, data, crc_rx). stored bps (frame_lba hdr) (hdr ! 4) data r) r jn"

definition journal_ok :: "nat \<Rightarrow> sector_frame list \<Rightarrow> bool" where
  "journal_ok t jn \<longleftrightarrow> list_all (accepted t) jn"

definition journal_sized :: "nat \<Rightarrow> sector_frame list \<Rightarrow> bool" where
  "journal_sized bps jn \<longleftrightarrow> list_all (\<lambda>(hdr, data, crc_rx). length data = bps) jn"

definition event_log :: "nat \<Rightarrow> rx_event \<Rightarrow> sector_frame list" where
  "event_log t ev =
     (case ev of
        EvData hdr data crc_rx \<Rightarrow>
          if accepted t (hdr, data, crc_rx) then [(hdr, data, crc_rx)] else []
      | _ \<Rightarrow> [])"

lemma journal_simps [simp]:
  "journal_ok t []" "journal_ok t (a @ b) \<longleftrightarrow> journal_ok t a \<and> journal_ok t b"
  "journal_ok t (e # a) \<longleftrightarrow> accepted t e \<and> journal_ok t a"
  "journal_sized bps []" "journal_sized bps (a @ b) \<longleftrightarrow> journal_sized bps a \<and> journal_sized bps b"
  "journal_sized bps ((hdr, data, crc_rx) # a) \<longleftrightarrow> length data = bps \<and> journal_sized bps a"
  by (simp_all add: journal_ok_def journal_sized_def)

lemma replay_simps [simp]:
  "replay bps [] r = r"
  "replay bps ((hdr, data, crc_rx) # jn) r =
     replay bps jn (stored bps (frame_lba hdr) (hdr ! 4) data r)"
  "replay bps (jn @ jn') r = replay bps jn' (replay bps jn r)"
  by (simp_all add: replay_def)

text \<open>
  On a map of the right length the round stores exactly what the log says, and raises an error
  of the program only on a header that is too short.
\<close>

lemma handle_event_log:
  assumes "length (rx_map r) = t" "handle_event P t bps cmd ev r s = (res, r', s')"
  shows "r' = replay bps (event_log t ev) r"
    "res = Inl (ProgRaised e) \<Longrightarrow> \<exists>hdr data crc_rx. ev = EvData hdr data crc_rx \<and> length hdr \<le> 4"
proof -
  have "r' = replay bps (event_log t ev) r \<and>
    (\<forall>e. res = Inl (ProgRaised e) \<longrightarrow> (\<exists>hdr data crc_rx. ev = EvData hdr data crc_rx \<and> length hdr \<le> 4))"
  proof (cases ev)
    case (EvData hdr data crc_rx)
    show ?thesis
    proof (cases "4 < length hdr")
      case True
      then have "get_item hdr 4 = Inr (hdr ! 4)" by simp
      with True EvData assms show ?thesis
        by (auto simp: event_log_def accepted_def frame_lba_def Let_def then_write_def store_sector_inside(1)
            split: if_splits prod.splits option.splits)
    next
      case False
      then have "get_item hdr 4 = Inl IndexError" by (simp add: get_item_beyond)
      with False EvData assms show ?thesis
        by (auto simp: event_log_def accepted_def then_write_def split: if_splits prod.splits option.splits)
    qed
  qed (use assms in \<open>auto simp: event_log_def then_write_def split: if_splits prod.splits option.splits\<close>)
  then show "r' = replay bps (event_log t ev) r"
    "res = Inl (ProgRaised e) \<Longrightarrow> \<exists>hdr data crc_rx. ev = EvData hdr data crc_rx \<and> length hdr \<le> 4" by blast+
qed

lemma event_log_ok: "journal_ok t (event_log t ev)"
  by (auto simp: event_log_def split: rx_event.splits)

text \<open>
  pyserial's \<open>read(n)\<close> never returns more than \<open>n\<close> bytes. On such a port \<open>read_exact\<close>
  returns exactly as many bytes as asked for.
\<close>

definition port_bounded :: "'s port \<Rightarrow> bool" where
  "port_bounded P \<longleftrightarrow> (\<forall>n s bs s'. ser_read P n s = (Inr bs, s') \<longrightarrow> length bs \<le> n)"

lemma read_more_length:
  "port_bounded P \<Longrightarrow> length buf \<le> n \<Longrightarrow> read_more P n buf s = (Inr bs, s') \<Longrightarrow> length bs = n"
proof (induction P n buf s rule: read_more.induct)
  case (1 P n buf s)
  show ?case
  proof (cases "length buf < n")
    case False
    with "1.prems" show ?thesis by (simp add: read_more.simps [of P n buf])
  next
    case True
    with "1.prems" obtain c cs s1 where r: "ser_read P (n - length buf) s = (Inr (c # cs), s1)"
      and rest: "read_more P n (buf @ c # cs) s1 = (Inr bs, s')"
      by (auto simp: read_more.simps [of P n buf] split: prod.splits sum.splits list.splits)
    have "length (c # cs) \<le> n - length buf"
      using "1.prems"(1) r unfolding port_bounded_def by blast
    with True have "length (buf @ c # cs) \<le> n" by simp
    from "1.IH" [OF True r [symmetric] _ _ "1.prems"(1) this rest] show ?thesis by simp
  qed
qed

lemma read_exact_length: "port_bounded P \<Longrightarrow> read_exact P n s = Some (Inr bs, s') \<Longrightarrow> length bs = n"
  using read_more_length [of P "[]" n s bs s'] by (simp add: read_exact_def)

lemma io_bind_Inr:
  "io_bind m k s = Some (Inr b, s') \<Longrightarrow> \<exists>a s1. m s = Some (Inr a, s1) \<and> k a s1 = Some (Inr b, s')"
  by (auto simp: io_bind_def split: option.splits sum.splits)

lemma recv_event_sized:
  assumes "port_bounded P" "recv_event P bps s = Some (Inr ev, s')"
  shows "journal_sized bps (event_log t ev)"
proof (cases ev)
  case (EvData hdr data crc_rx)
  with assms(2) obtain s1 s2 where "read_exact P bps s1 = Some (Inr data, s2)"
    unfolding recv_event_def
    by (auto dest!: io_bind_Inr simp: io_return_def split: if_splits)
  with read_exact_length [OF assms(1)] have "length data = bps" by blast
  with EvData show ?thesis by (simp add: event_log_def)
qed (simp_all add: event_log_def)

text \<open>\<open>read_exact\<close> returns no less than asked for, on every port.\<close>

lemma read_more_at_least: "read_more P n buf s = (Inr bs, s') \<Longrightarrow> n \<le> length bs"
proof (induction P n buf s rule: read_more.induct)
  case (1 P n buf s)
  then show ?case
    by (cases "length buf < n")
       (auto simp: read_more.simps [of P n buf] split: prod.splits sum.splits list.splits)
qed

lemma recv_event_header:
  assumes "recv_event P bps s = Some (Inr (EvData hdr data crc_rx), s')"
  shows "5 \<le> length hdr"
proof -
  obtain s1 s2 where "read_exact P 5 s1 = Some (Inr hdr, s2)"
    using assms unfolding recv_event_def
    by (auto dest!: io_bind_Inr simp: io_return_def split: if_splits)
  then show ?thesis by (simp add: read_exact_def read_more_at_least)
qed

lemma length_replay_map [simp]: "length (rx_map (replay bps jn r)) = length (rx_map r)"
  by (induction jn arbitrary: r) auto

text \<open>
  What a round may end with: an exception of the port or the totals, but no error of the
  program.
\<close>

definition no_error :: "loop_exn + 'a \<Rightarrow> bool" where
  "no_error res \<longleftrightarrow> (\<forall>e. res \<noteq> Inl (ProgRaised e))"

lemma no_error_simps [simp]: "no_error (Inl (LinkRaised e))" "no_error (Inr x)" "\<not> no_error (Inl (ProgRaised pe))"
  by (simp_all add: no_error_def)

lemma recv_step_journal:
  assumes "recv_step P t bps cmd (q, s) = Some z" "length (rx_map q) = t"
  shows "\<exists>jn. journal_ok t jn \<and> (port_bounded P \<longrightarrow> journal_sized bps jn) \<and>
    (case z of Inl (res, q', s') \<Rightarrow> q' = replay bps jn q \<and> no_error res | Inr (q', s') \<Rightarrow> q' = replay bps jn q)"
proof -
  obtain x s1 where ev: "recv_event P bps s = Some (x, s1)"
    using assms by (auto simp: recv_step_def split: option.splits)
  show ?thesis
  proof (cases x)
    case (Inl e)
    with ev assms show ?thesis
      by (cases e) (auto simp: recv_step_def intro!: exI [of _ "[]"])
  next
    case (Inr e)
    obtain res q' s2 where h: "handle_event P t bps cmd e q s1 = (res, q', s2)"
      by (cases "handle_event P t bps cmd e q s1")
    with ev assms Inr have z: "z = (case res of Inl e \<Rightarrow> Inl (Inl e, q', s2)
        | Inr None \<Rightarrow> Inr (q', s2) | Inr (Some tot) \<Rightarrow> Inl (Inr tot, q', s2))"
      by (auto simp: recv_step_def split: sum.splits option.splits)
    note round = handle_event_log [OF assms(2) h]
    have "no_error res"
      unfolding no_error_def using round(2) recv_event_header [of P bps s] ev Inr by fastforce
    with z round(1) show ?thesis
      using recv_event_sized [of P bps s e s1 t] ev Inr
      by (intro exI [of _ "event_log t e"]) (auto simp: event_log_ok no_error_def split: option.split sum.split)
  qed
qed

text \<open>The journal of the loop: the final state is the initial one with the journal replayed.\<close>

lemma recv_loop_journal:
  assumes "recv_loop P t bps cmd (r, s) = Some (res, r', s')" "length (rx_map r) = t"
  shows "\<exists>jn. journal_ok t jn \<and> (port_bounded P \<longrightarrow> journal_sized bps jn) \<and> r' = replay bps jn r" "no_error res"
proof -
  let ?J = "\<lambda>q. \<exists>jn. journal_ok t jn \<and> (port_bounded P \<longrightarrow> journal_sized bps jn) \<and> q = replay bps jn r"
  have step: "case z of Inl (res, q', s') \<Rightarrow> ?J q' \<and> no_error res | Inr (q', s') \<Rightarrow> ?J q'"
    if start: "?J q" and run: "recv_step P t bps cmd (q, s) = Some z" for q s z
  proof -
    obtain j1 where j1: "journal_ok t j1" "port_bounded P \<longrightarrow> journal_sized bps j1" "q = replay bps j1 r" using start by blast
    then have "length (rx_map q) = t" using assms(2) by simp
    from recv_step_journal [OF run this] obtain j2 where "journal_ok t j2" "port_bounded P \<longrightarrow> journal_sized bps j2"
      "case z of Inl (res, q', s') \<Rightarrow> q' = replay bps j2 q \<and> no_error res | Inr (q', s') \<Rightarrow> q' = replay bps j2 q"
      by blast
    with j1 show ?thesis
      by (cases z) (auto intro!: exI [of _ "j1 @ j2"])
  qed
  have "?J (fst (snd (res, r', s'))) \<and> no_error (fst (res, r', s'))"
  proof (rule while_true_rule [where I = "\<lambda>x. ?J (fst x)" and Q = "\<lambda>z. ?J (fst (snd z)) \<and> no_error (fst z)"])
    show "while_true (recv_step P t bps cmd) (r, s) = Some (res, r', s')"
      using assms by (simp add: recv_loop_def)
    show "?J (fst (r, s))"
      by (auto intro: exI [of _ "[]"])
    show "?J (fst y)" if "?J (fst x)" "recv_step P t bps cmd x = Some (Inr y)" for x y
      using step [of "fst x" "snd x"] that by (simp add: case_prod_unfold)
    show "?J (fst (snd z)) \<and> no_error (fst z)" if "?J (fst x)" "recv_step P t bps cmd x = Some (Inl z)" for x z
      using step [of "fst x" "snd x"] that by (simp add: case_prod_unfold)
  qed
  then show "?J r'" "no_error res" by simp_all
qed

lemma replay_inv: "journal_ok t jn \<Longrightarrow> rx_inv t r \<Longrightarrow> rx_inv t (replay bps jn r)"
  by (induction jn arbitrary: r) (auto simp: accepted_def stored_inv)

lemma recv_loop_inv:
  assumes "recv_loop P t bps cmd (r, s) = Some (res, r', s')" "rx_inv t r"
  shows "rx_inv t r'"
proof -
  have "length (rx_map r) = t" using assms(2) by (simp add: rx_inv_def)
  from recv_loop_journal(1) [OF assms(1) this] replay_inv assms(2) show ?thesis by blast
qed

section \<open>What the journal says of the map and the image\<close>

text \<open>The last accepted frame for a sector.\<close>

definition last_frame :: "nat \<Rightarrow> sector_frame list \<Rightarrow> sector_frame option" where
  "last_frame k jn = find (\<lambda>(hdr, data, crc_rx). frame_lba hdr = k) (rev jn)"

lemma last_frame_simps [simp]:
  "last_frame k [] = None"
  "last_frame k (jn @ [(hdr, data, crc_rx)]) =
     (if frame_lba hdr = k then Some (hdr, data, crc_rx) else last_frame k jn)"
  by (simp_all add: last_frame_def)

lemma replay_map:
  assumes "journal_ok t jn" "length (rx_map r) = t" "k < t"
  shows "rx_map (replay bps jn r) ! k =
    (case last_frame k jn of Some (hdr, _) \<Rightarrow> status_of hdr | None \<Rightarrow> rx_map r ! k)"
  using assms
proof (induction jn rule: rev_induct)
  case (snoc e jn)
  obtain hdr data crc_rx where e: "e = (hdr, data, crc_rx)" by (cases e)
  from snoc e show ?case
    by (auto simp: rx_map_stored status_of_def accepted_def nth_list_update)
qed simp

lemma replay_image:
  assumes "journal_ok t jn" "journal_sized bps jn"
    and "t * bps \<le> length (rx_image r)" "k < t"
  shows "file_read_at (k * bps) bps (rx_image (replay bps jn r)) =
      (case last_frame k jn of Some (hdr, data, _) \<Rightarrow> data
       | None \<Rightarrow> file_read_at (k * bps) bps (rx_image r)) \<and>
    length (rx_image (replay bps jn r)) = length (rx_image r)"
  using assms
proof (induction jn rule: rev_induct)
  case (snoc e jn)
  obtain hdr data crc_rx where e: "e = (hdr, data, crc_rx)" by (cases e)
  from snoc have IH: "file_read_at (k * bps) bps (rx_image (replay bps jn r)) =
      (case last_frame k jn of Some (hdr, data, _) \<Rightarrow> data
       | None \<Rightarrow> file_read_at (k * bps) bps (rx_image r))"
    "length (rx_image (replay bps jn r)) = length (rx_image r)" by auto
  have new: "frame_lba hdr < t" "length data = bps" using snoc.prems e by (auto simp: accepted_def)
  note w = image.read_sector [OF new(2,1) snoc.prems(4)] image.extent_sector [OF new(2,1)]
  show ?case
    using IH w [of "rx_image (replay bps jn r)"] snoc.prems(3)
    by (auto simp: e)
qed simp

section \<open>Damaged frames\<close>

lemma handle_bad_crc:
  "crc16 ([TYPE_DATA] @ hdr @ data) \<noteq> crc \<Longrightarrow>
     handle_event P t bps cmd (EvData hdr data crc) r s = then_write None r (nak P s)"
  by simp

text \<open>
  A \<open>DATA\<close> body in which one byte, or two neighbouring bytes, differ from what was sent,
  under the checksum that was sent.
\<close>

definition body_damage :: "byte list \<Rightarrow> byte list \<Rightarrow> bool" where
  "body_damage sent got \<longleftrightarrow>
     (\<exists>xs ys b1 b2 c1 c2. (b1, b2) \<noteq> (c1, c2) \<and> sent = xs @ [b1, b2] @ ys \<and> got = xs @ [c1, c2] @ ys)"

lemma body_damage_crc: "body_damage sent got \<Longrightarrow> crc16 (ty # sent) \<noteq> crc16 (ty # got)"
  unfolding body_damage_def by (auto dest: crc16_burst [of "ty # _", simplified])

text \<open>
  A \<open>DATA\<close> or \<open>EOT\<close> frame as it arrives (type byte, body, checksum field), damaged in its body,
  in its checksum field, or in its type byte so that no type of frame is left.
\<close>

definition damaged_frame :: "nat \<Rightarrow> byte \<Rightarrow> byte list \<Rightarrow> byte \<Rightarrow> byte list \<Rightarrow> byte list \<Rightarrow> bool" where
  "damaged_frame bps ty sent ty' got crc \<longleftrightarrow>
     (ty = TYPE_DATA \<and> length sent = 5 + bps \<or> ty = TYPE_EOT \<and> length sent = 8) \<and> length crc = 2 \<and>
     (ty' = ty \<and> body_damage sent got \<and> crc = le_bytes 2 (crc16 (ty # sent)) \<or>
      ty' = ty \<and> got = sent \<and> crc \<noteq> le_bytes 2 (crc16 (ty # sent)) \<or>
      ty' \<notin> {TYPE_DATA, TYPE_EOT, TYPE_INFO})"

lemma body_damage_length: "body_damage sent got \<Longrightarrow> length got = length sent"
  by (auto simp: body_damage_def)

lemma damaged_frame_cases:
  assumes "damaged_frame bps ty sent ty' got crc"
  obtains (data) "ty' = TYPE_DATA" "length got = 5 + bps" "length crc = 2" "crc16 (TYPE_DATA # got) \<noteq> from_bytes_le crc"
  | (eot) "ty' = TYPE_EOT" "length got = 8" "length crc = 2" "crc16 (TYPE_EOT # got) \<noteq> from_bytes_le crc"
  | (other) "ty' \<notin> {TYPE_DATA, TYPE_EOT, TYPE_INFO}"
proof -
  have field: "crc16 (ty # got) \<noteq> from_bytes_le crc"
    if "length crc = 2" "body_damage sent got \<and> crc = le_bytes 2 (crc16 (ty # sent)) \<or>
      got = sent \<and> crc \<noteq> le_bytes 2 (crc16 (ty # sent))"
    using that body_damage_crc [of sent got ty] le_from_bytes [of crc 2] by auto
  show thesis
    using assms field data eot other body_damage_length [of sent got] unfolding damaged_frame_def by auto
qed

end
