(* ===== verification/LineRounds.thy ===== *)
theory LineRounds
  imports CaptureCorrect
begin

text \<open>
  One round of the receiver on a line that loses nothing (\<open>serial_line\<close>): what each frame at
  the head of the line makes the handshake and the receive loop of \<open>rx.py\<close> do, frames whose
  checksum does not match included.
\<close>

lemma frame_lba_le: "k < 2 ^ 32 \<Longrightarrow> frame_lba (le_bytes 4 k @ [st]) = k"
  by (simp add: frame_lba_def py_slice_def)

lemma nth_hdr: "(le_bytes 4 k @ [st]) ! 4 = st"
  by (simp add: nth_append)

text \<open>A frame as bytes, its checksum field as it arrives.\<close>

definition raw_frame :: "byte \<Rightarrow> byte list \<Rightarrow> byte list \<Rightarrow> byte list" where
  "raw_frame ty payload crc = [SOH, ty] @ payload @ crc"

lemma frame_raw: "frame ty payload = raw_frame ty payload (le_bytes 2 (crc16 (ty # payload)))"
  by (simp add: raw_frame_def frame_simp)

context serial_line
begin

section \<open>Reading frames\<close>

text \<open>The head of every frame: its type byte.\<close>

lemma frame_head:
  assumes "inq s = pre @ raw_frame ty payload crc @ rest" "SOH \<notin> set pre"
  obtains s0 s' where "hunt_soh P s = Some (Inr (), s0)" "read_exact P 1 s0 = Some (Inr [ty], s')"
    "inq s' = payload @ crc @ rest" "peer s' = peer s"
proof -
  obtain s1 where s1: "hunt_soh P s = Some (Inr (), s1)"
    "inq s1 = ty # payload @ crc @ rest" "peer s1 = peer s"
    by (rule hunt_soh_ok [of s pre "ty # payload @ crc @ rest"])
       (use assms in \<open>auto simp: raw_frame_def\<close>)
  have "1 \<le> length (inq s1)" using s1 by simp
  then obtain s2 where "read_exact P 1 s1 = Some (Inr (take 1 (inq s1)), s2)"
    "inq s2 = drop 1 (inq s1)" "peer s2 = peer s1"
    by (rule read_exact_ok)
  with s1 show thesis by (intro that [of s1 s2]) simp_all
qed

text \<open>A read of exactly the bytes at the head of the line.\<close>

lemma read_field:
  assumes "inq s = field @ rest" "length field = n"
  obtains s' where "read_exact P n s = Some (Inr field, s')" "inq s' = rest" "peer s' = peer s"
proof -
  have "n \<le> length (inq s)" using assms by simp
  then obtain s' where "read_exact P n s = Some (Inr (take n (inq s)), s')"
    "inq s' = drop n (inq s)" "peer s' = peer s"
    by (rule read_exact_ok)
  with assms show thesis by (intro that [of s']) simp_all
qed

lemma recv_event_data:
  assumes "inq s = pre @ raw_frame TYPE_DATA (hdr @ data) crc @ rest" "SOH \<notin> set pre"
    and len: "length hdr = 5" "length data = bps" "length crc = 2"
  obtains s' where
    "recv_event P bps s = Some (Inr (EvData hdr data (from_bytes_le crc)), s')"
    "inq s' = rest" "peer s' = peer s"
proof -
  obtain s0 s1 where s1: "hunt_soh P s = Some (Inr (), s0)" "read_exact P 1 s0 = Some (Inr [TYPE_DATA], s1)"
    "inq s1 = (hdr @ data) @ crc @ rest" "peer s1 = peer s"
    using assms(1,2) by (rule frame_head)
  obtain s2 where s2: "read_exact P 5 s1 = Some (Inr hdr, s2)"
    "inq s2 = data @ crc @ rest" "peer s2 = peer s1"
    by (rule read_field [of s1 "hdr" "data @ crc @ rest" 5]) (use s1 len in simp_all)
  obtain s3 where s3: "read_exact P bps s2 = Some (Inr data, s3)"
    "inq s3 = crc @ rest" "peer s3 = peer s2"
    by (rule read_field [of s2 "data" "crc @ rest" bps]) (use s2 len in simp_all)
  obtain s4 where s4: "read_exact P 2 s3 = Some (Inr crc, s4)"
    "inq s4 = rest" "peer s4 = peer s3"
    by (rule read_field [of s3 "crc" "rest" 2]) (use s3 len in simp_all)
  show thesis
    by (rule that [of s4])
       (simp_all add: recv_event_def s1(1,2) s2(1) s3(1) s4(1) io_return_def io_bind_def s1(4) s2(3) s3(3) s4(2,3)
         del: One_nat_def)
qed

lemma recv_event_eot:
  assumes "inq s = pre @ raw_frame TYPE_EOT payload crc @ rest" "SOH \<notin> set pre"
    and len: "length payload = 8" "length crc = 2"
  obtains s' where
    "recv_event P bps s = Some (Inr (EvEot payload (from_bytes_le crc)), s')"
    "inq s' = rest" "peer s' = peer s"
proof -
  obtain s0 s1 where s1: "hunt_soh P s = Some (Inr (), s0)" "read_exact P 1 s0 = Some (Inr [TYPE_EOT], s1)"
    "inq s1 = payload @ crc @ rest" "peer s1 = peer s"
    using assms(1,2) by (rule frame_head)
  obtain s2 where s2: "read_exact P 8 s1 = Some (Inr payload, s2)"
    "inq s2 = crc @ rest" "peer s2 = peer s1"
    by (rule read_field [of s1 "payload" "crc @ rest" 8]) (use s1 len in simp_all)
  obtain s3 where s3: "read_exact P 2 s2 = Some (Inr crc, s3)"
    "inq s3 = rest" "peer s3 = peer s2"
    by (rule read_field [of s2 "crc" "rest" 2]) (use s2 len in simp_all)
  show thesis
    by (rule that [of s3])
       (simp_all add: recv_event_def s1(1,2) s2(1) s3(1) io_return_def io_bind_def s1(4) s2(3) s3(2,3)
         del: One_nat_def)
qed

lemma info_try_ok:
  assumes "inq s = pre @ frame TYPE_INFO payload @ rest" "SOH \<notin> set pre"
    and len: "length payload = 12"
  obtains s' where "info_try P s = Some (Inr (Some payload), s')" "inq s' = rest" "peer s' = peer s"
proof -
  let ?crc = "le_bytes 2 (crc16 (TYPE_INFO # payload))"
  obtain s0 s1 where s1: "hunt_soh P s = Some (Inr (), s0)" "read_exact P 1 s0 = Some (Inr [TYPE_INFO], s1)"
    "inq s1 = payload @ ?crc @ rest" "peer s1 = peer s"
    using assms(1,2) unfolding frame_raw by (rule frame_head)
  obtain s2 where s2: "read_exact P 12 s1 = Some (Inr payload, s2)"
    "inq s2 = ?crc @ rest" "peer s2 = peer s1"
    by (rule read_field [of s1 "payload" "?crc @ rest" 12]) (use s1 len in simp_all)
  obtain s3 where s3: "read_exact P 2 s2 = Some (Inr ?crc, s3)"
    "inq s3 = rest" "peer s3 = peer s2"
    by (rule read_field [of s2 "?crc" "rest" 2]) (use s2 in simp_all)
  show thesis
    by (rule that [of s3])
       (simp_all add: info_try_def s1(1,2) s2(1) s3(1) io_return_def io_bind_def s1(4) s2(3) s3(2,3)
         del: One_nat_def)
qed

section \<open>Rounds of the receive loop\<close>

text \<open>A sector of the disk whose checksum matches is stored and acknowledged.\<close>

lemma data_round:
  assumes "inq s = frame TYPE_DATA ((le_bytes 4 k @ [st]) @ buf)" "length buf = bps" "k < t" "t \<le> 2 ^ 32"
    and "k < length (rx_map r)"
  obtains s' where
    "recv_step P t bps cmd (r, s) = Some (Inr (stored bps k st buf r, s'))"
    "(peer s', inq s') = react [ACK] (peer s)"
proof -
  let ?crc = "crc16 (TYPE_DATA # (le_bytes 4 k @ [st]) @ buf)"
  have k: "k < 2 ^ 32" using assms by simp
  have "inq s = [] @ raw_frame TYPE_DATA ((le_bytes 4 k @ [st]) @ buf) (le_bytes 2 ?crc) @ []"
    using assms(1) unfolding frame_raw by simp
  then obtain s1 where s1:
    "recv_event P bps s = Some (Inr (EvData (le_bytes 4 k @ [st]) buf (from_bytes_le (le_bytes 2 ?crc))), s1)"
    "inq s1 = []" "peer s1 = peer s"
    by (rule recv_event_data) (use assms(2) in simp_all)
  obtain s2 where s2: "ser_write P [ACK] s1 = (None, s2)" "(peer s2, inq s2) = react [ACK] (peer s)"
    using ser_write_ok [of "[ACK]" s1] s1 by auto
  have "handle_event P t bps cmd (EvData (le_bytes 4 k @ [st]) buf ?crc) r s1 = (Inr None, stored bps k st buf r, s2)"
    using k assms frame_lba_le [OF k, of st] nth_hdr [of k st]
    by (simp add: frame_lba_def Let_def ack_def then_write_def s2 store_sector_inside(1))
  with s1 s2 show thesis
    by (intro that [of s2]) (simp_all add: recv_step_def)
qed

text \<open>The totals end the loop.\<close>

lemma eot_round:
  assumes "inq s = frame TYPE_EOT (le_bytes 4 good @ le_bytes 4 bad)" "good < 2 ^ 32" "bad < 2 ^ 32"
  obtains s' where
    "recv_step P t bps cmd (r, s) = Some (Inl (Inr (good, bad), r, s'))"
    "(peer s', inq s') = react [ACK] (peer s)"
proof -
  let ?p = "le_bytes 4 good @ le_bytes 4 bad"
  have "inq s = [] @ raw_frame TYPE_EOT ?p (le_bytes 2 (crc16 (TYPE_EOT # ?p))) @ []"
    using assms(1) unfolding frame_raw by simp
  then obtain s1 where s1: "recv_event P bps s =
      Some (Inr (EvEot ?p (from_bytes_le (le_bytes 2 (crc16 (TYPE_EOT # ?p))))), s1)"
    "inq s1 = []" "peer s1 = peer s"
    by (rule recv_event_eot) simp_all
  obtain s2 where s2: "ser_write P [ACK] s1 = (None, s2)" "(peer s2, inq s2) = react [ACK] (peer s)"
    using ser_write_ok [of "[ACK]" s1] s1 by auto
  have "handle_event P t bps cmd (EvEot ?p (crc16 (TYPE_EOT # ?p))) r s1 =
      (Inr (Some (good, bad)), r, s2)"
    using assms(2,3) by (simp add: py_slice_def ack_def then_write_def s2)
  with s1 s2 show thesis
    by (intro that [of s2]) (simp_all add: recv_step_def)
qed

text \<open>A frame whose checksum does not match is answered \<open>NAK\<close> and changes nothing.\<close>

lemma bad_data_round:
  assumes "inq s = raw_frame TYPE_DATA payload crc" "length payload = 5 + bps" "length crc = 2"
    and "crc16 (TYPE_DATA # payload) \<noteq> from_bytes_le crc"
  obtains s' where "recv_step P t bps cmd (r, s) = Some (Inr (r, s'))"
    "(peer s', inq s') = react [NAK] (peer s)"
proof -
  let ?hdr = "take 5 payload" and ?data = "drop 5 payload"
  obtain s1 where s1: "recv_event P bps s = Some (Inr (EvData ?hdr ?data (from_bytes_le crc)), s1)"
    "inq s1 = []" "peer s1 = peer s"
    by (rule recv_event_data [of s "[]" ?hdr ?data crc "[]" bps]) (use assms in simp_all)
  obtain s2 where s2: "nak P s1 = (None, s2)" "(peer s2, inq s2) = react [NAK] (peer s)"
    using nak_ok [of s1] s1 by auto
  have "handle_event P t bps cmd (EvData ?hdr ?data (from_bytes_le crc)) r s1 = (Inr None, r, s2)"
    using handle_bad_crc [of ?hdr ?data] assms(4) by (simp add: then_write_def s2)
  with s1 s2 show thesis
    by (intro that [of s2]) (simp_all add: recv_step_def)
qed

lemma bad_eot_round:
  assumes "inq s = raw_frame TYPE_EOT payload crc" "length payload = 8" "length crc = 2"
    and "crc16 (TYPE_EOT # payload) \<noteq> from_bytes_le crc"
  obtains s' where "recv_step P t bps cmd (r, s) = Some (Inr (r, s'))"
    "(peer s', inq s') = react [NAK] (peer s)"
proof -
  obtain s1 where s1: "recv_event P bps s = Some (Inr (EvEot payload (from_bytes_le crc)), s1)"
    "inq s1 = []" "peer s1 = peer s"
    by (rule recv_event_eot [of s "[]" payload crc "[]" bps]) (use assms in simp_all)
  obtain s2 where s2: "nak P s1 = (None, s2)" "(peer s2, inq s2) = react [NAK] (peer s)"
    using nak_ok [of s1] s1 by auto
  have "handle_event P t bps cmd (EvEot payload (from_bytes_le crc)) r s1 = (Inr None, r, s2)"
    using assms(4) by (simp add: then_write_def s2)
  with s1 s2 show thesis
    by (intro that [of s2]) (simp_all add: recv_step_def)
qed

text \<open>A frame of another type is answered \<open>NAK\<close>, and the rest of it is dropped.\<close>

lemma other_round:
  assumes "inq s = raw_frame ty payload crc" "ty \<notin> {TYPE_DATA, TYPE_EOT, TYPE_INFO}"
  obtains s' where "recv_step P t bps cmd (r, s) = Some (Inr (r, s'))"
    "(peer s', inq s') = react [NAK] (peer s)"
proof -
  have "inq s = [] @ raw_frame ty payload crc @ []" using assms(1) by simp
  then obtain s0 s1 where s1: "hunt_soh P s = Some (Inr (), s0)" "read_exact P 1 s0 = Some (Inr [ty], s1)"
    "inq s1 = payload @ crc @ []" "peer s1 = peer s"
    by (rule frame_head) simp
  have "recv_event P bps s = Some (Inr EvOther, s1)"
    using assms(2) by (simp add: recv_event_def s1(1,2) io_return_def io_bind_def del: One_nat_def)
  moreover obtain s2 where "nak P s1 = (None, s2)" "(peer s2, inq s2) = react [NAK] (peer s)"
    using nak_ok [of s1] s1 by auto
  ultimately show thesis by (intro that [of s2]) (simp_all add: recv_step_def)
qed

end

end
