(* ===== verification/Session.thy ===== *)
theory Session
  imports Wire LineRounds
begin

text \<open>
  A whole capture: \<open>rx.py\<close> at one end of the line, \<open>main.c\<close> at the other. The port is a queue
  of bytes with the sender's reactions behind it (\<open>line_port\<close>); on it, the contract of the
  serial line holds, and a capture ends with the image and the map the disk calls for.
\<close>

section \<open>A disk seen through the sender\<close>

text \<open>What the sender reports of a sector: its status and the bytes it sends.\<close>

definition disk_read :: "tx_disk \<Rightarrow> nat \<Rightarrow> byte list option" where
  "disk_read d k = read_with_retries (d_bios d) (chs_of (unat (d_heads d)) (unat (d_spt d)) k)"

definition disk_status :: "tx_disk \<Rightarrow> nat \<Rightarrow> byte" where
  "disk_status d k = (if disk_read d k = None then STATUS_BAD else STATUS_GOOD)"

definition disk_bytes :: "tx_disk \<Rightarrow> nat \<Rightarrow> byte list" where
  "disk_bytes d k = (case disk_read d k of None \<Rightarrow> replicate BPS BAD_FILL | Some buf \<Rightarrow> buf)"

text \<open>A successful read of the BIOS fills the sector buffer.\<close>

definition bios_sized :: "tx_disk \<Rightarrow> bool" where
  "bios_sized d \<longleftrightarrow> (\<forall>c t buf. d_bios d c t = Some buf \<longrightarrow> length buf = BPS)"

lemma read_from_sized:
  assumes "\<And>c t buf. rd c t = Some buf \<Longrightarrow> length buf = n" "read_from rd c t m = Some buf"
  shows "length buf = n"
  using assms(2) by (induction m arbitrary: t) (auto split: option.splits intro: assms(1))

lemma length_disk_bytes:
  assumes "bios_sized d"
  shows "length (disk_bytes d k) = BPS"
proof -
  have "length buf = BPS" if "disk_read d k = Some buf" for buf
    using assms that read_from_sized [of "d_bios d" BPS]
    unfolding disk_read_def read_with_retries_def bios_sized_def by blast
  then show ?thesis by (simp add: disk_bytes_def split: option.split)
qed

definition tx_lbas :: "(32 word \<times> 32 word) list \<Rightarrow> nat list" where
  "tx_lbas rs = concat (map (\<lambda>(a, b). [unat a..<unat b]) rs)"

lemma next_sector_end:
  "tx_lbas (tx_ranges x) = [] \<Longrightarrow>
     next_sector d x = (x\<lparr>tx_phase := TxEot 0, tx_ranges := []\<rparr>, eot_frame (tx_good x) (tx_bad x))"
proof (induction d x rule: next_sector.induct)
  case (1 d x)
  show ?case
  proof (cases "tx_ranges x")
    case Nil
    then have "x\<lparr>tx_phase := TxEot 0, tx_ranges := []\<rparr> = x\<lparr>tx_phase := TxEot 0\<rparr>"
      by (metis tx_state.surjective tx_state.update_convs(1,2))
    with Nil show ?thesis by (simp add: next_sector.simps)
  next
    case (Cons r rs)
    obtain a b where r: "r = (a, b)" by (cases r)
    with Cons 1(2) have "\<not> a < b" "tx_lbas rs = []" by (auto simp: tx_lbas_def word_less_nat_alt)
    with 1(1) [OF Cons r [symmetric]] Cons r show ?thesis by (simp add: next_sector.simps [of d x])
  qed
qed

lemma next_sector_data:
  assumes "tx_lbas (tx_ranges x) = k # ks"
  obtains x' where
    "next_sector d x = (x', data_frame (word_of_nat k) (disk_status d k) (disk_bytes d k))"
    "tx_phase x' = TxData 0" "tx_lbas (tx_ranges (advance x')) = ks"
    "tx_good x' = tx_good x + of_bool (disk_read d k \<noteq> None)"
    "tx_bad x' = tx_bad x + of_bool (disk_read d k = None)"
    "data_frame (fst (hd (tx_ranges x'))) (tx_status x') (tx_buf x') =
       data_frame (word_of_nat k) (disk_status d k) (disk_bytes d k)"
proof -
  have "\<exists>x'. next_sector d x = (x', data_frame (word_of_nat k) (disk_status d k) (disk_bytes d k)) \<and>
      tx_phase x' = TxData 0 \<and> tx_lbas (tx_ranges (advance x')) = ks \<and>
      tx_good x' = tx_good x + of_bool (disk_read d k \<noteq> None) \<and>
      tx_bad x' = tx_bad x + of_bool (disk_read d k = None) \<and>
      data_frame (fst (hd (tx_ranges x'))) (tx_status x') (tx_buf x') =
        data_frame (word_of_nat k) (disk_status d k) (disk_bytes d k)"
    using assms
  proof (induction d x rule: next_sector.induct)
    case (1 d x)
    then obtain a b rs where x: "tx_ranges x = (a, b) # rs"
      by (cases "tx_ranges x") (auto simp: tx_lbas_def)
    show ?case
    proof (cases "a < b")
      case False
      with 1(2) x have "tx_lbas rs = k # ks" by (simp add: tx_lbas_def word_less_nat_alt)
      with 1(1) [OF x refl False] x False show ?thesis by (simp add: next_sector.simps [of d x])
    next
      case True
      then have lt: "unat a < unat b" by (simp add: word_less_nat_alt)
      with 1(2) x have k: "k = unat a" and ks: "ks = [Suc (unat a)..<unat b] @ tx_lbas rs"
        by (auto simp: tx_lbas_def upt_conv_Cons)
      have a: "a = word_of_nat k" by (simp add: k)
      have "unat (a + 1) = Suc (unat a)"
        using lt unsigned_less [of b, where 'a = nat] by (simp add: unat_word_ariths)
      then have rest: "tx_lbas ((a + 1, b) # rs) = ks" by (simp add: ks tx_lbas_def)
      show ?thesis
        using x True rest
        by (cases "disk_read d k")
           (simp_all add: next_sector.simps [of d x] disk_status_def disk_bytes_def advance_def
             disk_read_def k)
    qed
  qed
  with that show thesis by blast
qed

text \<open>The geometry the sender announces.\<close>

definition disk_geometry :: "tx_disk \<Rightarrow> geometry" where
  "disk_geometry d =
     \<lparr>g_total = unat (d_total d), g_cyls = unat (d_cyls d), g_heads = unat (d_heads d),
      g_spt = unat (d_spt d), g_bps = BPS\<rparr>"

section \<open>The worklists a capture sends\<close>

lemma choose_worklist_ok:
  assumes "choose_worklist opts sm t = Inr wl"
  shows "length wl \<le> MAXR" "\<forall>(a, b)\<in>set wl. a \<le> b \<and> b \<le> t"
proof -
  have "length wl \<le> MAXR \<and> (\<forall>(a, b)\<in>set wl. a \<le> b \<and> b \<le> t)"
  proof (cases "opt_range opts = []")
    case True
    with assms have wl: "wl = build_worklist sm t (opt_resume opts)" by (simp add: choose_worklist_def)
    show ?thesis
    proof (cases "opt_resume opts")
      case resume: True
      have "\<forall>(a, b)\<in>set wl. a \<le> b \<and> b \<le> t"
        using wf_runs_mem [OF worklist_resume_wf [of t sm]] wl resume by fastforce
      with worklist_resume_length [of sm t] wl resume show ?thesis by simp
    next
      case False
      with wl show ?thesis by (simp add: worklist_fresh MAXR_def)
    qed
  next
    case False
    with assms have "parse_ranges_spec (opt_range opts) t = Inr wl" by (simp add: choose_worklist_def)
    from parse_ranges_valid [OF this] show ?thesis
      by (auto simp: list_all_iff valid_range_def)
  qed
  then show "length wl \<le> MAXR" "\<forall>(a, b)\<in>set wl. a \<le> b \<and> b \<le> t" by auto
qed

lemma tx_lbas_words:
  assumes "\<forall>(a, b)\<in>set ws. a < 2 ^ 32 \<and> b < 2 ^ 32"
  shows "tx_lbas (range_words ws) = lbas_of ws"
  using assms
  by (induction ws) (auto simp: tx_lbas_def unat_of_nat take_bit_nat_eq_self)

section \<open>What the sender sends for a sector\<close>

text \<open>The journal entry the sender's frame for a sector makes.\<close>

definition disk_frame :: "tx_disk \<Rightarrow> nat \<Rightarrow> sector_frame" where
  "disk_frame d k =
     (let hdr = le_bytes 4 k @ [disk_status d k]
      in (hdr, disk_bytes d k, crc16 (TYPE_DATA # hdr @ disk_bytes d k)))"

lemma data_frame_eq:
  "k < 2 ^ 32 \<Longrightarrow> data_frame (word_of_nat k) st buf = frame TYPE_DATA ((le_bytes 4 k @ [st]) @ buf)"
  unfolding data_frame_def append_Cons append_Nil append.assoc tx_frame_eq bytes32_le
  by (simp add: unat_of_nat take_bit_nat_eq_self)

lemma eot_frame_eq: "eot_frame good bad = frame TYPE_EOT (le_bytes 4 (unat good) @ le_bytes 4 (unat bad))"
  unfolding eot_frame_def append_Cons append_Nil append.assoc tx_frame_eq bytes32_le ..

section \<open>The start of a capture\<close>

text \<open>The sender takes the worklist and answers with its first sector.\<close>

lemma tx_worklist:
  assumes "tx_phase x = TxHunt n" "cmd_payload wl = Inr p"
    and "length wl \<le> MAXR" "\<forall>(a, b)\<in>set wl. a < 2 ^ 32 \<and> b < 2 ^ 32"
  obtains x' where "tx_bytes d (frame TYPE_CMD p) x = next_sector d x'"
    "tx_lbas (tx_ranges x') = lbas_of wl" "tx_good x' = tx_good x" "tx_bad x' = tx_bad x"
proof -
  let ?bs = "tl (frame TYPE_CMD p)"
  let ?x = "x\<lparr>tx_phase := TxCmd (butlast ?bs), tx_ranges := range_words wl\<rparr>"
  have "tx_bytes d (frame TYPE_CMD p) x = next_sector d ?x"
    using tx_bytes_command [OF parse_cmd_frame [OF assms(4,3,2) refl] assms(1)]
    by (simp add: frame_simp)
  then show thesis
    using tx_lbas_words [OF assms(4)] by (intro that [of ?x]) simp_all
qed

context serial_line
begin

text \<open>A try of the handshake on the sender's \<open>INFO\<close>, after any bytes that are not \<open>SOH\<close>.\<close>

lemma info_received:
  assumes "inq s = pre @ send_info d" "SOH \<notin> set pre"
  obtains p s' where "info_try P s = Some (Inr (Some p), s')" "inq s' = []" "peer s' = peer s"
    "from_bytes_le (py_slice 0 4 p) = unat (d_total d)" "from_bytes_le (py_slice 4 6 p) = unat (d_cyls d)"
    "from_bytes_le (py_slice 6 8 p) = unat (d_heads d)" "from_bytes_le (py_slice 8 10 p) = unat (d_spt d)"
    "from_bytes_le (py_slice 10 12 p) = BPS"
proof -
  let ?p = "le_bytes 4 (unat (d_total d)) @ le_bytes 2 (unat (d_cyls d)) @ le_bytes 2 (unat (d_heads d)) @
    le_bytes 2 (unat (d_spt d)) @ le_bytes 2 BPS"
  have bps: "unat (word_of_nat BPS :: 16 word) = BPS" by (simp add: BPS_def)
  have info: "send_info d = frame TYPE_INFO ?p"
    unfolding send_info_def tx_info_def append_Cons append_Nil append.assoc tx_frame_eq
      bytes32_le bytes16_le bps ..
  obtain s1 where s1: "info_try P s = Some (Inr (Some ?p), s1)" "inq s1 = []" "peer s1 = peer s"
    by (rule info_try_ok [of s pre ?p "[]"]) (use assms info in simp_all)
  have "unat (d_total d) < 2 ^ 32" "unat (d_cyls d) < 65536" "unat (d_heads d) < 65536" "unat (d_spt d) < 65536"
    using unsigned_less [of "d_total d"] unsigned_less [of "d_cyls d"] unsigned_less [of "d_heads d"]
      unsigned_less [of "d_spt d"] by simp_all
  with s1 show thesis by (intro that [of ?p s1]) (simp_all add: py_slice_def BPS_def)
qed

lemma handshake:
  assumes "inq s = pre @ send_info d" "SOH \<notin> set pre"
  obtains s' where "info_handshake P s = Some (Inr (disk_geometry d), s')" "inq s' = []" "peer s' = peer s"
proof -
  obtain p s1 where "info_try P s = Some (Inr (Some p), s1)" "inq s1 = []" "peer s1 = peer s"
    "decode_info p = disk_geometry d"
    by (rule info_received [OF assms]) (simp add: decode_info_def disk_geometry_def)
  then show thesis by (intro that [of s1]) (simp_all add: info_handshake_def retry_first)
qed

text \<open>From the first \<open>INFO\<close> to the receive loop.\<close>

lemma capture_start:
  fixes opts fs s d
  defines "t \<equiv> unat (d_total d)"
  assumes "inq s = pre @ send_info d" "SOH \<notin> set pre"
    and "open_image opts fs t BPS = Inr (f, sm)"
    and worklist: "choose_worklist opts sm t = Inr wl"
  obtains p s2 where "cmd_payload wl = Inr p" "(peer s2, inq s2) = react (frame TYPE_CMD p) (peer s)"
    "length wl \<le> MAXR" "\<forall>(a, b)\<in>set wl. a < 2 ^ 32 \<and> b < 2 ^ 32"
    "capture P opts fs s =
      (case recv_loop P t BPS p (\<lparr>rx_image = f, rx_map = sm, rx_bad = int (count_status BAD sm),
           rx_received = 0\<rparr>, s2) of
         None \<Rightarrow> None
       | Some (ending, r, s3) \<Rightarrow> Some (Captured (finish_capture opts t BPS ending r), s3))"
proof -
  have t: "t < 2 ^ 32" unfolding t_def using unsigned_less [of "d_total d"] by simp
  note wl = choose_worklist_ok [OF worklist]
  have wl32: "\<forall>(a, b)\<in>set wl. a < 2 ^ 32 \<and> b < 2 ^ 32" using wl(2) t by fastforce
  obtain s1 where s1: "info_handshake P s = Some (Inr (disk_geometry d), s1)" "inq s1 = []" "peer s1 = peer s"
    using assms(2,3) by (rule handshake)
  obtain p where p: "cmd_payload wl = Inr p"
    using cmd_payload_Inr [OF wl32] wl(1) by (simp add: MAXR_def)
  obtain s2 where s2: "ser_write P (frame TYPE_CMD p) s1 = (None, s2)"
    "(peer s2, inq s2) = (fst (react (frame TYPE_CMD p) (peer s1)),
       inq s1 @ snd (react (frame TYPE_CMD p) (peer s1)))"
    by (rule ser_write_ok)
  with s1 p assms(4,5) wl(1) wl32 show thesis
    by (intro that [of p s2])
       (simp_all add: capture_def disk_geometry_def Let_def t_def [symmetric] send_command_def send_frame_def)
qed

end

section \<open>The receive loop against a sender\<close>

text \<open>
  A sender that has its worklist: with the frame of the next sector on the line, it answers
  each \<open>ACK\<close> with the frame after it and at last with its totals; \<open>fin\<close> are its final states.
\<close>

fun offers ::
  "(byte list \<Rightarrow> 'p \<Rightarrow> 'p \<times> byte list) \<Rightarrow> ('p \<Rightarrow> bool) \<Rightarrow> tx_disk \<Rightarrow> nat list \<Rightarrow> 32 word \<Rightarrow> 32 word \<Rightarrow>
    'p \<times> byte list \<Rightarrow> bool" where
  "offers react fin d [] good bad x \<longleftrightarrow>
     snd x = eot_frame good bad \<and> fin (fst (react [ACK] (fst x)))"
| "offers react fin d (k # ks) good bad x \<longleftrightarrow>
     snd x = data_frame (word_of_nat k) (disk_status d k) (disk_bytes d k) \<and>
     offers react fin d ks (good + of_bool (disk_read d k \<noteq> None)) (bad + of_bool (disk_read d k = None))
       (react [ACK] (fst x))"

lemma dos_offers:
  "tx_lbas (tx_ranges x) = ks \<Longrightarrow>
     offers (tx_bytes d) (\<lambda>y. tx_phase y = TxDone) d ks (tx_good x) (tx_bad x) (next_sector d x)"
proof (induction ks arbitrary: x)
  case Nil
  then show ?case by (simp add: next_sector_end tx_byte_def)
next
  case (Cons k ks)
  obtain x' where x':
    "next_sector d x = (x', data_frame (word_of_nat k) (disk_status d k) (disk_bytes d k))"
    "tx_phase x' = TxData 0" "tx_lbas (tx_ranges (advance x')) = ks"
    "tx_good x' = tx_good x + of_bool (disk_read d k \<noteq> None)"
    "tx_bad x' = tx_bad x + of_bool (disk_read d k = None)"
    by (rule next_sector_data [OF Cons.prems, of d])
  have "tx_good (advance x') = tx_good x'" "tx_bad (advance x') = tx_bad x'"
    by (simp_all add: advance_def split: list.split)
  with Cons.IH [OF x'(3)] x' show ?case by (simp add: tx_byte_def case_prod_unfold)
qed

context serial_line
begin

lemma offered_loop:
  assumes "offers react fin d ks good bad (peer s, inq s)"
    and "\<forall>k\<in>set ks. k < t" "t \<le> 2 ^ 32" "bios_sized d" "length (rx_map r) = t"
  shows "\<exists>s'. recv_loop P t BPS cmd (r, s) =
      Some (Inr (unat (good + of_nat (length (filter (\<lambda>k. disk_read d k \<noteq> None) ks))),
                 unat (bad + of_nat (length (filter (\<lambda>k. disk_read d k = None) ks)))),
            replay BPS (map (disk_frame d) ks) r, s') \<and> fin (peer s')"
  using assms
proof (induction ks arbitrary: s good bad r)
  case Nil
  have lt: "unat good < 2 ^ 32" "unat bad < 2 ^ 32"
    using unsigned_less [of good] unsigned_less [of bad] by simp_all
  have "inq s = eot_frame good bad" using Nil by simp
  then obtain s' where s':
    "recv_step P t BPS cmd (r, s) = Some (Inl (Inr (unat good, unat bad), r, s'))"
    "(peer s', inq s') = react [ACK] (peer s)"
    by (rule eot_round [OF _ lt, folded eot_frame_eq])
  then have "fin (peer s')" using Nil by (metis fst_conv offers.simps(1))
  with s'(1) show ?case by (simp add: recv_loop_def while_true_break)
next
  case (Cons k ks)
  let ?r = "stored BPS k (disk_status d k) (disk_bytes d k) r"
  have k: "k < t" "k < 2 ^ 32" using Cons.prems by auto
  obtain s1 where s1: "recv_step P t BPS cmd (r, s) = Some (Inr (?r, s1))"
    "(peer s1, inq s1) = react [ACK] (peer s)"
    by (rule data_round [of s k "disk_status d k" "disk_bytes d k" BPS t r cmd])
       (use Cons.prems k in \<open>simp_all add: length_disk_bytes data_frame_eq [OF k(2)]\<close>)
  from Cons.IH [of "good + of_bool (disk_read d k \<noteq> None)" "bad + of_bool (disk_read d k = None)" s1 ?r]
    Cons.prems s1(2) obtain s' where
    "recv_loop P t BPS cmd (?r, s1) =
      Some (Inr (unat (good + of_bool (disk_read d k \<noteq> None) + of_nat (length (filter (\<lambda>k. disk_read d k \<noteq> None) ks))),
                 unat (bad + of_bool (disk_read d k = None) + of_nat (length (filter (\<lambda>k. disk_read d k = None) ks)))),
            replay BPS (map (disk_frame d) ks) ?r, s')" "fin (peer s')"
    by auto
  moreover have "recv_loop P t BPS cmd (r, s) = recv_loop P t BPS cmd (?r, s1)"
    using s1(1) by (simp add: recv_loop_def while_true_continue)
  moreover have "replay BPS (map (disk_frame d) (k # ks)) r = replay BPS (map (disk_frame d) ks) ?r"
    using Cons.prems by (simp add: disk_frame_def Let_def frame_lba_le nth_hdr)
  ultimately show ?case
    by (intro exI [of _ s']) (simp add: ac_simps)
qed

lemma offered_session:
  fixes opts fs s d
  defines "t \<equiv> unat (d_total d)"
  assumes "inq s = pre @ send_info d" "SOH \<notin> set pre"
    and sized: "bios_sized d"
    and image: "open_image opts fs t BPS = Inr (f, sm)"
    and worklist: "choose_worklist opts sm t = Inr wl"
    and offered: "\<And>p. cmd_payload wl = Inr p \<Longrightarrow> length wl \<le> MAXR \<Longrightarrow> \<forall>(a, b)\<in>set wl. a < 2 ^ 32 \<and> b < 2 ^ 32 \<Longrightarrow>
      offers react fin d (lbas_of wl) 0 0 (react (frame TYPE_CMD p) (peer s))"
  shows "\<exists>s'. capture P opts fs s =
      Some (Captured (finish_capture opts t BPS
        (Inr (length (filter (\<lambda>k. disk_read d k \<noteq> None) (lbas_of wl)) mod 2 ^ 32,
              length (filter (\<lambda>k. disk_read d k = None) (lbas_of wl)) mod 2 ^ 32))
        (replay BPS (map (disk_frame d) (lbas_of wl))
          \<lparr>rx_image = f, rx_map = sm, rx_bad = int (count_status BAD sm), rx_received = 0\<rparr>)), s')
    \<and> fin (peer s')"
proof -
  have no_wrap: "t \<le> 2 ^ 32" unfolding t_def using unsigned_less [of "d_total d", where 'a = nat] by simp
  have below: "\<forall>k\<in>set (lbas_of wl). k < t"
    using choose_worklist_ok(2) [OF worklist] by (fastforce simp: covered_def)
  obtain p s2 where p: "cmd_payload wl = Inr p" "(peer s2, inq s2) = react (frame TYPE_CMD p) (peer s)"
    "length wl \<le> MAXR" "\<forall>(a, b)\<in>set wl. a < 2 ^ 32 \<and> b < 2 ^ 32"
    and run: "capture P opts fs s =
      (case recv_loop P t BPS p (\<lparr>rx_image = f, rx_map = sm, rx_bad = int (count_status BAD sm),
           rx_received = 0\<rparr>, s2) of
         None \<Rightarrow> None
       | Some (ending, r, s3) \<Rightarrow> Some (Captured (finish_capture opts t BPS ending r), s3))"
    by (rule capture_start [OF assms(2,3) image [unfolded t_def] worklist [unfolded t_def], folded t_def])
  let ?r = "\<lparr>rx_image = f, rx_map = sm, rx_bad = int (count_status BAD sm), rx_received = 0\<rparr>"
  have "offers react fin d (lbas_of wl) 0 0 (peer s2, inq s2)"
    using offered [OF p(1,3,4)] by (simp add: p(2))
  then obtain s3 where "recv_loop P t BPS p (?r, s2) =
      Some (Inr (length (filter (\<lambda>k. disk_read d k \<noteq> None) (lbas_of wl)) mod 2 ^ 32,
                 length (filter (\<lambda>k. disk_read d k = None) (lbas_of wl)) mod 2 ^ 32),
            replay BPS (map (disk_frame d) (lbas_of wl)) ?r, s3)" "fin (peer s3)"
    using offered_loop [OF _ below no_wrap sized, of fin 0 0 s2 ?r p] open_image_length [OF image]
    by (auto simp: unat_of_nat take_bit_eq_mod)
  with run show ?thesis by (intro exI [of _ s3]) simp
qed

end

section \<open>What the session leaves in the image and the map\<close>

lemma disk_journal:
  assumes "\<forall>k\<in>set ks. k < t" "t \<le> 2 ^ 32" "bios_sized d"
  shows "journal_ok t (map (disk_frame d) ks)" "journal_sized BPS (map (disk_frame d) ks)"
    and "last_frame k (map (disk_frame d) ks) = (if k \<in> set ks then Some (disk_frame d k) else None)"
proof -
  show "journal_ok t (map (disk_frame d) ks)"
    using assms(1,2) by (induction ks) (auto simp: accepted_def disk_frame_def Let_def frame_lba_le)
  show "journal_sized BPS (map (disk_frame d) ks)"
    using assms(3) by (induction ks) (auto simp: disk_frame_def Let_def length_disk_bytes)
  show "last_frame k (map (disk_frame d) ks) = (if k \<in> set ks then Some (disk_frame d k) else None)"
    using assms(1,2)
  proof (induction ks rule: rev_induct)
    case (snoc j ks)
    then show ?case by (auto simp: disk_frame_def Let_def frame_lba_le)
  qed simp
qed

lemma session_map:
  assumes "\<forall>k\<in>set ks. k < t" "t \<le> 2 ^ 32" "bios_sized d" "length (rx_map r) = t" "k < t"
  shows "rx_map (replay BPS (map (disk_frame d) ks) r) ! k =
    (if k \<in> set ks then (if disk_read d k = None then BAD else GOOD) else rx_map r ! k)"
  using replay_map [OF disk_journal(1) [OF assms(1-3)] assms(4,5)] disk_journal(3) [OF assms(1-3)]
  by (simp add: disk_frame_def Let_def status_of_def disk_status_def nth_append)

lemma session_image:
  assumes "\<forall>k\<in>set ks. k < t" "t \<le> 2 ^ 32" "bios_sized d" "t * BPS \<le> length (rx_image r)" "k < t"
  shows "file_read_at (k * BPS) BPS (rx_image (replay BPS (map (disk_frame d) ks) r)) =
      (if k \<in> set ks then disk_bytes d k else file_read_at (k * BPS) BPS (rx_image r))"
    and "length (rx_image (replay BPS (map (disk_frame d) ks) r)) = length (rx_image r)"
  using replay_image [OF disk_journal(1,2) [OF assms(1-3)] assms(4,5)] disk_journal(3) [OF assms(1-3)]
  by (simp_all add: disk_frame_def Let_def)

section \<open>The line as a queue\<close>

text \<open>
  The state of the line: the host's timeout, the device, the bytes on their way to the host.
  A read that would have to wait for more than there is returns what there is, and the wait
  of the device expires with it (\<open>expire\<close>).
\<close>

type_synonym 'p line = "rat \<times> 'p \<times> byte list"

definition line_port ::
  "(byte list \<Rightarrow> 'p \<Rightarrow> 'p \<times> byte list) \<Rightarrow> ('p \<Rightarrow> 'p \<times> byte list) \<Rightarrow> 'p line port" where
  "line_port react expire =
     \<lparr>ser_read = (\<lambda>n (t, p, q).
        if n \<le> length q then (Inr (take n q), t, p, drop n q)
        else (let (p', out) = expire p in (Inr q, t, p', out))),
      ser_write = (\<lambda>bs (t, p, q). let (p', out) = react bs p in (None, t, p', q @ out)),
      ser_reset_input = (\<lambda>(t, p, q). (None, t, p, [])),
      ser_timeout = fst,
      ser_set_timeout = (\<lambda>t (_, p, q). (t, p, q))\<rparr>"

definition line_queue :: "'p line \<Rightarrow> byte list" where
  "line_queue s = snd (snd s)"

definition line_peer :: "'p line \<Rightarrow> 'p" where
  "line_peer s = fst (snd s)"

interpretation line: serial_line "line_port react expire" line_queue line_peer react
  for react :: "byte list \<Rightarrow> 'p \<Rightarrow> 'p \<times> byte list" and expire
  by unfold_locales (auto simp: line_port_def line_queue_def line_peer_def case_prod_unfold Let_def)

definition dos_port :: "tx_disk \<Rightarrow> tx_state line port" where
  "dos_port d = line_port (tx_bytes d) (tx_timeout d)"

interpretation dos: serial_line "dos_port d" line_queue line_peer "tx_bytes d" for d
  unfolding dos_port_def by (rule line.serial_line_axioms)

lemma dos_port_bounded: "port_bounded (dos_port d)"
  by (auto simp: port_bounded_def dos_port_def line_port_def Let_def case_prod_unfold split: if_splits)

text \<open>The sender as it starts: its first \<open>INFO\<close> on the line, waiting for the command.\<close>

definition session_start :: "tx_disk \<Rightarrow> rat \<Rightarrow> tx_state line" where
  "session_start d timeout = (timeout, tx_init, send_info d)"

lemma session_start_simps:
  "line_queue (session_start d timeout) = [] @ send_info d"
  "tx_phase (line_peer (session_start d timeout)) = TxHunt 0"
  "tx_good (line_peer (session_start d timeout)) = 0" "tx_bad (line_peer (session_start d timeout)) = 0"
  by (simp_all add: session_start_def line_queue_def line_peer_def tx_init_def)

lemma fresh_image: "\<not> opt_resume opts \<Longrightarrow> opt_range opts = [] \<Longrightarrow>
    open_image opts fs t bps = Inr (file_truncate (t * bps) [], replicate t UNTRIED)"
  by (simp add: open_image_def split: option.split)

lemma fresh_worklist: "\<not> opt_resume opts \<Longrightarrow> opt_range opts = [] \<Longrightarrow>
    choose_worklist opts sm t = Inr [(0, t)]"
  by (simp add: choose_worklist_def worklist_fresh)

text \<open>What storing the sectors \<open>ls\<close>, all of the worklist, leaves in image and map.\<close>

lemma session_result:
  fixes f sm d
  defines "t \<equiv> unat (d_total d)"
    and "r \<equiv> \<lparr>rx_image = f, rx_map = sm, rx_bad = int (count_status BAD sm), rx_received = 0\<rparr>"
  assumes "bios_sized d" "t * BPS \<le> length f" "length sm = t"
    and "choose_worklist opts sm t = Inr wl" "set ls = set (lbas_of wl)"
  shows "length (rx_map (replay BPS (map (disk_frame d) ls) r)) = t
    \<and> length (rx_image (replay BPS (map (disk_frame d) ls) r)) = length f
    \<and> (\<forall>k<t.
         file_read_at (k * BPS) BPS (rx_image (replay BPS (map (disk_frame d) ls) r)) =
           (if k \<in> covered wl then disk_bytes d k else file_read_at (k * BPS) BPS f)
         \<and> rx_map (replay BPS (map (disk_frame d) ls) r) ! k =
           (if k \<in> covered wl then (if disk_read d k = None then BAD else GOOD) else sm ! k))"
proof -
  have t: "t \<le> 2 ^ 32" using unsigned_less [of "d_total d", where 'a = nat] by (simp add: t_def)
  have below: "\<forall>k\<in>set ls. k < t"
    using choose_worklist_ok(2) [OF assms(6)] assms(7) by (fastforce simp: covered_def)
  have len: "length (rx_map r) = t" "t * BPS \<le> length (rx_image r)" using assms(4,5) by (simp_all add: r_def)
  have "length (rx_image (replay BPS (map (disk_frame d) ls) r)) = length f"
  proof (cases "t = 0")
    case True
    with below have "ls = []" by (cases ls) auto
    then show ?thesis by (simp add: r_def)
  next
    case False
    then have "0 < t" by simp
    from session_image(2) [OF below t assms(3) len(2) this] show ?thesis by (simp add: r_def)
  qed
  with session_map [OF below t assms(3) len(1)] session_image(1) [OF below t assms(3) len(2)]
  show ?thesis by (simp add: assms(5,7) r_def)
qed

text \<open>Image and map on any worklist, whatever the sender is.\<close>

context serial_line
begin

lemma offered_run:
  assumes "inq s = send_info d" "bios_sized d"
    and "open_image opts fs (unat (d_total d)) BPS = Inr (f, sm)"
    and "unat (d_total d) * BPS \<le> length f" and "length sm = unat (d_total d)"
    and "choose_worklist opts sm (unat (d_total d)) = Inr wl"
    and offered: "\<And>p. cmd_payload wl = Inr p \<Longrightarrow> length wl \<le> MAXR \<Longrightarrow> \<forall>(a, b)\<in>set wl. a < 2 ^ 32 \<and> b < 2 ^ 32 \<Longrightarrow>
      offers react fin d (lbas_of wl) 0 0 (react (frame TYPE_CMD p) (peer s))"
  shows "\<exists>out s'. capture P opts fs s = Some (Captured out, s')
    \<and> fin (peer s')
    \<and> cap_end out = Inr (length (filter (\<lambda>k. disk_read d k \<noteq> None) (lbas_of wl)) mod 2 ^ 32,
                       length (filter (\<lambda>k. disk_read d k = None) (lbas_of wl)) mod 2 ^ 32)
    \<and> cap_mapfile out = write_mapfile (rx_map (cap_state out)) BPS (unat (d_total d))
    \<and> length (rx_map (cap_state out)) = unat (d_total d)
    \<and> length (rx_image (cap_state out)) = length f
    \<and> (\<forall>k<unat (d_total d).
         file_read_at (k * BPS) BPS (rx_image (cap_state out)) =
           (if k \<in> covered wl then disk_bytes d k else file_read_at (k * BPS) BPS f)
         \<and> rx_map (cap_state out) ! k =
           (if k \<in> covered wl then (if disk_read d k = None then BAD else GOOD) else sm ! k))"
proof -
  let ?t = "unat (d_total d)"
  let ?r = "\<lparr>rx_image = f, rx_map = sm, rx_bad = int (count_status BAD sm), rx_received = 0\<rparr>"
  let ?ending = "Inr (length (filter (\<lambda>k. disk_read d k \<noteq> None) (lbas_of wl)) mod 2 ^ 32,
    length (filter (\<lambda>k. disk_read d k = None) (lbas_of wl)) mod 2 ^ 32)"
  let ?out = "finish_capture opts ?t BPS ?ending (replay BPS (map (disk_frame d) (lbas_of wl)) ?r)"
  have queue: "inq s = [] @ send_info d" and no_soh: "SOH \<notin> set []" using assms(1) by simp_all
  obtain s' where run: "capture P opts fs s = Some (Captured ?out, s')" "fin (peer s')"
    using offered_session [OF queue no_soh assms(2,3,6) offered] by blast
  from session_result [OF assms(2,4-6) refl] run show ?thesis
    by (intro exI [of _ ?out] exI [of _ s']) (simp add: finish_capture_def Let_def)
qed

end

text \<open>The C program is such a sender.\<close>

lemma clean_run:
  assumes "bios_sized d"
    and "open_image opts fs (unat (d_total d)) BPS = Inr (f, sm)"
    and "unat (d_total d) * BPS \<le> length f" and "length sm = unat (d_total d)"
    and "choose_worklist opts sm (unat (d_total d)) = Inr wl"
  shows "\<exists>out s'. capture (dos_port d) opts fs (session_start d timeout) = Some (Captured out, s')
    \<and> tx_phase (line_peer s') = TxDone
    \<and> cap_end out = Inr (length (filter (\<lambda>k. disk_read d k \<noteq> None) (lbas_of wl)) mod 2 ^ 32,
                       length (filter (\<lambda>k. disk_read d k = None) (lbas_of wl)) mod 2 ^ 32)
    \<and> cap_mapfile out = write_mapfile (rx_map (cap_state out)) BPS (unat (d_total d))
    \<and> length (rx_map (cap_state out)) = unat (d_total d)
    \<and> length (rx_image (cap_state out)) = length f
    \<and> (\<forall>k<unat (d_total d).
         file_read_at (k * BPS) BPS (rx_image (cap_state out)) =
           (if k \<in> covered wl then disk_bytes d k else file_read_at (k * BPS) BPS f)
         \<and> rx_map (cap_state out) ! k =
           (if k \<in> covered wl then (if disk_read d k = None then BAD else GOOD) else sm ! k))"
proof (rule dos.offered_run [OF _ assms, where fin = "\<lambda>y. tx_phase y = TxDone"])
  show "line_queue (session_start d timeout) = send_info d" by (simp add: session_start_def line_queue_def)
next
  fix p
  assume p: "cmd_payload wl = Inr p" "length wl \<le> MAXR" "\<forall>(a, b)\<in>set wl. a < 2 ^ 32 \<and> b < 2 ^ 32"
  obtain x where "tx_bytes d (frame TYPE_CMD p) (line_peer (session_start d timeout)) = next_sector d x"
    "tx_lbas (tx_ranges x) = lbas_of wl" "tx_good x = 0" "tx_bad x = 0"
    using tx_worklist [OF session_start_simps(2) [of d timeout] p] session_start_simps(3,4) by metis
  with dos_offers [OF this(2), of d] show "offers (tx_bytes d) (\<lambda>y. tx_phase y = TxDone) d (lbas_of wl) 0 0
      (tx_bytes d (frame TYPE_CMD p) (line_peer (session_start d timeout)))" by simp
qed

text \<open>A disk of two sectors: the first is read on the third attempt, the second never.\<close>

definition sample_disk :: tx_disk where
  "sample_disk =
     \<lparr>d_total = 2, d_cyls = 1, d_heads = 1, d_spt = 2,
      d_bios = (\<lambda>c t. if c = (0, 0, 1) \<and> 2 \<le> t then Some (replicate BPS 7) else None)\<rparr>"

definition fresh_opts :: capture_opts where
  "fresh_opts = \<lparr>opt_resume = False, opt_range = [], opt_verify = False\<rparr>"

definition no_files :: capture_files where
  "no_files = \<lparr>f_image = None, f_mapfile = None\<rparr>"

lemma sample_disk_sized: "bios_sized sample_disk"
  by (simp add: bios_sized_def sample_disk_def)

lemma sample_disk_reads:
  "disk_read sample_disk 0 = Some (replicate BPS 7)" "disk_read sample_disk 1 = None"
  "disk_bytes sample_disk 0 = replicate BPS 7" "disk_bytes sample_disk 1 = replicate BPS 0"
  "unat (d_total sample_disk) = 2"
proof -
  have tries: "read_from rd c 0 READ_TRIES =
      (case rd c 0 of Some b \<Rightarrow> Some b | None \<Rightarrow> case rd c 1 of Some b \<Rightarrow> Some b | None \<Rightarrow>
       case rd c 2 of Some b \<Rightarrow> Some b | None \<Rightarrow> case rd c 3 of Some b \<Rightarrow> Some b | None \<Rightarrow> rd c 4)" for rd c
    by (simp add: READ_TRIES_def eval_nat_numeral split: option.split)
  show "disk_read sample_disk 0 = Some (replicate BPS 7)" "disk_read sample_disk 1 = None"
    by (simp_all add: disk_read_def read_with_retries_def tries sample_disk_def chs_of_def)
  then show "disk_bytes sample_disk 0 = replicate BPS 7" "disk_bytes sample_disk 1 = replicate BPS 0"
    by (simp_all add: disk_bytes_def BAD_FILL_def)
  show "unat (d_total sample_disk) = 2" by (simp add: sample_disk_def)
qed

section \<open>Properties\<close>

text \<open>C3: On a line that loses nothing, every capture that has an image and a worklist comes to
  its end: the sender's totals count the readable and the unreadable sectors of the worklist,
  each of these sectors has its bytes in the image (zeros where the disk could not be read)
  and its status in the map, and no other sector of image or map has changed.\<close>

theorem clean_capture:
  assumes "bios_sized d"
    and "open_image opts fs (unat (d_total d)) BPS = Inr (f, sm)"
    and "unat (d_total d) * BPS \<le> length f" and "length sm = unat (d_total d)"
    and "choose_worklist opts sm (unat (d_total d)) = Inr wl"
  shows "\<exists>out s'. capture (dos_port d) opts fs (session_start d timeout) = Some (Captured out, s')
    \<and> tx_phase (line_peer s') = TxDone
    \<and> cap_end out = Inr (length (filter (\<lambda>k. disk_read d k \<noteq> None) (lbas_of wl)) mod 2 ^ 32,
                       length (filter (\<lambda>k. disk_read d k = None) (lbas_of wl)) mod 2 ^ 32)
    \<and> cap_mapfile out = write_mapfile (rx_map (cap_state out)) BPS (unat (d_total d))
    \<and> length (rx_map (cap_state out)) = unat (d_total d)
    \<and> length (rx_image (cap_state out)) = length f
    \<and> (\<forall>k<unat (d_total d).
         file_read_at (k * BPS) BPS (rx_image (cap_state out)) =
           (if k \<in> covered wl then disk_bytes d k else file_read_at (k * BPS) BPS f)
         \<and> rx_map (cap_state out) ! k =
           (if k \<in> covered wl then (if disk_read d k = None then BAD else GOOD) else sm ! k))"
  using assms by (rule clean_run)

theorem clean_capture_witness:
  "\<exists>out s'. capture (dos_port sample_disk) fresh_opts no_files (session_start sample_disk 30) = Some (Captured out, s')
    \<and> cap_end out = Inr (1, 1)"
proof -
  have image: "open_image fresh_opts no_files (unat (d_total sample_disk)) BPS =
      Inr (file_truncate (2 * BPS) [], [UNTRIED, UNTRIED])"
    by (simp add: fresh_image fresh_opts_def sample_disk_reads numeral_2_eq_2)
  have wl: "choose_worklist fresh_opts [UNTRIED, UNTRIED] (unat (d_total sample_disk)) = Inr [(0, 2)]"
    by (simp add: fresh_worklist fresh_opts_def sample_disk_reads)
  have two: "[0..<2] = [0, Suc 0]" by (simp add: numeral_2_eq_2)
  show ?thesis
    using clean_capture [OF sample_disk_sized image _ _ wl, of 30] sample_disk_reads
    by (auto simp: two)
qed

text \<open>C2: A fresh capture of a disk on a line that loses nothing leaves the image of the whole
  disk, zeros standing for the sectors that could not be read, and a mapfile that loads back
  as the map of exactly these sectors.\<close>

theorem fresh_capture:
  assumes "bios_sized d" and "\<not> opt_resume opts" "opt_range opts = []"
  shows "\<exists>out s'. capture (dos_port d) opts fs (session_start d timeout) = Some (Captured out, s')
    \<and> rx_image (cap_state out) = concat (map (disk_bytes d) [0..<unat (d_total d)])
    \<and> load_mapfile (cap_mapfile out) (unat (d_total d)) BPS =
        Inr (map (\<lambda>k. if disk_read d k = None then BAD else GOOD) [0..<unat (d_total d)])"
proof -
  let ?t = "unat (d_total d)"
  let ?sm = "map (\<lambda>k. if disk_read d k = None then BAD else GOOD) [0..<?t]"
  have image: "open_image opts fs ?t BPS = Inr (file_truncate (?t * BPS) [], replicate ?t UNTRIED)"
    and wl: "choose_worklist opts (replicate ?t UNTRIED) ?t = Inr [(0, ?t)]"
    using assms(2,3) by (rule fresh_image, rule fresh_worklist)
  have len: "?t * BPS \<le> length (file_truncate (?t * BPS) [])" "length (replicate ?t UNTRIED) = ?t" by simp_all
  obtain out s' where run: "capture (dos_port d) opts fs (session_start d timeout) = Some (Captured out, s')"
    "length (rx_image (cap_state out)) = ?t * BPS"
    "\<forall>k<?t. file_read_at (k * BPS) BPS (rx_image (cap_state out)) = disk_bytes d k
      \<and> rx_map (cap_state out) ! k = (if disk_read d k = None then BAD else GOOD)"
    and saved: "length (rx_map (cap_state out)) = ?t"
      "cap_mapfile out = write_mapfile (rx_map (cap_state out)) BPS ?t"
    using clean_run [OF assms(1) image len wl, of timeout] by auto
  have "rx_map (cap_state out) = ?sm"
    using run(3) saved(1) by (intro nth_equalityI) simp_all
  then have "load_mapfile (cap_mapfile out) ?t BPS = Inr ?sm"
    using load_write_mapfile [of BPS "rx_map (cap_state out)" ?t] saved by (simp add: BPS_def)
  with run show ?thesis
    using image_of_sectors [of "rx_image (cap_state out)" ?t BPS "disk_bytes d"] by blast
qed

theorem fresh_capture_witness:
  "\<exists>out s'. capture (dos_port sample_disk) fresh_opts no_files (session_start sample_disk 30) = Some (Captured out, s')
    \<and> rx_image (cap_state out) = replicate BPS 7 @ replicate BPS 0
    \<and> load_mapfile (cap_mapfile out) 2 BPS = Inr [GOOD, BAD]"
proof -
  have two: "[0..<2] = [0, Suc 0]" by (simp add: numeral_2_eq_2)
  have "\<not> opt_resume fresh_opts" "opt_range fresh_opts = []" by (simp_all add: fresh_opts_def)
  from fresh_capture [OF sample_disk_sized this, of no_files 30] sample_disk_reads show ?thesis
    by (simp add: two)
qed

end
