(* ===== verification/Received.thy ===== *)
theory Received
  imports CaptureCorrect
begin

text \<open>
  What a capture stores arrived on the line, and what it acknowledges is stored. A port that
  also records every byte its reads return and every write asked of it behaves for the program
  like the port itself; in its record the frames of the journal lie one behind the other, whole
  and with their checksums, each with an \<open>ACK\<close> right behind it, and no other \<open>ACK\<close> is sent but
  the one to the totals.
\<close>

section \<open>A port that records what is read and written\<close>

datatype line_event = Got byte | Put "byte list"

definition recording :: "'s port \<Rightarrow> ('s \<times> line_event list) port" where
  "recording P =
     \<lparr>ser_read = (\<lambda>n (s, l).
        (case ser_read P n s of (Inl e, s') \<Rightarrow> (Inl e, s', l) | (Inr bs, s') \<Rightarrow> (Inr bs, s', l @ map Got bs))),
      ser_write = (\<lambda>bs (s, l). let (r, s') = ser_write P bs s in (r, s', l @ [Put bs])),
      ser_reset_input = (\<lambda>(s, l). let (r, s') = ser_reset_input P s in (r, s', l)),
      ser_timeout = (\<lambda>(s, l). ser_timeout P s),
      ser_set_timeout = (\<lambda>t (s, l). (ser_set_timeout P t s, l))\<rparr>"

lemma recording_writes [simp]:
  "ser_write (recording P) bs (s, l) = (fst (ser_write P bs s), snd (ser_write P bs s), l @ [Put bs])"
  "ser_reset_input (recording P) (s, l) = (fst (ser_reset_input P s), snd (ser_reset_input P s), l)"
  by (simp_all add: recording_def case_prod_unfold Let_def)

lemma recording_read:
  "ser_read (recording P) n (s, l) =
    (case ser_read P n s of (Inl e, s') \<Rightarrow> (Inl e, s', l) | (Inr bs, s') \<Rightarrow> (Inr bs, s', l @ map Got bs))"
  by (simp add: recording_def)

lemma recording_bounded: "port_bounded P \<Longrightarrow> port_bounded (recording P)"
  by (auto simp: port_bounded_def recording_read split: prod.splits sum.splits)

section \<open>The program does not see the recording\<close>

definition in_step :: "('s, 'a) link_io \<Rightarrow> ('s \<times> line_event list, 'a) link_io \<Rightarrow> bool" where
  "in_step m m' \<longleftrightarrow> (\<forall>s l r s'. m s = Some (r, s') \<longrightarrow> (\<exists>l'. m' (s, l) = Some (r, s', l')))"

lemma in_step_return [intro]: "in_step (io_return a) (io_return a)"
  by (simp add: in_step_def io_return_def)

lemma in_step_bind [intro]:
  assumes "in_step m m'" "\<And>a. in_step (k a) (k' a)"
  shows "in_step (io_bind m k) (io_bind m' k')"
  unfolding in_step_def
proof (intro allI impI)
  fix s l r s'
  assume run: "io_bind m k s = Some (r, s')"
  then obtain x s1 where x: "m s = Some (x, s1)" by (auto simp: io_bind_def split: option.splits)
  with assms(1) obtain l1 where l1: "m' (s, l) = Some (x, s1, l1)" unfolding in_step_def by blast
  show "\<exists>l'. io_bind m' k' (s, l) = Some (r, s', l')"
  proof (cases x)
    case (Inl e)
    with run x l1 show ?thesis by (simp add: io_bind_def)
  next
    case (Inr a)
    with run x have "k a s1 = Some (r, s')" by (simp add: io_bind_def)
    with assms(2) [of a] l1 Inr show ?thesis unfolding in_step_def by (auto simp: io_bind_def)
  qed
qed

lemma in_step_if [intro]: "in_step m m' \<Longrightarrow> in_step n n' \<Longrightarrow> in_step (if b then m else n) (if b then m' else n')"
  by simp

lemma read_more_recording:
  "\<exists>x. read_more (recording P) n buf (s, l) = (fst (read_more P n buf s), snd (read_more P n buf s), l @ map Got x)
    \<and> (\<forall>bs. fst (read_more P n buf s) = Inr bs \<longrightarrow> bs = buf @ x)"
proof (induction P n buf s arbitrary: l rule: read_more.induct)
  case (1 P n buf s)
  show ?case
  proof (cases "length buf < n")
    case False
    then show ?thesis by (simp add: read_more.simps [of _ n buf])
  next
    case True
    obtain r s1 where r: "ser_read P (n - length buf) s = (r, s1)" by fastforce
    show ?thesis
    proof (cases r)
      case (Inl e)
      with True r show ?thesis by (simp add: read_more.simps [of _ n buf] recording_read)
    next
      case (Inr bs)
      show ?thesis
      proof (cases bs)
        case Nil
        with True r Inr show ?thesis by (simp add: read_more.simps [of _ n buf] recording_read)
      next
        case (Cons c cs)
        from "1.IH" [OF True r [symmetric] Inr Cons, of "l @ map Got (c # cs)"] obtain x where
          "read_more (recording P) n (buf @ c # cs) (s1, l @ map Got (c # cs)) =
            (fst (read_more P n (buf @ c # cs) s1), snd (read_more P n (buf @ c # cs) s1), (l @ map Got (c # cs)) @ map Got x)"
          "\<forall>bs. fst (read_more P n (buf @ c # cs) s1) = Inr bs \<longrightarrow> bs = (buf @ c # cs) @ x" by blast
        with True r Inr Cons show ?thesis
          by (intro exI [of _ "c # cs @ x"]) (simp add: read_more.simps [of _ n buf] recording_read)
      qed
    qed
  qed
qed

lemma in_step_read_exact [intro]: "in_step (read_exact P n) (read_exact (recording P) n)"
  unfolding in_step_def
proof (intro allI impI)
  fix s l r s'
  assume "read_exact P n s = Some (r, s')"
  then show "\<exists>l'. read_exact (recording P) n (s, l) = Some (r, s', l')"
    using read_more_recording [of P n "[]" s l] by (auto simp: read_exact_def)
qed

text \<open>The loops.\<close>

lemma in_step_while:
  fixes g :: "'s \<times> line_event list \<Rightarrow> (('a \<times> 's \<times> line_event list) + ('s \<times> line_event list)) option"
  assumes "while_true f s = Some (r, s')"
    and "\<And>s l z. f s = Some z \<Longrightarrow> \<exists>l'. g (s, l) = Some (map_sum (\<lambda>(r, s). (r, s, l')) (\<lambda>s. (s, l')) z)"
  shows "\<exists>l'. while_true g (s, l) = Some (r, s', l')"
proof -
  have "\<exists>w. while_true g (s, l) = Some w \<and> (\<exists>l'. w = (fst (r, s'), snd (r, s'), l'))"
  proof (rule while_true_sim [where R = "\<lambda>s y. s = fst y" and Q = "\<lambda>r w. \<exists>l'. w = (fst r, snd r, l')"])
    show "while_true f s = Some (r, s')" by (rule assms(1))
  next
    fix x z and y :: "'s \<times> line_event list"
    assume "x = fst y" "f x = Some z"
    with assms(2) [of x z "snd y"] obtain l' where "g y = Some (map_sum (\<lambda>(r, s). (r, s, l')) (\<lambda>s. (s, l')) z)" by auto
    then show "\<exists>w. g y = Some w \<and> rel_sum (\<lambda>r w. \<exists>l'. w = (fst r, snd r, l')) (\<lambda>s y. s = fst y) z w"
      by (cases z) (auto simp: case_prod_unfold)
  qed simp
  then show ?thesis by auto
qed

lemma in_step_hunt_soh [intro]: "in_step (hunt_soh P) (hunt_soh (recording P))"
  unfolding in_step_def hunt_soh_def
proof (intro allI impI, elim in_step_while)
  fix s l z
  assume "hunt_step P s = Some z"
  then show "\<exists>l'. hunt_step (recording P) (s, l) = Some (map_sum (\<lambda>(r, s). (r, s, l')) (\<lambda>s. (s, l')) z)"
    by (auto simp: hunt_step_def recording_read split: prod.splits sum.splits list.splits if_splits)
qed

lemma retry_in_step:
  assumes "in_step m m'" "retry m s = Some (r, s')"
  shows "\<exists>l'. retry m' (s, l) = Some (r, s', l')"
  using assms(2) unfolding retry_def
proof (rule in_step_while)
  fix s l z
  assume run: "retry_step m s = Some z"
  then obtain x s1 where x: "m s = Some (x, s1)" by (auto simp: retry_step_def split: option.splits)
  with assms(1) obtain l' where "m' (s, l) = Some (x, s1, l')" unfolding in_step_def by blast
  with run x show "\<exists>l'. retry_step m' (s, l) = Some (map_sum (\<lambda>(r, s). (r, s, l')) (\<lambda>s. (s, l')) z)"
    by (intro exI [of _ l']) (auto simp: retry_step_def split: sum.splits link_exn.splits option.splits)
qed

lemma in_step_info_try: "in_step (info_try P) (info_try (recording P))"
  unfolding info_try_def by (intro in_step_bind in_step_if in_step_return in_step_read_exact in_step_hunt_soh)

lemma in_step_recv_event: "in_step (recv_event P bps) (recv_event (recording P) bps)"
  unfolding recv_event_def by (intro in_step_bind in_step_if in_step_return in_step_read_exact in_step_hunt_soh)

lemma nak_recording:
  "\<exists>w. nak (recording P) (s, l) = (fst (nak P s), snd (nak P s), l @ w) \<and> Put [ACK] \<notin> set w"
  by (cases "fst (ser_reset_input P s)")
     (auto simp: nak_def case_prod_unfold ACK_def NAK_def split: option.split)

lemma then_write_log:
  "then_write res r (x, s, l) = (case then_write res r (x, s) of (y, r, s) \<Rightarrow> (y, r, s, l))"
  by (simp add: then_write_def split: option.split)

lemma handle_event_recording:
  "\<exists>w. handle_event (recording P) t bps cmd ev r (s, l) =
    (case handle_event P t bps cmd ev r s of (y, r, s) \<Rightarrow> (y, r, s, l @ w))"
proof -
  obtain w where nak: "nak (recording P) (s, l) = (fst (nak P s), snd (nak P s), l @ w)"
    using nak_recording [of P s l] by blast
  have refused: "\<exists>w. then_write None r (nak (recording P) (s, l)) =
      (case then_write None r (nak P s) of (y, r, s) \<Rightarrow> (y, r, s, l @ w))"
    unfolding nak then_write_log by auto
  have written: "\<exists>w. then_write res r (ser_write (recording P) bs (s, l)) =
      (case then_write res r (ser_write P bs s) of (y, r, s) \<Rightarrow> (y, r, s, l @ w))" for res r bs
    unfolding recording_writes then_write_log by auto
  show ?thesis
  proof (cases ev)
    case (EvData hdr data c)
    show ?thesis
    proof (cases "crc16 ([TYPE_DATA] @ hdr @ data) \<noteq> c \<or> t \<le> from_bytes_le (py_slice 0 4 hdr)")
      case True
      then show ?thesis using refused EvData by (cases "get_item hdr 4") auto
    next
      case False
      show ?thesis
      proof (cases "get_item hdr 4")
        case (Inl e)
        with False EvData show ?thesis by simp
      next
        case (Inr st)
        obtain e r' where "store_sector bps (from_bytes_le (py_slice 0 4 hdr)) st data r = (e, r')" by fastforce
        with False EvData Inr written [of None r' "[ACK]"] show ?thesis by (cases e) (simp_all add: ack_def)
      qed
    qed
  qed (use refused written in \<open>simp_all add: ack_def send_frame_def\<close>)
qed

lemma recv_step_recording:
  assumes "recv_step P t bps cmd (r, s) = Some z"
  shows "\<exists>l'. recv_step (recording P) t bps cmd (r, s, l) =
    Some (map_sum (\<lambda>(res, r, s). (res, r, s, l')) (\<lambda>(r, s). (r, s, l')) z)"
proof -
  obtain x s1 where x: "recv_event P bps s = Some (x, s1)"
    using assms by (auto simp: recv_step_def split: option.splits)
  then obtain l1 where l1: "recv_event (recording P) bps (s, l) = Some (x, s1, l1)"
    using in_step_recv_event [of P bps] unfolding in_step_def by blast
  show ?thesis
  proof (cases x)
    case (Inl e)
    with assms x l1 show ?thesis by (intro exI [of _ l1]) (auto simp: recv_step_def split: link_exn.splits)
  next
    case (Inr ev)
    obtain w where "handle_event (recording P) t bps cmd ev r (s1, l1) =
        (case handle_event P t bps cmd ev r s1 of (y, r, s) \<Rightarrow> (y, r, s, l1 @ w))"
      using handle_event_recording [of P t bps cmd ev r s1 l1] by blast
    with assms x l1 Inr show ?thesis
      by (intro exI [of _ "l1 @ w"]) (auto simp: recv_step_def split: sum.splits prod.splits option.splits)
  qed
qed

lemma recv_loop_recording:
  fixes P :: "'a port"
  assumes "recv_loop P t bps cmd (r, s) = Some (res, r', s')"
  shows "\<exists>l'. recv_loop (recording P) t bps cmd (r, s, l) = Some (res, r', s', l')"
proof -
  have "\<exists>w. while_true (recv_step (recording P) t bps cmd) (r, s, l) = Some w \<and>
      (\<exists>l'. w = (fst (res, r', s'), fst (snd (res, r', s')), snd (snd (res, r', s')), l'))"
  proof (rule while_true_sim [where R = "\<lambda>x y. x = (fst y, fst (snd y))"
        and Q = "\<lambda>r w. \<exists>l'. w = (fst r, fst (snd r), snd (snd r), l')"])
    show "while_true (recv_step P t bps cmd) (r, s) = Some (res, r', s')"
      using assms by (simp add: recv_loop_def)
  next
    fix x z and y :: "rx_state \<times> 'a \<times> line_event list"
    assume "x = (fst y, fst (snd y))" and run: "recv_step P t bps cmd x = Some z"
    with recv_step_recording [of P t bps cmd "fst y" "fst (snd y)" z "snd (snd y)"] obtain l' where
      "recv_step (recording P) t bps cmd y = Some (map_sum (\<lambda>(res, r, s). (res, r, s, l')) (\<lambda>(r, s). (r, s, l')) z)"
      by auto
    then show "\<exists>w. recv_step (recording P) t bps cmd y = Some w \<and>
        rel_sum (\<lambda>r w. \<exists>l'. w = (fst r, fst (snd r), snd (snd r), l')) (\<lambda>x y. x = (fst y, fst (snd y))) z w"
      by (cases z) (auto simp: case_prod_unfold)
  qed simp
  then show ?thesis by (auto simp: recv_loop_def)
qed

lemma send_command_recording:
  "\<exists>w. send_command (recording P) wl (s, l) = (case send_command P wl s of (r, s') \<Rightarrow> (r, s', l @ w))
    \<and> Put [ACK] \<notin> set w"
  by (cases "cmd_payload wl")
     (auto simp: send_command_def send_frame_def frame_simp SOH_def ACK_def split: sum.split prod.split option.split)

lemma info_handshake_recording:
  assumes "info_handshake P s = Some (x, s1)"
  shows "\<exists>l'. info_handshake (recording P) (s, l) = Some (x, s1, l')"
proof -
  obtain r where r: "retry (info_try P) s = Some (r, s1)"
    using assms by (auto simp: info_handshake_def split: option.splits sum.splits)
  from retry_in_step [OF in_step_info_try this] obtain l' where
    "retry (info_try (recording P)) (s, l) = Some (r, s1, l')" by blast
  with assms r show ?thesis by (auto simp: info_handshake_def split: sum.splits)
qed

lemma capture_recording:
  assumes "capture P opts fs s = Some (res, s')"
  shows "\<exists>l'. capture (recording P) opts fs (s, l) = Some (res, s', l')"
proof -
  obtain x s1 where x: "info_handshake P s = Some (x, s1)"
    using assms by (auto simp: capture_def split: option.splits)
  from info_handshake_recording [OF this] obtain l1 where
    l1: "info_handshake (recording P) (s, l) = Some (x, s1, l1)" by blast
  show ?thesis
  proof (cases x)
    case (Inl e)
    with assms x l1 show ?thesis by (simp add: capture_def)
  next
    case (Inr g)
    show ?thesis
    proof (cases "open_image opts fs (g_total g) (g_bps g)")
      case (Inl e)
      with assms x l1 Inr show ?thesis by (simp add: capture_def Let_def)
    next
      case image: (Inr fm)
      obtain f sm where fm: "fm = (f, sm)" by (cases fm)
      show ?thesis
      proof (cases "choose_worklist opts sm (g_total g)")
        case (Inl e)
        with assms x l1 Inr image fm show ?thesis by (simp add: capture_def Let_def)
      next
        case wl: (Inr wl)
        obtain c s2 where c: "send_command P wl s1 = (c, s2)" by fastforce
        then obtain w where w: "send_command (recording P) wl (s1, l1) = (c, s2, l1 @ w)"
          using send_command_recording [of P wl s1 l1] by auto
        show ?thesis
        proof (cases c)
          case (Inl e)
          with assms x l1 Inr image fm wl c w show ?thesis by (simp add: capture_def Let_def)
        next
          case cmd: (Inr cmd)
          let ?r = "\<lparr>rx_image = f, rx_map = sm, rx_bad = int (count_status BAD sm), rx_received = 0\<rparr>"
          obtain ending r where loop: "recv_loop P (g_total g) (g_bps g) cmd (?r, s2) = Some (ending, r, s')"
            and res: "res = Captured (finish_capture opts (g_total g) (g_bps g) ending r)"
            using assms x Inr image fm wl c cmd by (auto simp: capture_def Let_def split: option.splits)
          from recv_loop_recording [OF loop] obtain l' where
            "recv_loop (recording P) (g_total g) (g_bps g) cmd (?r, s2, l1 @ w) = Some (ending, r, s', l')" by blast
          with l1 Inr image fm wl c cmd res w show ?thesis by (simp add: capture_def Let_def)
        qed
      qed
    qed
  qed
qed

section \<open>What the record holds\<close>

text \<open>
  The frames lie in the bytes received, in order and without overlap, and the writes of an
  \<open>ACK\<close> are exactly the ones behind them.
\<close>

fun arrived :: "sector_frame list \<Rightarrow> line_event list \<Rightarrow> bool" where
  "arrived [] l \<longleftrightarrow> Put [ACK] \<notin> set l"
| "arrived ((hdr, data, crc_rx) # jn) l \<longleftrightarrow>
     (\<exists>before after. l = before @ map Got (frame TYPE_DATA (hdr @ data)) @ [Put [ACK]] @ after
        \<and> Put [ACK] \<notin> set before \<and> arrived jn after)"

lemma arrived_more: "arrived jn l \<Longrightarrow> Put [ACK] \<notin> set w \<Longrightarrow> arrived jn (l @ w)"
proof (induction jn arbitrary: l)
  case (Cons e jn)
  obtain hdr data crc_rx where e: "e = (hdr, data, crc_rx)" by (cases e)
  from Cons.prems obtain before rest where
    l: "l = before @ map Got (frame TYPE_DATA (hdr @ data)) @ [Put [ACK]] @ rest" "Put [ACK] \<notin> set before" "arrived jn rest"
    by (auto simp: e)
  have "l @ w = before @ map Got (frame TYPE_DATA (hdr @ data)) @ [Put [ACK]] @ rest @ w"
    "arrived jn (rest @ w)" using l(1) Cons.IH [OF l(3) Cons.prems(2)] by simp_all
  with l(2) show ?case unfolding e arrived.simps by blast
qed simp

lemma arrived_next:
  assumes "arrived jn l" "Put [ACK] \<notin> set w"
  shows "arrived (jn @ [(hdr, data, crc_rx)]) (l @ w @ map Got (frame TYPE_DATA (hdr @ data)) @ [Put [ACK]])"
  using assms(1)
proof (induction jn arbitrary: l)
  case Nil
  have "l @ w @ map Got (frame TYPE_DATA (hdr @ data)) @ [Put [ACK]] =
      (l @ w) @ map Got (frame TYPE_DATA (hdr @ data)) @ [Put [ACK]] @ []"
    "Put [ACK] \<notin> set (l @ w)" "arrived [] []" using Nil assms(2) by simp_all
  then show ?case unfolding append_Nil arrived.simps by blast
next
  case (Cons e jn)
  obtain hdr' data' crc' where e: "e = (hdr', data', crc')" by (cases e)
  from Cons.prems obtain pre rest where
    l: "l = pre @ map Got (frame TYPE_DATA (hdr' @ data')) @ [Put [ACK]] @ rest" "Put [ACK] \<notin> set pre" "arrived jn rest"
    by (auto simp: e)
  have "l @ w @ map Got (frame TYPE_DATA (hdr @ data)) @ [Put [ACK]] =
      pre @ map Got (frame TYPE_DATA (hdr' @ data')) @ [Put [ACK]] @
        rest @ w @ map Got (frame TYPE_DATA (hdr @ data)) @ [Put [ACK]]"
    "arrived (jn @ [(hdr, data, crc_rx)]) (rest @ w @ map Got (frame TYPE_DATA (hdr @ data)) @ [Put [ACK]])"
    using l(1) Cons.IH [OF l(3)] by simp_all
  with l(2) show ?case unfolding e append_Cons arrived.simps by blast
qed

text \<open>The totals as they arrived, and the \<open>ACK\<close> to them.\<close>

definition totals_arrived :: "line_event list \<Rightarrow> nat \<times> nat \<Rightarrow> bool" where
  "totals_arrived l tot \<longleftrightarrow>
     (\<exists>good bad. l = map Got (frame TYPE_EOT (good @ bad)) @ [Put [ACK]] \<and> length good = 4 \<and> length bad = 4
        \<and> tot = (from_bytes_le good, from_bytes_le bad))"

text \<open>A step that reads only adds to the record.\<close>

definition adds :: "('s \<times> line_event list, 'a) link_io \<Rightarrow> bool" where
  "adds m \<longleftrightarrow> (\<forall>s l r s' l'. m (s, l) = Some (r, s', l') \<longrightarrow> (\<exists>x. l' = l @ map Got x))"

lemma adds_return: "adds (io_return a)"
  by (auto simp: adds_def io_return_def intro: exI [of _ "[]"])

lemma adds_bind:
  assumes "adds m" "\<And>a. adds (k a)"
  shows "adds (io_bind m k)"
  unfolding adds_def
proof (intro allI impI)
  fix s l r s' l'
  assume run: "io_bind m k (s, l) = Some (r, s', l')"
  then obtain x s1 l1 where x: "m (s, l) = Some (x, s1, l1)" by (auto simp: io_bind_def split: option.splits)
  with assms(1) obtain y where l1: "l1 = l @ map Got y" unfolding adds_def by blast
  show "\<exists>x. l' = l @ map Got x"
  proof (cases x)
    case (Inl e)
    with run x l1 show ?thesis by (auto simp: io_bind_def)
  next
    case (Inr a)
    with run x have "k a (s1, l1) = Some (r, s', l')" by (simp add: io_bind_def)
    with assms(2) [of a] obtain z where "l' = l1 @ map Got z" unfolding adds_def by blast
    with l1 show ?thesis by (intro exI [of _ "y @ z"]) simp
  qed
qed

lemma adds_if: "adds m \<Longrightarrow> adds n \<Longrightarrow> adds (if b then m else n)"
  by simp

lemma read_exact_record:
  assumes "read_exact (recording P) n (s, l) = Some (r, s', l')"
  shows "\<exists>x. l' = l @ map Got x \<and> (\<forall>bs. r = Inr bs \<longrightarrow> bs = x)"
  using assms read_more_recording [of P n "[]" s l] by (auto simp: read_exact_def)

lemma adds_read_exact: "adds (read_exact (recording P) n)"
  unfolding adds_def by (intro allI impI, drule read_exact_record, erule exE, rule exI, erule conjunct1)

text \<open>The hunt ends behind an \<open>SOH\<close>.\<close>

lemma hunt_soh_record:
  assumes "hunt_soh (recording P) (s, l) = Some (r, s', l')"
  shows "\<exists>x. l' = l @ map Got x" "r = Inr () \<Longrightarrow> port_bounded P \<Longrightarrow> \<exists>x. l' = l @ map Got (x @ [SOH])"
proof -
  let ?Q = "\<lambda>(r, s, l'). (\<exists>x. l' = l @ map Got x) \<and> (r = Inr () \<longrightarrow> port_bounded P \<longrightarrow> (\<exists>x. l' = l @ map Got (x @ [SOH])))"
  have "?Q (r, s', l')"
  proof (rule while_true_rule [where I = "\<lambda>(s, l'). \<exists>x. l' = l @ map Got x" and Q = ?Q])
    show "while_true (hunt_step (recording P)) (s, l) = Some (r, s', l')"
      using assms by (simp add: hunt_soh_def)
  next
    fix a b
    assume a: "case a of (s, l') \<Rightarrow> \<exists>x. l' = l @ map Got x" and run: "hunt_step (recording P) a = Some (Inr b)"
    obtain s1 x where a': "a = (s1, l @ map Got x)" using a by (cases a) auto
    from run obtain bs s2 where "b = (s2, (l @ map Got x) @ map Got bs)"
      by (auto simp: a' hunt_step_def recording_read simp del: append_assoc list.map
          split: prod.splits sum.splits list.splits if_splits)
    then show "case b of (s, l') \<Rightarrow> \<exists>x. l' = l @ map Got x" by (auto intro: exI [of _ "x @ bs"])
  next
    fix a z
    assume a: "case a of (s, l') \<Rightarrow> \<exists>x. l' = l @ map Got x" and run: "hunt_step (recording P) a = Some (Inl z)"
    obtain s1 x where a': "a = (s1, l @ map Got x)" using a by (cases a) auto
    obtain q s2 where q: "ser_read P 1 s1 = (q, s2)" by fastforce
    have one: "length cs = 0" if "port_bounded P" "q = Inr (c # cs)" for c cs
    proof -
      have "length (c # cs) \<le> 1" using that q unfolding port_bounded_def by blast
      then show ?thesis by simp
    qed
    show "?Q z"
    proof (cases q)
      case (Inl e)
      with run q show ?thesis by (auto simp: a' hunt_step_def recording_read)
    next
      case (Inr bs)
      show ?thesis
      proof (cases bs)
        case Nil
        with run q Inr show ?thesis by (auto simp: a' hunt_step_def recording_read)
      next
        case (Cons c cs)
        with run q Inr have "c = SOH" "z = (Inr (), s2, l @ map Got (x @ SOH # cs))"
          by (auto simp: a' hunt_step_def recording_read split: if_splits)
        moreover have "port_bounded P \<longrightarrow> cs = []" using one Inr Cons by blast
        moreover have "\<exists>y. map Got x @ map Got (SOH # cs) = map Got y" by (metis map_append)
        ultimately show ?thesis by auto
      qed
    qed
  qed simp
  then show "\<exists>x. l' = l @ map Got x" "r = Inr () \<Longrightarrow> port_bounded P \<Longrightarrow> \<exists>x. l' = l @ map Got (x @ [SOH])" by auto
qed

lemma adds_hunt_soh: "adds (hunt_soh (recording P))"
  unfolding adds_def by (intro allI impI, rule hunt_soh_record(1))

lemmas adds_intros = adds_bind adds_if adds_return adds_read_exact adds_hunt_soh

lemma adds_recv_event: "adds (recv_event (recording P) bps)"
  unfolding recv_event_def by (intro adds_intros)

lemma io_bind_Inr_record:
  assumes "io_bind m k (s, l) = Some (Inr b, s', l')"
  obtains a s1 l1 where "m (s, l) = Some (Inr a, s1, l1)" "k a (s1, l1) = Some (Inr b, s', l')"
  using io_bind_Inr [OF assms] by auto

text \<open>The part of \<open>recv_event\<close> behind the type byte.\<close>

definition event_body :: "'s port \<Rightarrow> nat \<Rightarrow> byte \<Rightarrow> ('s, rx_event) link_io" where
  "event_body P bps ty =
     (if ty = TYPE_DATA then
        io_bind (read_exact P 5) (\<lambda>hdr.
        io_bind (read_exact P bps) (\<lambda>data.
        io_bind (read_exact P 2) (\<lambda>crc_rx.
          io_return (EvData hdr data (from_bytes_le crc_rx)))))
      else if ty = TYPE_EOT then
        io_bind (read_exact P 8) (\<lambda>payload.
        io_bind (read_exact P 2) (\<lambda>crc_rx.
          io_return (EvEot payload (from_bytes_le crc_rx))))
      else if ty = TYPE_INFO then
        io_bind (read_exact P 14) (\<lambda>_. io_return EvInfo)
      else io_return EvOther)"

lemma recv_event_body:
  "recv_event P bps = io_bind (hunt_soh P) (\<lambda>_. io_bind (read_exact P 1) (\<lambda>t. event_body P bps (t ! 0)))"
  by (simp add: recv_event_def event_body_def)

lemma body_data:
  assumes "event_body (recording P) bps ty (s, l) = Some (Inr (EvData hdr data c), s', l')" "port_bounded P"
  shows "\<exists>crc. ty = TYPE_DATA \<and> l' = l @ map Got (hdr @ data @ crc) \<and> length crc = 2 \<and> c = from_bytes_le crc"
proof -
  have ty: "ty = TYPE_DATA"
    using assms(1) by (auto simp: event_body_def io_return_def split: if_splits elim!: io_bind_Inr_record)
  with assms(1) obtain s1 l1 s2 l2 crc where r: "read_exact (recording P) 5 (s, l) = Some (Inr hdr, s1, l1)"
    "read_exact (recording P) bps (s1, l1) = Some (Inr data, s2, l2)"
    "read_exact (recording P) 2 (s2, l2) = Some (Inr crc, s', l')" "c = from_bytes_le crc"
    by (auto simp: event_body_def io_return_def elim!: io_bind_Inr_record)
  have "l' = l @ map Got (hdr @ data @ crc)"
    using read_exact_record [OF r(1)] read_exact_record [OF r(2)] read_exact_record [OF r(3)] by auto
  with ty r(4) read_exact_length [OF recording_bounded [OF assms(2)] r(3)] show ?thesis by blast
qed

lemma body_eot:
  assumes "event_body (recording P) bps ty (s, l) = Some (Inr (EvEot payload c), s', l')" "port_bounded P"
  shows "\<exists>crc. ty = TYPE_EOT \<and> length payload = 8 \<and> l' = l @ map Got (payload @ crc) \<and> length crc = 2
    \<and> c = from_bytes_le crc"
proof -
  have ty: "ty = TYPE_EOT"
    using assms(1) by (auto simp: event_body_def io_return_def split: if_splits elim!: io_bind_Inr_record)
  moreover have "TYPE_EOT \<noteq> TYPE_DATA" by (simp add: TYPE_EOT_def TYPE_DATA_def)
  ultimately obtain s1 l1 crc where r: "read_exact (recording P) 8 (s, l) = Some (Inr payload, s1, l1)"
    "read_exact (recording P) 2 (s1, l1) = Some (Inr crc, s', l')" "c = from_bytes_le crc"
    using assms(1) by (auto simp: event_body_def io_return_def elim!: io_bind_Inr_record)
  have "l' = l @ map Got (payload @ crc)"
    using read_exact_record [OF r(1)] read_exact_record [OF r(2)] by auto
  with ty r(3) read_exact_length [OF recording_bounded [OF assms(2)] r(1)]
    read_exact_length [OF recording_bounded [OF assms(2)] r(2)] show ?thesis by blast
qed

text \<open>A whole frame whose checksum is right is a \<open>frame\<close>.\<close>

lemma whole_frame:
  assumes "length crc = 2" "crc16 (ty # payload) = from_bytes_le crc"
  shows "[SOH, ty] @ payload @ crc = frame ty payload"
  using assms le_from_bytes [of crc 2] by (simp add: frame_simp)

lemma recv_event_arrived:
  assumes "recv_event (recording P) bps (s, l) = Some (Inr ev, s', l')" "port_bounded P"
  shows "\<exists>x. case ev of
      EvData hdr data c \<Rightarrow> crc16 (TYPE_DATA # hdr @ data) = c \<longrightarrow> l' = l @ map Got x @ map Got (frame TYPE_DATA (hdr @ data))
    | EvEot payload c \<Rightarrow> length payload = 8
        \<and> (crc16 (TYPE_EOT # payload) = c \<longrightarrow> l' = l @ map Got x @ map Got (frame TYPE_EOT payload))
    | _ \<Rightarrow> True"
proof -
  from assms(1) obtain s1 l1 where h: "hunt_soh (recording P) (s, l) = Some (Inr (), s1, l1)"
    and "io_bind (read_exact (recording P) 1) (\<lambda>t. event_body (recording P) bps (t ! 0)) (s1, l1) = Some (Inr ev, s', l')"
    unfolding recv_event_body by (rule io_bind_Inr_record) simp
  from this(2) obtain t s2 l2 where t: "read_exact (recording P) 1 (s1, l1) = Some (Inr t, s2, l2)"
    and body: "event_body (recording P) bps (t ! 0) (s2, l2) = Some (Inr ev, s', l')"
    by (rule io_bind_Inr_record)
  obtain x where "l1 = l @ map Got (x @ [SOH])" using hunt_soh_record(2) [OF h refl assms(2)] by blast
  moreover have "l2 = l1 @ map Got t" using read_exact_record [OF t] by blast
  moreover have "length t = 1" using read_exact_length [OF recording_bounded [OF assms(2)] t] .
  ultimately have l2: "l2 = l @ map Got x @ map Got [SOH, t ! 0]" by (cases t) auto
  show ?thesis
  proof (cases ev)
    case (EvData hdr data c)
    from body_data [OF body [unfolded this] assms(2)] obtain crc where
      "t ! 0 = TYPE_DATA" "l' = l2 @ map Got (hdr @ data @ crc)" "length crc = 2" "c = from_bytes_le crc" by blast
    with EvData l2 show ?thesis using whole_frame [of crc TYPE_DATA "hdr @ data", THEN arg_cong [of _ _ "map Got"]]
      by (auto intro!: exI [of _ x])
  next
    case (EvEot payload c)
    from body_eot [OF body [unfolded this] assms(2)] obtain crc where "t ! 0 = TYPE_EOT" "length payload = 8"
      "l' = l2 @ map Got (payload @ crc)" "length crc = 2" "c = from_bytes_le crc" by blast
    with EvEot l2 show ?thesis using whole_frame [of crc TYPE_EOT payload, THEN arg_cong [of _ _ "map Got"]]
      by (auto intro!: exI [of _ x])
  qed simp_all
qed

text \<open>A round: what it acknowledges has just arrived.\<close>

definition eot_event :: "rx_event \<Rightarrow> (nat \<times> nat) option" where
  "eot_event ev =
     (case ev of
        EvEot payload c \<Rightarrow>
          if crc16 (TYPE_EOT # payload) = c
          then Some (from_bytes_le (py_slice 0 4 payload), from_bytes_le (py_slice 4 8 payload)) else None
      | _ \<Rightarrow> None)"

lemma handle_event_acks:
  assumes "length (rx_map r) = t" "handle_event (recording P) t bps cmd ev r (s, l) = (y, r', s', l')"
  shows "event_log t ev \<noteq> [] \<or> eot_event ev \<noteq> None \<Longrightarrow> l' = l @ [Put [ACK]]"
    and "event_log t ev = [] \<Longrightarrow> eot_event ev = None \<Longrightarrow> \<exists>w. l' = l @ w \<and> Put [ACK] \<notin> set w"
    and "y = Inr (Some tot) \<Longrightarrow> eot_event ev = Some tot" "y = Inr None \<Longrightarrow> eot_event ev = None"
proof -
  obtain w where nak: "nak (recording P) (s, l) = (fst (nak P s), snd (nak P s), l @ w)" "Put [ACK] \<notin> set w"
    using nak_recording [of P s l] by blast
  have cmd: "frame TYPE_CMD cmd \<noteq> [ACK]" by (simp add: frame_simp)
  note defs = event_log_def eot_event_def accepted_def frame_lba_def
  have "(if event_log t ev \<noteq> [] \<or> eot_event ev \<noteq> None then l' = l @ [Put [ACK]]
       else \<exists>w. l' = l @ w \<and> Put [ACK] \<notin> set w)
    \<and> (\<forall>tot. y = Inr (Some tot) \<longrightarrow> eot_event ev = Some tot) \<and> (y = Inr None \<longrightarrow> eot_event ev = None)"
  proof (cases ev)
    case (EvData hdr data c)
    show ?thesis
    proof (cases "crc16 (TYPE_DATA # hdr @ data) = c \<and> 4 < length hdr \<and> from_bytes_le (py_slice 0 4 hdr) < t")
      case True
      then have "get_item hdr 4 = Inr (hdr ! 4)" by simp
      with True EvData assms show ?thesis
        by (auto simp: defs then_write_def ack_def store_sector_inside(1) Let_def split: if_splits prod.splits option.splits)
    next
      case False
      then have "event_log t ev = []" "eot_event ev = None" using EvData by (auto simp: defs)
      moreover have "\<exists>w. l' = l @ w \<and> Put [ACK] \<notin> set w" and "y \<noteq> Inr (Some tot)" for tot
        using False EvData assms(2) nak get_item_beyond [of hdr 4]
        by (auto simp: then_write_def Let_def split: if_splits prod.splits option.splits sum.splits)
      ultimately show ?thesis by simp
    qed
  next
    case (EvEot payload c)
    with assms(2) nak show ?thesis
      by (auto simp: defs then_write_def ack_def split: if_splits prod.splits option.splits)
  next
    case EvInfo
    with assms(2) cmd show ?thesis
      by (auto simp: defs then_write_def send_frame_def split: prod.splits option.splits)
  next
    case EvOther
    with assms(2) nak show ?thesis by (auto simp: defs then_write_def split: prod.splits option.splits)
  qed
  then show "event_log t ev \<noteq> [] \<or> eot_event ev \<noteq> None \<Longrightarrow> l' = l @ [Put [ACK]]"
    "event_log t ev = [] \<Longrightarrow> eot_event ev = None \<Longrightarrow> \<exists>w. l' = l @ w \<and> Put [ACK] \<notin> set w"
    "y = Inr (Some tot) \<Longrightarrow> eot_event ev = Some tot" "y = Inr None \<Longrightarrow> eot_event ev = None" by simp_all
qed

text \<open>The record of a round, and of the loop.\<close>

definition closes :: "loop_exn + nat \<times> nat \<Rightarrow> line_event list \<Rightarrow> bool" where
  "closes res l \<longleftrightarrow>
     (case res of Inr tot \<Rightarrow> totals_arrived l tot | Inl e \<Rightarrow> l = [] \<or> (\<exists>tot. totals_arrived l tot))"

lemma closes_raised:
  "arrived jn l \<Longrightarrow> \<exists>taken closing. l = taken @ closing \<and> arrived jn taken \<and> closes (Inl e) closing"
  by (intro exI [of _ l] exI [of _ "[]"]) (simp add: closes_def)

lemma recv_step_arrived:
  assumes "recv_step (recording P) t bps cmd (r, s, l) = Some z" "length (rx_map r) = t" "port_bounded P"
    and "arrived jn l"
  shows "\<exists>ev. case z of
      Inr (r', s', l') \<Rightarrow> journal_sized bps ev \<and> journal_ok t ev \<and> r' = replay bps ev r \<and> arrived (jn @ ev) l'
    | Inl (res, r', s', l') \<Rightarrow> journal_sized bps ev \<and> journal_ok t ev \<and> r' = replay bps ev r
        \<and> (\<exists>taken closing. l' = taken @ closing \<and> arrived (jn @ ev) taken \<and> closes res closing)"
proof -
  obtain x s1 l1 where x: "recv_event (recording P) bps (s, l) = Some (x, s1, l1)"
    using assms(1) by (auto simp: recv_step_def split: option.splits)
  obtain b where l1: "l1 = l @ map Got b" using adds_recv_event [of P bps] x unfolding adds_def by blast
  have quiet: "Put [ACK] \<notin> set (map Got b)" for b by auto
  have kept: "arrived jn l1" unfolding l1 by (rule arrived_more [OF assms(4) quiet])
  show ?thesis
  proof (cases x)
    case (Inl e)
    with assms(1) x kept show ?thesis
      by (intro exI [of _ "[]"]) (cases e, auto simp: recv_step_def closes_raised)
  next
    case (Inr ev)
    obtain y r' s' l' where h: "handle_event (recording P) t bps cmd ev r (s1, l1) = (y, r', s', l')"
      by (metis prod_cases4)
    have z: "z = (case y of Inl e \<Rightarrow> Inl (Inl e, r', s', l') | Inr None \<Rightarrow> Inr (r', s', l')
        | Inr (Some tot) \<Rightarrow> Inl (Inr tot, r', s', l'))"
      using assms(1) x Inr h by (auto simp: recv_step_def split: sum.splits option.splits)
    note acks = handle_event_acks [OF assms(2) h] and got = recv_event_arrived [OF x [unfolded Inr] assms(3)]
    have r': "r' = replay bps (event_log t ev) r" by (rule handle_event_log(1) [OF assms(2) h])
    have ok: "journal_ok t (event_log t ev)" "journal_sized bps (event_log t ev)"
      by (rule event_log_ok, rule recv_event_sized [OF recording_bounded [OF assms(3)] x [unfolded Inr]])
    show ?thesis
    proof (cases "eot_event ev")
      case (Some tot)
      then obtain payload where ev: "ev = EvEot payload (crc16 (TYPE_EOT # payload))"
        and tot: "tot = (from_bytes_le (take 4 payload), from_bytes_le (take 4 (drop 4 payload)))"
        by (auto simp: eot_event_def py_slice_def split: rx_event.splits if_splits)
      obtain b where b: "length payload = 8" "l1 = l @ map Got b @ map Got (frame TYPE_EOT payload)"
        using got by (auto simp: ev)
      let ?eot = "map Got (frame TYPE_EOT payload) @ [Put [ACK]]"
      have tot: "totals_arrived ?eot tot"
        unfolding totals_arrived_def
        by (rule exI [of _ "take 4 payload"], rule exI [of _ "drop 4 payload"]) (simp add: b(1) tot)
      have l': "l' = (l @ map Got b) @ ?eot" using acks(1) Some b(2) by simp
      have parts: "\<exists>taken closing. l' = taken @ closing \<and> arrived jn taken \<and> closes res closing"
        if "res = Inr tot \<or> (\<exists>e. res = Inl e)" for res
      proof -
        have "closes res ?eot" using tot that by (auto simp: closes_def simp del: split_paired_Ex)
        with l' arrived_more [OF assms(4) quiet, of b] show ?thesis by blast
      qed
      have "event_log t ev = []" by (simp add: ev event_log_def)
      moreover have "(\<exists>e. y = Inl e) \<or> y = Inr (Some tot)"
      proof (cases y)
        case (Inr q)
        with acks(4) Some obtain tot' where "q = Some tot'" by (cases q) auto
        with acks(3) [of tot'] Some Inr show ?thesis by simp
      qed simp
      ultimately show ?thesis
        using r' parts by (intro exI [of _ "[]"]) (auto simp: z)
    next
      case None
      have "arrived (jn @ event_log t ev) l'"
      proof (cases "event_log t ev = []")
        case True
        with acks(2) None kept show ?thesis by (auto intro: arrived_more)
      next
        case False
        then obtain hdr data c where ev: "ev = EvData hdr data c" "event_log t ev = [(hdr, data, c)]"
          "crc16 (TYPE_DATA # hdr @ data) = c"
          by (auto simp: event_log_def accepted_def split: rx_event.splits if_splits)
        with got obtain b where "l1 = l @ map Got b @ map Got (frame TYPE_DATA (hdr @ data))" by auto
        with arrived_next [OF assms(4) quiet, of hdr data c b] acks(1) False ev(2) show ?thesis by simp
      qed
      moreover have "y = Inr None \<or> (\<exists>e. y = Inl e)"
      proof (cases y)
        case (Inr q)
        with acks(3) [of "the q"] None show ?thesis by (cases q) simp_all
      qed simp
      ultimately show ?thesis
        using r' ok by (intro exI [of _ "event_log t ev"]) (auto simp: z closes_raised)
    qed
  qed
qed

lemma recv_loop_arrived:
  assumes "recv_loop (recording P) t bps cmd (r, s, l) = Some (res, r', s', l')"
    and "length (rx_map r) = t" "port_bounded P" "Put [ACK] \<notin> set l"
  shows "\<exists>jn taken closing. journal_ok t jn \<and> journal_sized bps jn \<and> r' = replay bps jn r
    \<and> l' = taken @ closing \<and> arrived jn taken \<and> closes res closing"
proof -
  let ?J = "\<lambda>q l. \<exists>jn. journal_ok t jn \<and> journal_sized bps jn \<and> q = replay bps jn r \<and> arrived jn l"
  let ?Q = "\<lambda>res q l. \<exists>jn taken closing. journal_ok t jn \<and> journal_sized bps jn \<and> q = replay bps jn r
    \<and> l = taken @ closing \<and> arrived jn taken \<and> closes res closing"
  have step: "case z of Inl (res, q', s', l') \<Rightarrow> ?Q res q' l' | Inr (q', s', l') \<Rightarrow> ?J q' l'"
    if start: "?J q l" and run: "recv_step (recording P) t bps cmd (q, s, l) = Some z" for q s l z
  proof -
    obtain jn where jn: "journal_ok t jn" "journal_sized bps jn" "q = replay bps jn r" "arrived jn l"
      using start by blast
    then have "length (rx_map q) = t" using assms(2) by simp
    from recv_step_arrived [OF run this assms(3) jn(4)] obtain ev where "case z of
      Inr (r', s', l') \<Rightarrow> journal_sized bps ev \<and> journal_ok t ev \<and> r' = replay bps ev q \<and> arrived (jn @ ev) l'
    | Inl (res, r', s', l') \<Rightarrow> journal_sized bps ev \<and> journal_ok t ev \<and> r' = replay bps ev q
        \<and> (\<exists>taken closing. l' = taken @ closing \<and> arrived (jn @ ev) taken \<and> closes res closing)" by blast
    with jn(1-3) show ?thesis
      by (cases z) (auto intro!: exI [of _ "jn @ ev"])
  qed
  have "?Q (fst (res, r', s', l')) (fst (snd (res, r', s', l'))) (snd (snd (snd (res, r', s', l'))))"
  proof (rule while_true_rule [where I = "\<lambda>x. ?J (fst x) (snd (snd x))"
        and Q = "\<lambda>z. ?Q (fst z) (fst (snd z)) (snd (snd (snd z)))"])
    show "while_true (recv_step (recording P) t bps cmd) (r, s, l) = Some (res, r', s', l')"
      using assms by (simp add: recv_loop_def)
    show "?J (fst (r, s, l)) (snd (snd (r, s, l)))" using assms(4) by (auto intro: exI [of _ "[]"])
    show "?J (fst y) (snd (snd y))" if "?J (fst x) (snd (snd x))" "recv_step (recording P) t bps cmd x = Some (Inr y)" for x y
      using step [of "fst x" "snd (snd x)" "fst (snd x)"] that by (simp add: case_prod_unfold)
    show "?Q (fst z) (fst (snd z)) (snd (snd (snd z)))"
      if "?J (fst x) (snd (snd x))" "recv_step (recording P) t bps cmd x = Some (Inl z)" for x z
      using step [of "fst x" "snd (snd x)" "fst (snd x)"] that by (simp add: case_prod_unfold)
  qed
  then show ?thesis by simp
qed

text \<open>Before the loop no \<open>ACK\<close> is sent.\<close>

lemma retry_adds:
  assumes "adds m" "retry m (s, l) = Some (r, s', l')"
  shows "\<exists>x. l' = l @ map Got x"
proof -
  have "\<exists>x. snd (snd (r, s', l')) = l @ map Got x"
  proof (rule while_true_rule [where I = "\<lambda>(s, l'). \<exists>x. l' = l @ map Got x" and Q = "\<lambda>z. \<exists>x. snd (snd z) = l @ map Got x"])
    show "while_true (retry_step m) (s, l) = Some (r, s', l')" using assms(2) by (simp add: retry_def)
    have step: "\<exists>x. l2 = l @ map Got x" if prems: "\<exists>x. l1 = l @ map Got x" "m (s1, l1) = Some (q, s2, l2)" for s1 l1 q s2 l2
    proof -
      obtain x where "l1 = l @ map Got x" using prems(1) by blast
      moreover obtain y where "l2 = l1 @ map Got y" using prems(2) assms(1) unfolding adds_def by blast
      ultimately show ?thesis by (intro exI [of _ "x @ y"]) simp
    qed
    fix a b z
    show "case b of (s, l') \<Rightarrow> \<exists>x. l' = l @ map Got x"
      if "case a of (s, l') \<Rightarrow> \<exists>x. l' = l @ map Got x" "retry_step m a = Some (Inr b)"
      using that by (auto simp: retry_step_def dest!: step [OF exI, OF refl] split: prod.splits sum.splits link_exn.splits option.splits)
    show "\<exists>x. snd (snd z) = l @ map Got x"
      if "case a of (s, l') \<Rightarrow> \<exists>x. l' = l @ map Got x" "retry_step m a = Some (Inl z)"
      using that by (auto simp: retry_step_def dest!: step [OF exI, OF refl] split: prod.splits sum.splits link_exn.splits option.splits)
  qed (simp add: exI [of _ "[]"])
  then show ?thesis by simp
qed

lemma handshake_quiet:
  assumes "info_handshake (recording P) (s, l) = Some (x, s', l')"
  shows "\<exists>y. l' = l @ map Got y"
proof -
  have "adds (info_try (recording P))"
    unfolding info_try_def by (intro adds_intros)
  with assms show ?thesis
    by (auto simp: info_handshake_def split: option.splits sum.splits dest: retry_adds)
qed

end
