(* ===== verification/CaptureProps.thy ===== *)
theory CaptureProps
  imports Session Received
begin

text \<open>
  What every capture guarantees, whatever the port does: the failures it can end with, the
  files it leaves, and the journal of frames behind them. The witnesses run the captures of
  the theory \<open>Session\<close>.
\<close>

section \<open>The handshake\<close>

lemma info_try_Some:
  assumes "info_try P s = Some (Inr (Some payload), s')"
  shows "(\<exists>crc_rx. crc16 (TYPE_INFO # payload) = from_bytes_le crc_rx)
    \<and> (port_bounded P \<longrightarrow> length payload = 12)"
proof -
  obtain s1 s2 s3 crc_rx where r: "read_exact P 12 s1 = Some (Inr payload, s2)"
    "read_exact P 2 s2 = Some (Inr crc_rx, s3)" "crc16 (TYPE_INFO # payload) = from_bytes_le crc_rx"
    using assms unfolding info_try_def
    by (auto dest!: io_bind_Inr simp: io_return_def split: if_splits)
  then show ?thesis using read_exact_length [of P 12] by blast
qed

lemma info_handshake_Inr:
  assumes "info_handshake P s = Some (Inr g, s')"
  shows "\<exists>payload crc_rx. g = decode_info payload \<and> crc16 (TYPE_INFO # payload) = from_bytes_le crc_rx
    \<and> (port_bounded P \<longrightarrow> length payload = 12)"
proof -
  obtain payload where p: "retry (info_try P) s = Some (Inr payload, s')" "g = decode_info payload"
    using assms by (auto simp: info_handshake_def split: option.splits sum.splits)
  from retry_result [OF p(1)] obtain s0 where "info_try P s0 = Some (Inr (Some payload), s')" by blast
  from info_try_Some [OF this] p(2) show ?thesis by blast
qed

lemma decode_info_bounds:
  assumes "length payload = 12"
  shows "g_total (decode_info payload) < 2 ^ 32" "g_bps (decode_info payload) < 65536"
  using from_bytes_le_bound [of "py_slice 0 4 payload"] from_bytes_le_bound [of "py_slice 10 12 payload"] assms
  by (simp_all add: decode_info_def py_slice_def)

section \<open>The run\<close>

text \<open>A completed capture, taken apart.\<close>

lemma capture_Captured:
  assumes "capture P opts fs s = Some (Captured out, s')"
  obtains g :: geometry and s1 f sm wl cmd s2 ending r where
    "info_handshake P s = Some (Inr g, s1)"
    "open_image opts fs (g_total g) (g_bps g) = Inr (f, sm)"
    "choose_worklist opts sm (g_total g) = Inr wl"
    "send_command P wl s1 = (Inr cmd, s2)"
    "recv_loop P (g_total g) (g_bps g) cmd
       (\<lparr>rx_image = f, rx_map = sm, rx_bad = int (count_status BAD sm), rx_received = 0\<rparr>, s2) =
       Some (ending, r, s')"
    "out = finish_capture opts (g_total g) (g_bps g) ending r"
  using assms
  by (auto simp: capture_def Let_def split: option.splits sum.splits prod.splits)

lemma choose_worklist_payload:
  assumes "choose_worklist opts sm t = Inr wl" "t < 2 ^ 32"
  shows "\<exists>p. cmd_payload wl = Inr p \<and> parse_cmd (tl (frame TYPE_CMD p)) = CmdRanges (range_words wl)"
proof -
  note wl = choose_worklist_ok [OF assms(1)]
  have wl32: "\<forall>(a, b)\<in>set wl. a < 2 ^ 32 \<and> b < 2 ^ 32" using wl(2) assms(2) by fastforce
  obtain p where p: "cmd_payload wl = Inr p"
    using cmd_payload_Inr [OF wl32] wl(1) by (simp add: MAXR_def)
  from p parse_cmd_frame(1) [OF wl32 wl(1) p refl] show ?thesis by blast
qed

text \<open>The failures of a capture before its receive loop.\<close>

lemma capture_failures:
  assumes "port_bounded P" "capture P opts fs s = Some (res, s')"
  shows "case res of CommandRaised e f \<Rightarrow> \<exists>pe. e = CmdPort pe
    | MapRaised e \<Rightarrow> e = ZeroDivisionError \<and> f_image fs \<noteq> None \<and> f_mapfile fs \<noteq> None
    | RangeExit e f \<Rightarrow> opt_range opts \<noteq> []
    | Captured out \<Rightarrow> \<forall>e. cap_end out \<noteq> Inl (ProgRaised e)
    | HandshakeRaised e \<Rightarrow> True"
proof (cases res)
  case (CommandRaised e f)
  with assms(2) obtain g s1 sm wl where g: "info_handshake P s = Some (Inr g, s1)"
    "choose_worklist opts sm (g_total g) = Inr wl" "send_command P wl s1 = (Inl e, s')"
    by (auto simp: capture_def Let_def split: option.splits sum.splits prod.splits)
  have "g_total g < 2 ^ 32"
    using info_handshake_Inr [OF g(1)] decode_info_bounds(1) assms(1) by blast
  from choose_worklist_payload [OF g(2) this] g(3) show ?thesis
    by (auto simp: send_command_def CommandRaised split: prod.splits option.splits)
next
  case (MapRaised e)
  with assms(2) obtain t bps where "open_image opts fs t bps = Inl e"
    by (auto simp: capture_def Let_def split: option.splits sum.splits prod.splits)
  then obtain contents f where "f_mapfile fs = Some contents" "f_image fs = Some f" "load_mapfile contents t bps = Inl e"
    by (auto simp: open_image_def split: option.splits sum.splits if_splits)
  with MapRaised load_mapfile_error show ?thesis by auto
next
  case (RangeExit e f)
  with assms(2) show ?thesis
    by (auto simp: capture_def choose_worklist_def Let_def split: option.splits sum.splits prod.splits if_splits)
next
  case (Captured out)
  with assms(2) have run: "capture P opts fs s = Some (Captured out, s')" by simp
  obtain g :: geometry and s1 f sm wl cmd s2 ending r where "info_handshake P s = Some (Inr g, s1)"
    and image: "open_image opts fs (g_total g) (g_bps g) = Inr (f, sm)"
    and "choose_worklist opts sm (g_total g) = Inr wl" "send_command P wl s1 = (Inr cmd, s2)"
    and loop: "recv_loop P (g_total g) (g_bps g) cmd
       (\<lparr>rx_image = f, rx_map = sm, rx_bad = int (count_status BAD sm), rx_received = 0\<rparr>, s2) =
       Some (ending, r, s')"
    and out: "out = finish_capture opts (g_total g) (g_bps g) ending r"
    using run by (rule capture_Captured)
  have "no_error ending" using recv_loop_journal(2) [OF loop] open_image_length [OF image] by simp
  with Captured out show ?thesis by (simp add: finish_capture_def Let_def no_error_def)
qed simp_all

text \<open>The journal of a completed capture, in the bytes its port recorded.\<close>

lemma capture_journal_run:
  assumes "capture P opts fs s = Some (Captured out, s')"
  obtains g :: geometry and f sm jn where
    "open_image opts fs (g_total g) (g_bps g) = Inr (f, sm)"
    "journal_ok (g_total g) jn"
    "cap_state out = replay (g_bps g) jn
       \<lparr>rx_image = f, rx_map = sm, rx_bad = int (count_status BAD sm), rx_received = 0\<rparr>"
    "cap_mapfile out = write_mapfile (rx_map (cap_state out)) (g_bps g) (g_total g)"
    "cap_badlist out = write_badlist (rx_map (cap_state out))"
proof -
  obtain g :: geometry and s1 f sm wl cmd s2 ending r where "info_handshake P s = Some (Inr g, s1)"
    and run: "open_image opts fs (g_total g) (g_bps g) = Inr (f, sm)"
    and "choose_worklist opts sm (g_total g) = Inr wl" "send_command P wl s1 = (Inr cmd, s2)"
    and loop: "recv_loop P (g_total g) (g_bps g) cmd
       (\<lparr>rx_image = f, rx_map = sm, rx_bad = int (count_status BAD sm), rx_received = 0\<rparr>, s2) =
       Some (ending, r, s')"
    and out: "out = finish_capture opts (g_total g) (g_bps g) ending r"
    using assms by (rule capture_Captured)
  from recv_loop_journal(1) [OF loop] open_image_length [OF run] obtain jn where
    "journal_ok (g_total g) jn"
    "r = replay (g_bps g) jn
       \<lparr>rx_image = f, rx_map = sm, rx_bad = int (count_status BAD sm), rx_received = 0\<rparr>" by auto
  with run out show thesis
    by (intro that [of g f sm jn]) (simp_all add: finish_capture_def Let_def)
qed

lemma capture_received:
  assumes "port_bounded P" "capture P opts fs s = Some (Captured out, s')"
  obtains taken closing and g :: geometry and f sm jn where
    "capture (recording P) opts fs (s, []) = Some (Captured out, s', taken @ closing)"
    "open_image opts fs (g_total g) (g_bps g) = Inr (f, sm)"
    "journal_ok (g_total g) jn" "journal_sized (g_bps g) jn" "arrived jn taken" "closes (cap_end out) closing"
    "cap_state out = replay (g_bps g) jn
       \<lparr>rx_image = f, rx_map = sm, rx_bad = int (count_status BAD sm), rx_received = 0\<rparr>"
proof -
  from capture_recording [OF assms(2)] obtain l where
    rec: "capture (recording P) opts fs (s, []) = Some (Captured out, s', l)" by blast
  obtain g :: geometry and s1 f sm wl cmd s2 ending r where hs: "info_handshake (recording P) (s, []) = Some (Inr g, s1)"
    and run: "open_image opts fs (g_total g) (g_bps g) = Inr (f, sm)"
    and "choose_worklist opts sm (g_total g) = Inr wl" and cmd: "send_command (recording P) wl s1 = (Inr cmd, s2)"
    and loop: "recv_loop (recording P) (g_total g) (g_bps g) cmd
       (\<lparr>rx_image = f, rx_map = sm, rx_bad = int (count_status BAD sm), rx_received = 0\<rparr>, s2) =
       Some (ending, r, s', l)"
    and out: "out = finish_capture opts (g_total g) (g_bps g) ending r"
    using rec by (rule capture_Captured)
  obtain s3 l1 where s1: "s1 = (s3, l1)" by (cases s1)
  obtain x where l1: "l1 = [] @ map Got x" using handshake_quiet [OF hs [unfolded s1]] by auto
  obtain w where w: "send_command (recording P) wl (s3, l1) = (case send_command P wl s3 of (r, s') \<Rightarrow> (r, s', l1 @ w))"
    "Put [ACK] \<notin> set w"
    using send_command_recording [of P wl s3 l1] by blast
  then obtain s4 where s2: "s2 = (s4, l1 @ w)" "Put [ACK] \<notin> set w"
    using cmd by (auto simp: s1 split: prod.splits)
  have quiet: "Put [ACK] \<notin> set (l1 @ w)" using s2(2) l1 by auto
  have "length (rx_map \<lparr>rx_image = f, rx_map = sm, rx_bad = int (count_status BAD sm), rx_received = 0\<rparr>) = g_total g"
    using open_image_length [OF run] by simp
  from recv_loop_arrived [OF loop [unfolded s2(1)] this assms(1) quiet] obtain jn taken closing where
    "journal_ok (g_total g) jn" "journal_sized (g_bps g) jn" "l = taken @ closing" "arrived jn taken" "closes ending closing"
    "r = replay (g_bps g) jn
       \<lparr>rx_image = f, rx_map = sm, rx_bad = int (count_status BAD sm), rx_received = 0\<rparr>" by blast
  with rec run out show thesis
    by (intro that [of taken closing g f sm jn]) (simp_all add: finish_capture_def Let_def)
qed

section \<open>Properties\<close>

text \<open>The capture of the sample disk, for the witnesses.\<close>

lemma sample_capture:
  obtains out s' where
    "capture (dos_port sample_disk) fresh_opts no_files (session_start sample_disk 30) = Some (Captured out, s')"
proof -
  have "\<not> opt_resume fresh_opts" "opt_range fresh_opts = []" by (simp_all add: fresh_opts_def)
  from clean_run [OF sample_disk_sized fresh_image [OF this] _ _ fresh_worklist [OF this], of no_files 30]
  show thesis using that by auto
qed

text \<open>C20: On a port that never returns more bytes than asked for, a capture fails with an error of
  the program in only two ways: a division by zero on reading an existing mapfile, and the
  message about an unusable \<open>--range\<close>. Every worklist fits its command, so only the port can
  raise while it is sent; and the receive loop ends with the totals or with an exception of the
  port, never with an item access outside the map or a header, whatever is received.\<close>

theorem capture_errors:
  assumes "port_bounded P" "capture P opts fs s = Some (res, s')"
  shows "case res of CommandRaised e f \<Rightarrow> \<exists>pe. e = CmdPort pe
    | MapRaised e \<Rightarrow> e = ZeroDivisionError \<and> f_image fs \<noteq> None \<and> f_mapfile fs \<noteq> None
    | RangeExit e f \<Rightarrow> opt_range opts \<noteq> []
    | Captured out \<Rightarrow> \<forall>e. cap_end out \<noteq> Inl (ProgRaised e)
    | HandshakeRaised e \<Rightarrow> True"
  using assms by (rule capture_failures)

theorem capture_errors_witness:
  "\<exists>res s'. capture (dos_port sample_disk) fresh_opts no_files (session_start sample_disk 30) = Some (res, s')
    \<and> (\<forall>e f. res \<noteq> CommandRaised (CmdError e) f) \<and> (\<forall>e. res \<noteq> MapRaised e) \<and> (\<forall>e f. res \<noteq> RangeExit e f)"
proof -
  obtain out s' where run: "capture (dos_port sample_disk) fresh_opts no_files (session_start sample_disk 30) =
    Some (Captured out, s')" by (rule sample_capture)
  with capture_errors [OF dos_port_bounded run] show ?thesis by (intro exI [of _ "Captured out"] exI [of _ s']) simp
qed

text \<open>C12: However a capture ends (with the sender's totals, by Ctrl-C or by a failure of the
  port), the files it leaves describe the same state: the map has one entry per sector, the bad
  counter is the number of bad entries, the mapfile loads back as this map, and the badlist is
  the one of this map.\<close>

theorem capture_files_consistent:
  assumes "capture P opts fs s = Some (Captured out, s')"
  shows "\<exists>t bps. length (rx_map (cap_state out)) = t
    \<and> rx_bad (cap_state out) = int (count_status BAD (rx_map (cap_state out)))
    \<and> cap_badlist out = write_badlist (rx_map (cap_state out))
    \<and> cap_mapfile out = write_mapfile (rx_map (cap_state out)) bps t
    \<and> (0 < bps \<longrightarrow> load_mapfile (cap_mapfile out) t bps = Inr (rx_map (cap_state out)))"
proof -
  obtain g :: geometry and f sm jn where j: "open_image opts fs (g_total g) (g_bps g) = Inr (f, sm)"
    "journal_ok (g_total g) jn"
    "cap_state out = replay (g_bps g) jn
       \<lparr>rx_image = f, rx_map = sm, rx_bad = int (count_status BAD sm), rx_received = 0\<rparr>"
    "cap_mapfile out = write_mapfile (rx_map (cap_state out)) (g_bps g) (g_total g)"
    "cap_badlist out = write_badlist (rx_map (cap_state out))"
    using assms by (rule capture_journal_run)
  have "rx_inv (g_total g) (cap_state out)"
    unfolding j(3) by (rule replay_inv [OF j(2)]) (simp add: rx_inv_def open_image_length [OF j(1)])
  then have inv: "length (rx_map (cap_state out)) = g_total g"
    "rx_bad (cap_state out) = int (count_status BAD (rx_map (cap_state out)))"
    by (simp_all add: rx_inv_def)
  show ?thesis
    by (intro exI [of _ "g_total g"] exI [of _ "g_bps g"] conjI impI inv j(4,5))
       (unfold j(4), rule load_write_mapfile, simp_all add: inv)
qed

theorem capture_files_consistent_witness:
  "\<exists>out s'. capture (dos_port sample_disk) fresh_opts no_files (session_start sample_disk 30) = Some (Captured out, s')
    \<and> cap_badlist out = write_badlist (rx_map (cap_state out))"
proof -
  obtain out s' where run: "capture (dos_port sample_disk) fresh_opts no_files (session_start sample_disk 30) =
    Some (Captured out, s')" by (rule sample_capture)
  from capture_files_consistent [OF run] run show ?thesis by blast
qed

text \<open>C11: What a capture acknowledges is what it leaves, and it arrived on the line. On a port that
  never returns more bytes than asked for, the same capture with everything read from the port
  and written to it recorded shows a journal of \<open>DATA\<close> frames for sectors on the disk that lie
  in the bytes received one behind the other, whole and with the right checksum, each answered
  with \<open>ACK\<close> at once; no other \<open>ACK\<close> is sent, but one to an intact \<open>EOT\<close> frame at the end,
  which carries the totals the capture reports. And each sector has the status and, where the
  image file held the whole disk, the data of the last frame of the journal for it, a sector
  without one what it had in the files the capture started from.\<close>

theorem capture_journal:
  assumes "port_bounded P" "capture P opts fs s = Some (Captured out, s')"
  shows "\<exists>taken closing (g :: geometry) f sm jn.
      capture (recording P) opts fs (s, []) = Some (Captured out, s', taken @ closing)
    \<and> open_image opts fs (g_total g) (g_bps g) = Inr (f, sm)
    \<and> arrived jn taken \<and> journal_ok (g_total g) jn \<and> closes (cap_end out) closing
    \<and> (\<forall>k<g_total g. rx_map (cap_state out) ! k =
         (case last_frame k jn of Some (hdr, data, _) \<Rightarrow> status_of hdr | None \<Rightarrow> sm ! k))
    \<and> (g_total g * g_bps g \<le> length f \<longrightarrow>
         length (rx_image (cap_state out)) = length f
         \<and> (\<forall>k<g_total g. file_read_at (k * g_bps g) (g_bps g) (rx_image (cap_state out)) =
               (case last_frame k jn of Some (hdr, data, _) \<Rightarrow> data
                | None \<Rightarrow> file_read_at (k * g_bps g) (g_bps g) f)))"
proof -
  obtain taken closing and g :: geometry and f sm jn where
    rec: "capture (recording P) opts fs (s, []) = Some (Captured out, s', taken @ closing)"
    and j: "open_image opts fs (g_total g) (g_bps g) = Inr (f, sm)"
    "journal_ok (g_total g) jn" "journal_sized (g_bps g) jn"
    and arr: "arrived jn taken" "closes (cap_end out) closing"
    and state: "cap_state out = replay (g_bps g) jn
       \<lparr>rx_image = f, rx_map = sm, rx_bad = int (count_status BAD sm), rx_received = 0\<rparr>"
    using assms by (rule capture_received)
  let ?t = "g_total g" and ?bps = "g_bps g"
  have map: "rx_map (cap_state out) ! k =
      (case last_frame k jn of Some (hdr, data, _) \<Rightarrow> status_of hdr | None \<Rightarrow> sm ! k)" if "k < ?t" for k
    unfolding state using replay_map [OF j(2) _ that] open_image_length [OF j(1)]
    by (simp split: option.split)
  have image: "file_read_at (k * ?bps) ?bps (rx_image (cap_state out)) =
      (case last_frame k jn of Some (hdr, data, _) \<Rightarrow> data | None \<Rightarrow> file_read_at (k * ?bps) ?bps f)
    \<and> length (rx_image (cap_state out)) = length f" if "k < ?t" "?t * ?bps \<le> length f" for k
    unfolding state using replay_image [OF j(2,3) _ that(1)] that(2)
    by (simp split: option.split)
  have "length (rx_image (cap_state out)) = length f" if "?t * ?bps \<le> length f"
  proof (cases "?t = 0")
    case True
    with j(2) have "jn = []" by (cases jn) (auto simp: accepted_def)
    then show ?thesis by (simp add: state)
  next
    case False
    then have "0 < ?t" by simp
    from image [OF this that] show ?thesis by blast
  qed
  with map image j(1,2) rec arr show ?thesis by blast
qed

theorem capture_journal_witness:
  "\<exists>out s' taken closing (g :: geometry) f sm jn.
    capture (recording (dos_port sample_disk)) fresh_opts no_files (session_start sample_disk 30, []) =
      Some (Captured out, s', taken @ closing)
    \<and> open_image fresh_opts no_files (g_total g) (g_bps g) = Inr (f, sm)
    \<and> arrived jn taken \<and> journal_ok (g_total g) jn \<and> closes (cap_end out) closing
    \<and> (\<forall>k<g_total g. rx_map (cap_state out) ! k =
         (case last_frame k jn of Some (hdr, data, _) \<Rightarrow> status_of hdr | None \<Rightarrow> sm ! k))"
proof -
  obtain out s' where run: "capture (dos_port sample_disk) fresh_opts no_files (session_start sample_disk 30) =
    Some (Captured out, s')" by (rule sample_capture)
  from capture_journal [OF dos_port_bounded run] show ?thesis by blast
qed

text \<open>C18: A \<open>DATA\<close> or \<open>EOT\<close> frame in which a byte or two neighbouring bytes of the body, or any
  bytes of the checksum field, arrive changed, or the type byte so that no type of frame is
  left, is never taken: the receiver goes round again with the same image, map and counters,
  drops what is on the line and answers \<open>NAK\<close>, whatever device is behind the line. (Not claimed
  for other damage: without its \<open>SOH\<close> a frame is skipped and not answered, a type byte that
  becomes another type has the body read as such a frame, and by \<open>crc16_straddle\<close> the last byte
  of the body and the first of the checksum can change together unnoticed.)\<close>

theorem damaged_frames_rejected:
  assumes "line_queue s = raw_frame ty' got crc" "damaged_frame bps ty sent ty' got crc"
  shows "\<exists>s'. recv_step (line_port react expire) t bps cmd (r, s) = Some (Inr (r, s'))
    \<and> (line_peer s', line_queue s') = react [NAK] (line_peer s)"
  using assms(2)
proof (cases rule: damaged_frame_cases)
  case data
  with line.bad_data_round [of s got crc bps] assms(1) show ?thesis by metis
next
  case eot
  with line.bad_eot_round [of s got crc] assms(1) show ?thesis by metis
next
  case other
  with line.other_round [of s ty' got crc] assms(1) show ?thesis by metis
qed

theorem damaged_frames_rejected_witness:
  "\<exists>s'. recv_step (dos_port sample_disk) 1 2 []
      (\<lparr>rx_image = [0, 0], rx_map = [UNTRIED], rx_bad = 0, rx_received = 0\<rparr>,
       (3, tx_init, raw_frame TYPE_DATA [0, 0, 0, 0, 0, 9, 8] (le_bytes 2 (crc16 (TYPE_DATA # [0, 0, 0, 0, 0, 7, 8]))))) =
     Some (Inr (\<lparr>rx_image = [0, 0], rx_map = [UNTRIED], rx_bad = 0, rx_received = 0\<rparr>, s'))"
proof -
  let ?crc = "le_bytes 2 (crc16 (TYPE_DATA # [0, 0, 0, 0, 0, 7, 8]))"
  have "body_damage [0, 0, 0, 0, 0, 7, 8] [0, 0, 0, 0, 0, 9, 8]"
    unfolding body_damage_def
    by (intro exI [of _ "[0, 0, 0, 0, 0]"] exI [of _ "[]"] exI [of _ 7] exI [of _ 8]
        exI [of _ 9] exI [of _ 8]) simp
  then have "damaged_frame 2 TYPE_DATA [0, 0, 0, 0, 0, 7, 8] TYPE_DATA [0, 0, 0, 0, 0, 9, 8] ?crc"
    by (simp add: damaged_frame_def)
  from damaged_frames_rejected [OF _ this, of "(3, tx_init, raw_frame TYPE_DATA [0, 0, 0, 0, 0, 9, 8] ?crc)"
      "tx_bytes sample_disk" "tx_timeout sample_disk" 1 "[]"
      "\<lparr>rx_image = [0, 0], rx_map = [UNTRIED], rx_bad = 0, rx_received = 0\<rparr>"]
  show ?thesis unfolding dos_port_def by (simp add: line_queue_def) blast
qed

text \<open>C14: The worklist the host chooses, whether fresh, resumed or given by \<open>--range\<close>, arrives: it
  fits a command, the sender reads from the command frame exactly its ranges, and their
  sectors are those of the worklist, in order.\<close>

theorem worklist_arrives:
  assumes "choose_worklist opts sm t = Inr wl" "t < 2 ^ 32"
  shows "\<exists>p. cmd_payload wl = Inr p
    \<and> parse_cmd (tl (frame TYPE_CMD p)) = CmdRanges (range_words wl)
    \<and> tx_lbas (range_words wl) = lbas_of wl"
  using choose_worklist_payload [OF assms] choose_worklist_ok(2) [OF assms(1)] assms(2)
  by (fastforce intro: tx_lbas_words)

theorem worklist_arrives_witness:
  "\<exists>p. cmd_payload [(1, 2), (3, 4)] = Inr p
    \<and> parse_cmd (tl (frame TYPE_CMD p)) = CmdRanges [(1, 2), (3, 4)]"
proof -
  have "choose_worklist \<lparr>opt_resume = True, opt_range = [], opt_verify = False\<rparr>
      [GOOD, BAD, GOOD, UNTRIED] 4 = Inr [(1, 2), (3, 4)]"
    by (simp add: choose_worklist_def build_worklist_def todo_runs.simps todo_end.simps coalesce_short MAXR_def)
  from worklist_arrives [OF this] show ?thesis by auto
qed

end
