(* ===== verification/Noise.thy ===== *)
theory Noise
  imports Session
begin

text \<open>
  The capture on a line that damages and loses frames and replies. The noise is a script with
  one entry for every sector or \<open>EOT\<close> frame the sender sends; it belongs to the device, so the
  rest of the line keeps the contract of \<open>serial_line\<close>. As long as no frame fails as often as
  the sender is willing to send it, the capture ends as it does on a clean line.
\<close>

section \<open>Noise\<close>

text \<open>
  What happens to a frame: two neighbouring bytes of its payload or its checksum field change
  by the given masks, or nothing of it arrives; and to the receiver's answer: another byte
  arrives in its place, or none.
\<close>

datatype frame_noise = FrameOk | FrameHit nat byte byte | CrcHit byte byte | FrameLost
datatype reply_noise = ReplyOk | ReplyByte byte | ReplyLost

type_synonym attempt = "frame_noise \<times> reply_noise"

definition xor_pair :: "nat \<Rightarrow> byte \<Rightarrow> byte \<Rightarrow> byte list \<Rightarrow> byte list" where
  "xor_pair i m1 m2 xs = xs[i := xs ! i XOR m1, i + 1 := xs ! (i + 1) XOR m2]"

fun hit_frame :: "frame_noise \<Rightarrow> byte list \<Rightarrow> byte list" where
  "hit_frame FrameOk fr = fr"
| "hit_frame (FrameHit i m1 m2) fr = xor_pair (2 + i mod (length fr - 5)) m1 m2 fr"
| "hit_frame (CrcHit m1 m2) fr = xor_pair (length fr - 2) m1 m2 fr"
| "hit_frame FrameLost fr = []"

fun frame_intact :: "frame_noise \<Rightarrow> bool" where
  "frame_intact FrameOk = True"
| "frame_intact (FrameHit i m1 m2) = (m1 = 0 \<and> m2 = 0)"
| "frame_intact (CrcHit m1 m2) = (m1 = 0 \<and> m2 = 0)"
| "frame_intact FrameLost = False"

text \<open>
  Bearable noise: no answer turns into an \<open>ACK\<close>, and a frame that has been tried \<open>n\<close> times
  gets through before \<open>LINK_TRIES\<close>.
\<close>

fun bearable :: "nat \<Rightarrow> attempt list \<Rightarrow> bool" where
  "bearable n [] \<longleftrightarrow> True"
| "bearable n ((fn, rn) # as) \<longleftrightarrow> rn \<noteq> ReplyByte ACK \<and>
     (if frame_intact fn \<and> rn = ReplyOk then bearable 0 as
      else n + 1 < TX_LINK_TRIES \<and> bearable (n + 1) as)"

section \<open>The sender behind the noise\<close>

text \<open>The sender, what will become of the answer to its last frame, and the rest of the script.\<close>

type_synonym noisy_tx = "tx_state \<times> reply_noise \<times> attempt list"

fun on_air :: "tx_phase \<Rightarrow> bool" where
  "on_air (TxData n) = True"
| "on_air (TxEot n) = True"
| "on_air _ = False"

definition emit :: "tx_state \<times> byte list \<Rightarrow> attempt list \<Rightarrow> noisy_tx \<times> byte list" where
  "emit = (\<lambda>(x, out) as.
     if on_air (tx_phase x)
     then (case as of
             [] \<Rightarrow> ((x, ReplyOk, []), out)
           | (fn, rn) # as' \<Rightarrow> ((x, rn, as'), hit_frame fn out))
     else ((x, ReplyOk, as), out))"

definition noisy_bytes :: "tx_disk \<Rightarrow> byte list \<Rightarrow> noisy_tx \<Rightarrow> noisy_tx \<times> byte list" where
  "noisy_bytes d bs = (\<lambda>(x, rn, as).
     if on_air (tx_phase x)
     then (case rn of
             ReplyOk \<Rightarrow> emit (tx_bytes d bs x) as
           | ReplyByte b \<Rightarrow> emit (tx_bytes d [b] x) as
           | ReplyLost \<Rightarrow> ((x, rn, as), []))
     else emit (tx_bytes d bs x) as)"

definition noisy_timeout :: "tx_disk \<Rightarrow> noisy_tx \<Rightarrow> noisy_tx \<times> byte list" where
  "noisy_timeout d = (\<lambda>(x, rn, as). emit (tx_timeout d x) as)"

section \<open>Damaged frames do not pass\<close>

lemma xor_changed: "(m1, m2) \<noteq> (0, 0) \<Longrightarrow> (a, b) \<noteq> (a XOR m1, b XOR m2)" for a b :: byte
proof -
  have "m = 0" if "a = a XOR m" for a m :: byte
    using that by (metis (no_types) bit.xor_left_self bit.xor_self)
  from this [of a m1] this [of b m2]
  show "(m1, m2) \<noteq> (0, 0) \<Longrightarrow> (a, b) \<noteq> (a XOR m1, b XOR m2)" by (simp only: prod.inject) blast
qed

lemma split_pair:
  assumes "i + 1 < length xs"
  obtains ys zs where "xs = ys @ [xs ! i, xs ! (i + 1)] @ zs" "length ys = i"
proof
  show "xs = take i xs @ [xs ! i, xs ! (i + 1)] @ drop (i + 2) xs"
    using assms id_take_nth_drop [of i xs] Cons_nth_drop_Suc [of "i + 1" xs] by simp
  show "length (take i xs) = i" using assms by simp
qed

lemma xor_pair_split:
  "length ys = i \<Longrightarrow> xor_pair i m1 m2 (ys @ [a, b] @ zs) = ys @ [a XOR m1, b XOR m2] @ zs"
  by (auto simp: xor_pair_def list_update_append nth_append)

lemma hit_frame_bad:
  assumes "\<not> frame_intact fn" "fn \<noteq> FrameLost" "2 \<le> length payload"
  obtains payload' crc' where "hit_frame fn (frame ty payload) = raw_frame ty payload' crc'"
    "length payload' = length payload" "length crc' = 2" "crc16 (ty # payload') \<noteq> from_bytes_le crc'"
proof (cases fn)
  case (FrameHit i m1 m2)
  let ?crc = "le_bytes 2 (crc16 (ty # payload))"
  let ?i = "i mod (length payload - 1)"
  have "?i < length payload - 1" using assms(3) by (intro mod_less_divisor) simp
  then have "?i + 1 < length payload" by simp
  then obtain ys zs where payload: "payload = ys @ [payload ! ?i, payload ! (?i + 1)] @ zs" and ys: "length ys = ?i"
    by (rule split_pair)
  let ?a = "payload ! ?i" and ?b = "payload ! (?i + 1)"
  let ?p = "ys @ [?a XOR m1, ?b XOR m2] @ zs"
  have "frame ty payload = [SOH, ty] @ payload @ ?crc" by (simp add: frame_simp)
  also have "\<dots> = ([SOH, ty] @ ys) @ [?a, ?b] @ (zs @ ?crc)" by (subst (1) payload) simp
  finally have fr: "frame ty payload = \<dots>" .
  have "hit_frame fn (frame ty payload) = xor_pair (2 + ?i) m1 m2 (frame ty payload)"
    by (simp add: FrameHit)
  also have "\<dots> = ([SOH, ty] @ ys) @ [?a XOR m1, ?b XOR m2] @ (zs @ ?crc)"
    unfolding fr by (rule xor_pair_split) (simp add: ys)
  finally have "hit_frame fn (frame ty payload) = \<dots>" .
  moreover have "body_damage payload ?p"
    using assms(1) payload xor_changed [of m1 m2 ?a ?b] unfolding body_damage_def FrameHit by fastforce
  moreover have "length ?p = length payload"
    by (subst (5) payload) simp
  ultimately show thesis
    using body_damage_crc [of payload ?p ty] that [of ?p ?crc] by (simp add: raw_frame_def)
next
  case (CrcHit m1 m2)
  let ?crc = "le_bytes 2 (crc16 (ty # payload))"
  have "length ?crc = 2" by simp
  then obtain a b where ab: "?crc = [a, b]"
    by (cases ?crc; cases "tl ?crc") auto
  have fr: "frame ty payload = ([SOH, ty] @ payload) @ [a, b] @ []" by (simp add: frame_simp ab)
  have "hit_frame fn (frame ty payload) = xor_pair (length payload + 2) m1 m2 (frame ty payload)"
    by (simp add: CrcHit)
  also have "\<dots> = ([SOH, ty] @ payload) @ [a XOR m1, b XOR m2] @ []"
    unfolding fr by (rule xor_pair_split) simp
  finally have "hit_frame fn (frame ty payload) = \<dots>" .
  moreover have "from_bytes_le [a XOR m1, b XOR m2] \<noteq> from_bytes_le ?crc"
  proof
    assume "from_bytes_le [a XOR m1, b XOR m2] = from_bytes_le ?crc"
    then have "[a XOR m1, b XOR m2] = ?crc" by (rule from_bytes_le_inj [rotated]) simp
    with xor_changed [of m1 m2 a b] assms(1) ab show False by (simp add: CrcHit)
  qed
  ultimately show thesis
    by (intro that [of payload "[a XOR m1, b XOR m2]"]) (simp_all only: raw_frame_def crc_field, simp_all)
qed (use assms in simp_all)

lemma hit_frame_intact: "frame_intact fn \<Longrightarrow> hit_frame fn fr = fr"
  by (cases fn) (simp_all add: xor_pair_def)

section \<open>Tries\<close>

lemma tx_byte_not_ack: "on_air (tx_phase x) \<Longrightarrow> b \<noteq> ACK \<Longrightarrow> tx_byte d b x = tx_timeout d x"
  by (cases "tx_phase x") (simp_all add: tx_byte_def tx_timeout_def)

lemma same_phase: "tx_phase x = p \<Longrightarrow> x\<lparr>tx_phase := p\<rparr> = x"
  by auto

lemma advance_phase: "advance (x\<lparr>tx_phase := p\<rparr>) = (advance x)\<lparr>tx_phase := p\<rparr>"
  by (simp add: advance_def split: list.split)

lemma advance_totals [simp]: "tx_good (advance x) = tx_good x" "tx_bad (advance x) = tx_bad x"
  by (simp_all add: advance_def split: list.split)

lemma emit_sender: "(p, q) = emit y as \<Longrightarrow> fst p = fst y"
  by (auto simp: emit_def case_prod_unfold split: list.splits if_splits)

lemma tx_bytes_one [simp]: "tx_bytes d [b] x = tx_byte d b x"
  by (simp add: case_prod_unfold)

locale noisy_line =
  serial_line P inq peer "noisy_bytes d"
  for P :: "'s port" and inq and peer :: "'s \<Rightarrow> noisy_tx" and d :: tx_disk +
  assumes silent: "inq s = [] \<Longrightarrow> 0 < n \<Longrightarrow>
    fst (ser_read P n s) = Inr [] \<and>
    (peer (snd (ser_read P n s)), inq (snd (ser_read P n s))) = noisy_timeout d (peer s)"
begin

text \<open>Nothing arrives: the receiver goes round, the sender's wait expires.\<close>

lemma silent_round:
  assumes "inq s = []"
  obtains s' where "recv_step P t bps cmd (r, s) = Some (Inr (r, s'))"
    "(peer s', inq s') = noisy_timeout d (peer s)"
proof -
  obtain s' where s': "ser_read P 1 s = (Inr [], s')" "(peer s', inq s') = noisy_timeout d (peer s)"
    using silent [OF assms, of 1] by (metis prod.collapse zero_less_one)
  then have "hunt_soh P s = Some (Inl TimeoutError, s')"
    by (simp add: hunt_soh_def hunt_step_def while_true_break)
  with s'(2) show thesis
    by (intro that [of s']) (simp_all add: recv_step_def recv_event_def io_bind_def)
qed

text \<open>An answer that is not an \<open>ACK\<close>, or does not arrive, makes the sender try again.\<close>

lemma answer_fails:
  assumes "(peer s, inq s) = noisy_bytes d [c] (x, rn, as)" "on_air (tx_phase x)"
    and "rn \<noteq> ReplyByte ACK" "c \<noteq> ACK \<or> rn \<noteq> ReplyOk"
  obtains s' where "recv_loop P t bps cmd (r, s) = recv_loop P t bps cmd (r, s')"
    "(peer s', inq s') = emit (tx_timeout d x) as"
proof (cases rn)
  case ReplyLost
  with assms have p: "peer s = (x, rn, as)" "inq s = []" by (simp_all add: noisy_bytes_def)
  obtain s' where "recv_step P t bps cmd (r, s) = Some (Inr (r, s'))"
    "(peer s', inq s') = noisy_timeout d (peer s)"
    by (rule silent_round [OF p(2)])
  then show thesis
    by (intro that [of s']) (simp_all add: recv_loop_def while_true_continue p noisy_timeout_def)
qed (use assms that [of s] in \<open>auto simp: noisy_bytes_def tx_byte_not_ack\<close>)

text \<open>A frame that does not arrive whole is tried again, with nothing stored.\<close>

lemma frame_fails:
  assumes "(peer s, inq s) = emit (x, frame ty payload) ((fn, rn) # as)" "on_air (tx_phase x)"
    and "\<not> frame_intact fn" "rn \<noteq> ReplyByte ACK"
    and "ty = TYPE_DATA \<and> length payload = 5 + bps \<or> ty = TYPE_EOT \<and> length payload = 8"
  obtains s' where "recv_loop P t bps cmd (r, s) = recv_loop P t bps cmd (r, s')"
    "(peer s', inq s') = emit (tx_timeout d x) as"
proof (cases "fn = FrameLost")
  case True
  with assms have p: "peer s = (x, rn, as)" "inq s = []" by (simp_all add: emit_def)
  obtain s' where "recv_step P t bps cmd (r, s) = Some (Inr (r, s'))"
    "(peer s', inq s') = noisy_timeout d (peer s)"
    by (rule silent_round [OF p(2)])
  then show thesis
    by (intro that [of s']) (simp_all add: recv_loop_def while_true_continue p noisy_timeout_def)
next
  case False
  have p: "peer s = (x, rn, as)" "inq s = hit_frame fn (frame ty payload)"
    using assms(1,2) by (simp_all add: emit_def)
  have "2 \<le> length payload" using assms(5) by auto
  from hit_frame_bad [OF assms(3) False this, of ty] obtain payload' crc' where
    hit: "inq s = raw_frame ty payload' crc'" and len: "length payload' = length payload" "length crc' = 2"
    and bad: "crc16 (ty # payload') \<noteq> from_bytes_le crc'" by (metis p(2))
  have "\<exists>s'. recv_step P t bps cmd (r, s) = Some (Inr (r, s')) \<and>
      (peer s', inq s') = noisy_bytes d [NAK] (peer s)"
  proof (cases "ty = TYPE_DATA")
    case True
    show ?thesis
      by (rule bad_data_round [of s payload' crc' bps t cmd r])
         (use hit len bad assms(5) True in \<open>auto\<close>)
  next
    case False
    show ?thesis
      by (rule bad_eot_round [of s payload' crc' t bps cmd r])
         (use hit len bad assms(5) False in \<open>auto\<close>)
  qed
  then obtain s1 where s1: "recv_step P t bps cmd (r, s) = Some (Inr (r, s1))"
    "(peer s1, inq s1) = noisy_bytes d [NAK] (x, rn, as)" by (auto simp: p)
  have nak: "NAK \<noteq> ACK \<or> rn \<noteq> ReplyOk" by simp
  obtain s' where "recv_loop P t bps cmd (r, s1) = recv_loop P t bps cmd (r, s')"
    "(peer s', inq s') = emit (tx_timeout d x) as"
    by (rule answer_fails [OF s1(2) assms(2,4) nak])
  with s1(1) show thesis
    by (intro that [of s']) (simp_all add: recv_loop_def while_true_continue)
qed

lemma length_stored_again [simp]: "length (rx_map (((stored bps k st buf) ^^ j) r)) = length (rx_map r)"
  by (induction j) simp_all

text \<open>A sector is stored at least once, and the sender goes on to the next.\<close>

lemma sector_tries:
  assumes "(peer s, inq s) = emit (x, fr) as" "tx_phase x = TxData n" "bearable n as"
    and "fr = data_frame (fst (hd (tx_ranges x))) (tx_status x) (tx_buf x)"
    and "fr = frame TYPE_DATA ((le_bytes 4 k @ [st]) @ buf)" "length buf = bps" "k < t" "t \<le> 2 ^ 32"
    and "k < length (rx_map r)"
  shows "\<exists>m n' as' s'. recv_loop P t bps cmd (r, s) =
        recv_loop P t bps cmd (((stored bps k st buf) ^^ Suc m) r, s') \<and>
      (peer s', inq s') = emit (next_sector d (advance (x\<lparr>tx_phase := TxData n'\<rparr>))) as' \<and> bearable 0 as'"
  using assms(1-4,9)
proof (induction as arbitrary: s x r n)
  case Nil
  then have p: "peer s = (x, ReplyOk, [])" "inq s = fr" by (simp_all add: emit_def)
  obtain s1 where s1: "recv_step P t bps cmd (r, s) = Some (Inr (stored bps k st buf r, s1))"
    "(peer s1, inq s1) = noisy_bytes d [ACK] (peer s)"
    by (rule data_round [OF p(2) [unfolded assms(5)] assms(6-8) Nil.prems(5)])
  from s1(2) Nil(2) have "(peer s1, inq s1) = emit (next_sector d (advance (x\<lparr>tx_phase := TxData n\<rparr>))) []"
    by (simp add: same_phase) (simp add: p noisy_bytes_def tx_byte_def)
  moreover have "recv_loop P t bps cmd (r, s) = recv_loop P t bps cmd (((stored bps k st buf) ^^ Suc 0) r, s1)"
    using s1(1) by (simp add: recv_loop_def while_true_continue)
  moreover have "bearable 0 []" by simp
  ultimately show ?case by blast
next
  case (Cons a as)
  obtain fn rn where a: "a = (fn, rn)" by (cases a)
  from Cons.prems(3) a have honest: "rn \<noteq> ReplyByte ACK" by simp
  have air: "on_air (tx_phase x)" using Cons.prems(2) by simp
  note len = assms(6)
  have again: ?case
    if loop: "recv_loop P t bps cmd (r, s) = recv_loop P t bps cmd (((stored bps k st buf) ^^ j) r, s')"
      and sent: "(peer s', inq s') = emit (tx_timeout d x) as" and fails: "\<not> (frame_intact fn \<and> rn = ReplyOk)"
    for s' j
  proof -
    from fails Cons.prems(3) a have more: "n + 1 < TX_LINK_TRIES" "bearable (n + 1) as" by auto
    with Cons.prems(2,4) have "tx_timeout d x = (x\<lparr>tx_phase := TxData (n + 1)\<rparr>, fr)"
      by (simp add: tx_timeout_def resend_data_def)
    with sent have "(peer s', inq s') = emit (x\<lparr>tx_phase := TxData (n + 1)\<rparr>, fr) as" by simp
    from Cons.IH [OF this _ more(2), of "((stored bps k st buf) ^^ j) r"] Cons.prems(4,5) obtain m n' as' s'' where
      "recv_loop P t bps cmd (((stored bps k st buf) ^^ j) r, s') =
        recv_loop P t bps cmd (((stored bps k st buf) ^^ Suc m) (((stored bps k st buf) ^^ j) r), s'')"
      "(peer s'', inq s'') = emit (next_sector d (advance (x\<lparr>tx_phase := TxData n'\<rparr>))) as'" "bearable 0 as'"
      by auto
    moreover from this(1) loop have "recv_loop P t bps cmd (r, s) =
        recv_loop P t bps cmd (((stored bps k st buf) ^^ Suc (m + j)) r, s'')"
      by (simp add: funpow_add)
    ultimately show ?thesis by blast
  qed
  show ?case
  proof (cases "frame_intact fn")
    case False
    have "5 + bps = length ((le_bytes 4 k @ [st]) @ buf)" by (simp add: len)
    then have shape: "TYPE_DATA = TYPE_DATA \<and> length ((le_bytes 4 k @ [st]) @ buf) = 5 + bps \<or>
      TYPE_DATA = TYPE_EOT \<and> length ((le_bytes 4 k @ [st]) @ buf) = 8" by simp
    obtain s' where "recv_loop P t bps cmd (r, s) = recv_loop P t bps cmd (r, s')"
      "(peer s', inq s') = emit (tx_timeout d x) as"
      by (rule frame_fails [OF Cons.prems(1) [unfolded a assms(5)] air False honest shape])
    with again [of 0 s'] False show ?thesis by simp
  next
    case True
    have p: "peer s = (x, rn, as)" "inq s = fr"
      using Cons.prems(1) air by (simp_all add: emit_def a hit_frame_intact [OF True])
    obtain s1 where s1: "recv_step P t bps cmd (r, s) = Some (Inr (stored bps k st buf r, s1))"
      "(peer s1, inq s1) = noisy_bytes d [ACK] (peer s)"
      by (rule data_round [OF p(2) [unfolded assms(5)] assms(6-8) Cons.prems(5)])
    then have loop: "recv_loop P t bps cmd (r, s) = recv_loop P t bps cmd (stored bps k st buf r, s1)"
      by (simp add: recv_loop_def while_true_continue)
    show ?thesis
    proof (cases "rn = ReplyOk")
      case ok: True
      from s1(2) Cons.prems(2) ok
      have "(peer s1, inq s1) = emit (next_sector d (advance (x\<lparr>tx_phase := TxData n\<rparr>))) as"
        by (simp add: same_phase) (simp add: p noisy_bytes_def tx_byte_def)
      moreover have "recv_loop P t bps cmd (r, s) =
          recv_loop P t bps cmd (((stored bps k st buf) ^^ Suc 0) r, s1)" using loop by simp
      moreover have "bearable 0 as" using Cons.prems(3) a True ok by simp
      ultimately show ?thesis by blast
    next
      case False
      then have fails: "ACK \<noteq> ACK \<or> rn \<noteq> ReplyOk" by simp
      obtain s' where "recv_loop P t bps cmd (stored bps k st buf r, s1) =
          recv_loop P t bps cmd (stored bps k st buf r, s')"
        "(peer s', inq s') = emit (tx_timeout d x) as"
        by (rule answer_fails [OF s1(2) [unfolded p] air honest fails])
      with loop again [of 1 s'] False show ?thesis by simp
    qed
  qed
qed

text \<open>The totals arrive.\<close>

lemma eot_tries:
  assumes "(peer s, inq s) = emit (x, eot_frame (tx_good x) (tx_bad x)) as"
    and "tx_phase x = TxEot n" "bearable n as"
  shows "\<exists>s'. recv_loop P t bps cmd (r, s) = Some (Inr (unat (tx_good x), unat (tx_bad x)), r, s')
    \<and> tx_phase (fst (peer s')) \<noteq> TxLinkLost"
  using assms
proof (induction as arbitrary: s x n)
  case Nil
  then have p: "peer s = (x, ReplyOk, [])"
    "inq s = frame TYPE_EOT (le_bytes 4 (unat (tx_good x)) @ le_bytes 4 (unat (tx_bad x)))"
    by (simp_all add: emit_def eot_frame_eq)
  have lt: "unat (tx_good x) < 2 ^ 32" "unat (tx_bad x) < 2 ^ 32"
    using unsigned_less [of "tx_good x"] unsigned_less [of "tx_bad x"] by simp_all
  obtain s1 where "recv_step P t bps cmd (r, s) = Some (Inl (Inr (unat (tx_good x), unat (tx_bad x)), r, s1))"
    "(peer s1, inq s1) = noisy_bytes d [ACK] (peer s)"
    by (rule eot_round [OF p(2) lt])
  with Nil(2) show ?case
    by (intro exI [of _ s1])
       (simp add: recv_loop_def while_true_break p noisy_bytes_def tx_byte_def emit_def)
next
  case (Cons a as)
  obtain fn rn where a: "a = (fn, rn)" by (cases a)
  from Cons.prems(3) a have honest: "rn \<noteq> ReplyByte ACK" by simp
  have air: "on_air (tx_phase x)" using Cons.prems(2) by simp
  let ?p = "le_bytes 4 (unat (tx_good x)) @ le_bytes 4 (unat (tx_bad x))"
  show ?case
  proof (cases "frame_intact fn")
    case False
    then have more: "n + 1 < TX_LINK_TRIES" "bearable (n + 1) as" using Cons.prems(3) a by auto
    obtain s' where s': "recv_loop P t bps cmd (r, s) = recv_loop P t bps cmd (r, s')"
      "(peer s', inq s') = emit (tx_timeout d x) as"
      by (rule frame_fails [OF Cons.prems(1) [unfolded a eot_frame_eq] air False honest]) simp
    have "tx_timeout d x = (x\<lparr>tx_phase := TxEot (n + 1)\<rparr>, eot_frame (tx_good x) (tx_bad x))"
      using Cons.prems(2) more(1) by (simp add: tx_timeout_def resend_eot_def)
    with Cons.IH [of s' "x\<lparr>tx_phase := TxEot (n + 1)\<rparr>" "n + 1"] s' more(2) show ?thesis by simp
  next
    case True
    have p: "peer s = (x, rn, as)" "inq s = frame TYPE_EOT ?p"
      using Cons.prems(1) air by (simp_all add: emit_def a hit_frame_intact [OF True] eot_frame_eq)
    have lt: "unat (tx_good x) < 2 ^ 32" "unat (tx_bad x) < 2 ^ 32"
      using unsigned_less [of "tx_good x"] unsigned_less [of "tx_bad x"] by simp_all
    obtain s1 where s1: "recv_step P t bps cmd (r, s) = Some (Inl (Inr (unat (tx_good x), unat (tx_bad x)), r, s1))"
      "(peer s1, inq s1) = noisy_bytes d [ACK] (peer s)"
      by (rule eot_round [OF p(2) lt])
    have "tx_phase (fst (tx_byte d b x)) \<noteq> TxLinkLost" for b
      using Cons.prems(2) by (simp add: tx_byte_def resend_eot_def)
    then have "tx_phase (fst (peer s1)) \<noteq> TxLinkLost"
      using s1(2) Cons.prems(2) by (cases rn) (auto simp: p noisy_bytes_def dest!: emit_sender)
    with s1(1) show ?thesis
      by (intro exI [of _ s1]) (simp add: recv_loop_def while_true_break)
  qed
qed

text \<open>The whole stream: every sector of the worklist is stored, some more than once.\<close>

lemma noisy_loop:
  assumes "(peer s, inq s) = emit (next_sector d x) as" "bearable 0 as" "tx_lbas (tx_ranges x) = ks"
    and "\<forall>k\<in>set ks. k < t" "t \<le> 2 ^ 32" "bios_sized d" "length (rx_map r) = t"
  shows "\<exists>ls s'. set ls = set ks \<and> recv_loop P t BPS cmd (r, s) =
      Some (Inr (unat (tx_good x + of_nat (length (filter (\<lambda>k. disk_read d k \<noteq> None) ks))),
                 unat (tx_bad x + of_nat (length (filter (\<lambda>k. disk_read d k = None) ks)))),
            replay BPS (map (disk_frame d) ls) r, s') \<and> tx_phase (fst (peer s')) \<noteq> TxLinkLost"
  using assms
proof (induction ks arbitrary: s x r as)
  case Nil
  let ?x = "x\<lparr>tx_phase := TxEot 0, tx_ranges := []\<rparr>"
  have "next_sector d x = (?x, eot_frame (tx_good ?x) (tx_bad ?x))"
    using next_sector_end Nil.prems(3) by simp
  with Nil.prems(1) have "(peer s, inq s) = emit (?x, eot_frame (tx_good ?x) (tx_bad ?x)) as" by simp
  from eot_tries [where n = 0 and t = t and bps = BPS and cmd = cmd and r = r, OF this _ Nil.prems(2)]
  obtain s' where
    "recv_loop P t BPS cmd (r, s) = Some (Inr (unat (tx_good x), unat (tx_bad x)), r, s')"
    "tx_phase (fst (peer s')) \<noteq> TxLinkLost" by auto
  then show ?case by (intro exI [of _ "[]"] exI [of _ s']) simp
next
  case (Cons k ks)
  let ?fr = "data_frame (word_of_nat k) (disk_status d k) (disk_bytes d k)"
  obtain x' where x': "next_sector d x = (x', ?fr)" "tx_phase x' = TxData 0"
    "tx_lbas (tx_ranges (advance x')) = ks"
    "tx_good x' = tx_good x + of_bool (disk_read d k \<noteq> None)"
    "tx_bad x' = tx_bad x + of_bool (disk_read d k = None)"
    "data_frame (fst (hd (tx_ranges x'))) (tx_status x') (tx_buf x') = ?fr"
    by (rule next_sector_data [OF Cons.prems(3), of d])
  have k: "k < t" "k < 2 ^ 32" using Cons.prems by auto
  let ?store = "stored BPS k (disk_status d k) (disk_bytes d k)"
  have "(peer s, inq s) = emit (x', ?fr) as" using Cons.prems(1) x'(1) by simp
  from sector_tries [OF this x'(2) Cons.prems(2) x'(6) [symmetric] data_frame_eq [OF k(2)]
      length_disk_bytes [OF Cons.prems(6)] k(1) Cons.prems(5) k(1) [folded Cons.prems(7)], of cmd]
  obtain m n' as' s1 where s1: "recv_loop P t BPS cmd (r, s) = recv_loop P t BPS cmd ((?store ^^ Suc m) r, s1)"
    "(peer s1, inq s1) = emit (next_sector d (advance (x'\<lparr>tx_phase := TxData n'\<rparr>))) as'" "bearable 0 as'"
    by blast
  have rest: "tx_lbas (tx_ranges (advance (x'\<lparr>tx_phase := TxData n'\<rparr>))) = ks"
    using x'(3) by (simp add: advance_phase)
  have below: "\<forall>k\<in>set ks. k < t" using Cons.prems(4) by simp
  have len: "length (rx_map ((?store ^^ Suc m) r)) = t"
    unfolding length_stored_again by (rule Cons.prems(7))
  from Cons.IH [OF s1(2,3) rest below Cons.prems(5,6) len] obtain ls s' where
    IH: "set ls = set ks" "recv_loop P t BPS cmd ((?store ^^ Suc m) r, s1) =
      Some (Inr (unat (tx_good x' + of_nat (length (filter (\<lambda>k. disk_read d k \<noteq> None) ks))),
                 unat (tx_bad x' + of_nat (length (filter (\<lambda>k. disk_read d k = None) ks)))),
            replay BPS (map (disk_frame d) ls) ((?store ^^ Suc m) r), s')"
    "tx_phase (fst (peer s')) \<noteq> TxLinkLost" by auto
  have again: "replay BPS (map (disk_frame d) (replicate j k)) r = (?store ^^ j) r" for j r
    using k(2) by (induction j arbitrary: r) (simp_all add: disk_frame_def Let_def frame_lba_le nth_hdr funpow_swap1)
  have "replay BPS (map (disk_frame d) (replicate (Suc m) k @ ls)) r =
      replay BPS (map (disk_frame d) ls) ((?store ^^ Suc m) r)"
    unfolding map_append replay_simps again ..
  moreover have "set (replicate (Suc m) k @ ls) = set (k # ks)" using IH(1) by auto
  moreover have "recv_loop P t BPS cmd (r, s) =
      Some (Inr (unat (tx_good x + of_nat (length (filter (\<lambda>k. disk_read d k \<noteq> None) (k # ks)))),
                 unat (tx_bad x + of_nat (length (filter (\<lambda>k. disk_read d k = None) (k # ks))))),
            replay BPS (map (disk_frame d) ls) ((?store ^^ Suc m) r), s')"
    using s1(1) IH(2) x'(4,5) by (simp add: ac_simps)
  ultimately show ?case using IH(3) by metis
qed

lemma noisy_session:
  fixes opts fs s
  defines "t \<equiv> unat (d_total d)"
  assumes "inq s = pre @ send_info d" "SOH \<notin> set pre"
    and peer: "peer s = (x0, ReplyOk, as)" "tx_phase x0 = TxHunt n" "tx_good x0 = 0" "tx_bad x0 = 0"
    and noise: "bearable 0 as"
    and sized: "bios_sized d"
    and image: "open_image opts fs t BPS = Inr (f, sm)"
    and worklist: "choose_worklist opts sm t = Inr wl"
  shows "\<exists>ls s'. set ls = set (lbas_of wl) \<and> capture P opts fs s =
      Some (Captured (finish_capture opts t BPS
        (Inr (length (filter (\<lambda>k. disk_read d k \<noteq> None) (lbas_of wl)) mod 2 ^ 32,
              length (filter (\<lambda>k. disk_read d k = None) (lbas_of wl)) mod 2 ^ 32))
        (replay BPS (map (disk_frame d) ls)
          \<lparr>rx_image = f, rx_map = sm, rx_bad = int (count_status BAD sm), rx_received = 0\<rparr>)), s')
    \<and> tx_phase (fst (peer s')) \<noteq> TxLinkLost"
proof -
  have no_wrap: "t \<le> 2 ^ 32" unfolding t_def using unsigned_less [of "d_total d", where 'a = nat] by simp
  have below: "\<forall>k\<in>set (lbas_of wl). k < t"
    using choose_worklist_ok(2) [OF worklist] by (fastforce simp: covered_def)
  obtain p s2 where p: "cmd_payload wl = Inr p"
    "(peer s2, inq s2) = noisy_bytes d (frame TYPE_CMD p) (peer s)"
    "length wl \<le> MAXR" "\<forall>(a, b)\<in>set wl. a < 2 ^ 32 \<and> b < 2 ^ 32"
    and run: "capture P opts fs s =
      (case recv_loop P t BPS p (\<lparr>rx_image = f, rx_map = sm, rx_bad = int (count_status BAD sm),
           rx_received = 0\<rparr>, s2) of
         None \<Rightarrow> None
       | Some (ending, r, s3) \<Rightarrow> Some (Captured (finish_capture opts t BPS ending r), s3))"
    by (rule capture_start [OF assms(2,3) image [unfolded t_def] worklist [unfolded t_def], folded t_def])
  obtain x where x: "tx_bytes d (frame TYPE_CMD p) x0 = next_sector d x"
    "tx_lbas (tx_ranges x) = lbas_of wl" "tx_good x = tx_good x0" "tx_bad x = tx_bad x0"
    by (rule tx_worklist [OF peer(2) p(1,3,4)])
  have sent: "(peer s2, inq s2) = emit (next_sector d x) as"
    using p(2) x(1) peer(1,2) by (simp add: noisy_bytes_def)
  have len: "length (rx_map \<lparr>rx_image = f, rx_map = sm, rx_bad = int (count_status BAD sm), rx_received = 0\<rparr>) = t"
    using open_image_length [OF image] by simp
  from noisy_loop [OF sent noise x(2) below no_wrap sized len, of p] obtain ls s3 where
    "set ls = set (lbas_of wl)"
    "recv_loop P t BPS p (\<lparr>rx_image = f, rx_map = sm, rx_bad = int (count_status BAD sm), rx_received = 0\<rparr>, s2) =
      Some (Inr (length (filter (\<lambda>k. disk_read d k \<noteq> None) (lbas_of wl)) mod 2 ^ 32,
                 length (filter (\<lambda>k. disk_read d k = None) (lbas_of wl)) mod 2 ^ 32),
            replay BPS (map (disk_frame d) ls)
              \<lparr>rx_image = f, rx_map = sm, rx_bad = int (count_status BAD sm), rx_received = 0\<rparr>, s3)"
    "tx_phase (fst (peer s3)) \<noteq> TxLinkLost"
    using peer(3,4) x(3,4) by (fastforce simp: unat_of_nat take_bit_eq_mod)
  with run show ?thesis by (intro exI [of _ ls] exI [of _ s3]) simp
qed

end

section \<open>The noisy port\<close>

definition noisy_port :: "tx_disk \<Rightarrow> noisy_tx line port" where
  "noisy_port d = line_port (noisy_bytes d) (noisy_timeout d)"

interpretation noisy: noisy_line "noisy_port d" line_queue line_peer d for d
  unfolding noisy_port_def noisy_line_def noisy_line_axioms_def
  by (intro conjI allI impI line.serial_line_axioms)
     (auto simp: line_port_def line_queue_def line_peer_def case_prod_unfold Let_def)

definition noisy_start :: "tx_disk \<Rightarrow> rat \<Rightarrow> attempt list \<Rightarrow> noisy_tx line" where
  "noisy_start d timeout as = (timeout, (tx_init, ReplyOk, as), send_info d)"

section \<open>Properties\<close>

text \<open>C5: On a line that damages and loses sector frames, totals and answers, a capture still comes
  to its end with the image and the map it would have had on a clean line, as long as no frame
  fails \<open>LINK_TRIES\<close> times in a row and no answer turns into an \<open>ACK\<close>: every sector of the
  worklist has its bytes in the image and its status in the map, nothing else has changed, and
  the totals of the sender count each sector once.\<close>

theorem noisy_capture:
  assumes "bios_sized d" "bearable 0 as"
    and "open_image opts fs (unat (d_total d)) BPS = Inr (f, sm)"
    and "unat (d_total d) * BPS \<le> length f" and "length sm = unat (d_total d)"
    and "choose_worklist opts sm (unat (d_total d)) = Inr wl"
  shows "\<exists>out s'. capture (noisy_port d) opts fs (noisy_start d timeout as) = Some (Captured out, s')
    \<and> tx_phase (fst (line_peer s')) \<noteq> TxLinkLost
    \<and> cap_end out = Inr (length (filter (\<lambda>k. disk_read d k \<noteq> None) (lbas_of wl)) mod 2 ^ 32,
                       length (filter (\<lambda>k. disk_read d k = None) (lbas_of wl)) mod 2 ^ 32)
    \<and> cap_mapfile out = write_mapfile (rx_map (cap_state out)) BPS (unat (d_total d))
    \<and> length (rx_map (cap_state out)) = unat (d_total d)
    \<and> length (rx_image (cap_state out)) = length f
    \<and> (\<forall>k<unat (d_total d).
         file_read_at (k * BPS) BPS (rx_image (cap_state out)) =
           (if k \<in> covered wl then disk_bytes d k else file_read_at (k * BPS) BPS f)
         \<and> rx_map (cap_state out) ! k =
           (if k \<in> covered wl then (if disk_read d k = None then BAD else GOOD) else sm ! k))"
proof -
  have start: "line_queue (noisy_start d timeout as) = [] @ send_info d" "SOH \<notin> set []"
    "line_peer (noisy_start d timeout as) = (tx_init, ReplyOk, as)"
    "tx_phase tx_init = TxHunt 0" "tx_good tx_init = 0" "tx_bad tx_init = 0"
    by (simp_all add: noisy_start_def line_queue_def line_peer_def tx_init_def)
  obtain ls s' where run: "set ls = set (lbas_of wl)"
    "capture (noisy_port d) opts fs (noisy_start d timeout as) =
      Some (Captured (finish_capture opts (unat (d_total d)) BPS
        (Inr (length (filter (\<lambda>k. disk_read d k \<noteq> None) (lbas_of wl)) mod 2 ^ 32,
              length (filter (\<lambda>k. disk_read d k = None) (lbas_of wl)) mod 2 ^ 32))
        (replay BPS (map (disk_frame d) ls)
          \<lparr>rx_image = f, rx_map = sm, rx_bad = int (count_status BAD sm), rx_received = 0\<rparr>)), s')"
    "tx_phase (fst (line_peer s')) \<noteq> TxLinkLost"
    using noisy.noisy_session [OF start assms(2,1,3,6)] by blast
  from session_result [OF assms(1,4,5,6) run(1)] run(2,3) show ?thesis
    by (intro exI [of _ "finish_capture opts (unat (d_total d)) BPS
        (Inr (length (filter (\<lambda>k. disk_read d k \<noteq> None) (lbas_of wl)) mod 2 ^ 32,
              length (filter (\<lambda>k. disk_read d k = None) (lbas_of wl)) mod 2 ^ 32))
        (replay BPS (map (disk_frame d) ls)
          \<lparr>rx_image = f, rx_map = sm, rx_bad = int (count_status BAD sm), rx_received = 0\<rparr>)"] exI [of _ s'])
       (simp add: finish_capture_def Let_def)
qed

text \<open>The sample disk behind noise: the first sector is damaged once and lost once, its \<open>ACK\<close> is
  lost once; the second sector's checksum field and the totals are hit once each.\<close>

theorem noisy_capture_witness:
  "\<exists>out s'. capture (noisy_port sample_disk) fresh_opts no_files (noisy_start sample_disk 30
        [(FrameHit 100 1 0, ReplyOk), (FrameLost, ReplyOk), (FrameOk, ReplyLost), (FrameOk, ReplyOk),
         (CrcHit 0 128, ReplyByte 0), (FrameOk, ReplyOk), (FrameHit 3 0 255, ReplyLost)]) = Some (Captured out, s')
    \<and> cap_end out = Inr (1, 1)
    \<and> (\<forall>k<2. file_read_at (k * BPS) BPS (rx_image (cap_state out)) = disk_bytes sample_disk k)
    \<and> rx_map (cap_state out) ! 1 = BAD"
proof -
  have "\<not> opt_resume fresh_opts" "opt_range fresh_opts = []" by (simp_all add: fresh_opts_def)
  note fresh = fresh_image [OF this] fresh_worklist [OF this]
  have two: "[0..<2] = [0, 1 :: nat]" by (simp add: numeral_2_eq_2)
  have "bearable 0 [(FrameHit 100 1 0, ReplyOk), (FrameLost, ReplyOk), (FrameOk, ReplyLost), (FrameOk, ReplyOk),
      (CrcHit 0 128, ReplyByte 0), (FrameOk, ReplyOk), (FrameHit 3 0 255, ReplyLost)]"
    by (simp add: TX_LINK_TRIES_def ACK_def)
  from noisy_capture [OF sample_disk_sized this fresh(1) _ _ fresh(2), of no_files 30]
  obtain out s' where run: "capture (noisy_port sample_disk) fresh_opts no_files (noisy_start sample_disk 30
      [(FrameHit 100 1 0, ReplyOk), (FrameLost, ReplyOk), (FrameOk, ReplyLost), (FrameOk, ReplyOk),
       (CrcHit 0 128, ReplyByte 0), (FrameOk, ReplyOk), (FrameHit 3 0 255, ReplyLost)]) = Some (Captured out, s')"
    and cap_end: "cap_end out = Inr (length (filter (\<lambda>k. disk_read sample_disk k \<noteq> None) (lbas_of [(0, 2)])) mod 2 ^ 32,
      length (filter (\<lambda>k. disk_read sample_disk k = None) (lbas_of [(0, 2)])) mod 2 ^ 32)"
    and sectors: "k < 2 \<Longrightarrow> file_read_at (k * BPS) BPS (rx_image (cap_state out)) = disk_bytes sample_disk k
      \<and> rx_map (cap_state out) ! k = (if disk_read sample_disk k = None then BAD else GOOD)" for k
    by (auto simp: sample_disk_reads(5) covered_def)
  have "cap_end out = Inr (1, 1)"
    using cap_end by (simp add: two sample_disk_reads(1) sample_disk_reads(2) [unfolded One_nat_def])
  moreover have "rx_map (cap_state out) ! 1 = BAD"
    using sectors [of 1] sample_disk_reads(2) by simp
  ultimately show ?thesis using run sectors by blast
qed

end
