(* ===== verification/Progress.thy ===== *)
theory Progress
  imports PyText
begin

text \<open>
  The progress display of \<open>rx-host/rx.py\<close>: \<open>fmt_time\<close> and \<open>draw_bar\<close>. A float is the rational
  it stands for, and \<open>fl\<close>, an argument, is the rounding of an exact result to a float; the
  clock readings are arguments. The numbers of the line are kept as numbers: their rounding to
  one or two decimals is left out.
\<close>

section \<open>Times\<close>

text \<open>\<open>f"{n:02d}"\<close>.\<close>

definition py_dec02 :: "nat \<Rightarrow> string" where
  "py_dec02 n = (let s = py_dec n in replicate (2 - length s) (CHR ''0'') @ s)"

definition fmt_time :: "rat option \<Rightarrow> string" where
  "fmt_time sec =
     (case sec of
        None \<Rightarrow> ''--:--''
      | Some x \<Rightarrow>
          if x < 0 \<or> x > 359999 then ''--:--''
          else (let n = nat \<lfloor>x\<rfloor>; m = n div 60; s = n mod 60 in py_dec02 m @ '':'' @ py_dec02 s))"

section \<open>The bar\<close>

datatype progress_line =
    Bar string rat rat rat rat int string
  | Plain nat rat rat int

text \<open>The width has its default, 28; \<open>expected\<close> is \<open>None\<close> or the sectors to come.\<close>

definition draw_bar ::
  "(rat \<Rightarrow> rat) \<Rightarrow> nat \<Rightarrow> nat option \<Rightarrow> int \<Rightarrow> nat \<Rightarrow> rat \<Rightarrow> rat \<Rightarrow> progress_line" where
  "draw_bar fl received expected bad bps start_time now =
     (let width = 28 :: nat;
          elapsed = max (fl (now - start_time)) (fl (1 / 1000000));
          mb = fl (of_nat (received * bps) / 1048576);
          rate = fl (fl (fl (of_nat (received * bps)) / elapsed) / 1048576)
      in case expected of
           Some (Suc n) \<Rightarrow>
             (let ex = Suc n;
                  frac = min (fl (of_nat received / of_nat ex)) 1;
                  filled = nat \<lfloor>fl (frac * of_nat width)\<rfloor>;
                  bar = replicate filled (CHR ''#'') @ replicate (width - filled) (CHR ''-'');
                  total_mb = fl (of_nat (ex * bps) / 1048576);
                  remain = (if received > 0
                    then Some (fl (fl (of_nat ex - of_nat received) / fl (fl (of_nat received) / elapsed)))
                    else None)
              in Bar bar (fl (frac * 100)) mb total_mb rate bad (fmt_time remain))
         | _ \<Rightarrow> Plain received mb rate bad)"

section \<open>What is displayed\<close>

lemma to_base_10_small: "n < 10 \<Longrightarrow> to_base 10 n = [n]"
  by (simp add: to_base.simps)

lemma py_dec02_small: "n < 100 \<Longrightarrow> py_dec02 n = [digit_char (n div 10), digit_char (n mod 10)]"
proof (cases "n < 10")
  case True
  have "digit_char 0 = CHR ''0''" using digit_char_eq_0 [of 0] by simp
  with True show ?thesis by (simp add: py_dec02_def py_dec_def to_base_10_small Let_def)
next
  case False
  assume "n < 100"
  with False have "to_base 10 n = [n div 10, n mod 10]"
    by (simp add: to_base.simps [of 10 n] to_base_10_small)
  then show ?thesis by (simp add: py_dec02_def py_dec_def Let_def)
qed

text \<open>The clock of the display: minutes (at least two digits), a colon and two digits of seconds.\<close>

lemma fmt_time_fields:
  assumes "0 \<le> x" "x \<le> 359999"
  shows "fmt_time (Some x) = py_dec02 (nat \<lfloor>x\<rfloor> div 60) @ '':'' @
      [digit_char (nat \<lfloor>x\<rfloor> mod 60 div 10), digit_char (nat \<lfloor>x\<rfloor> mod 60 mod 10)]"
  using assms py_dec02_small [of "nat \<lfloor>x\<rfloor> mod 60"] by (simp add: fmt_time_def Let_def)

section \<open>Properties\<close>

text \<open>Whatever the clock says, and however floats are rounded as long as rounding keeps the order
  and the integers up to 100, the bar is 28 characters wide, \<open>#\<close> before \<open>-\<close>; it is full once
  the expected sectors are there, and stays full when more arrive; the percentage lies between
  0 and 100, and no time to go is shown before the first sector.\<close>

lemma progress_bar_shape:
  assumes "mono fl" "\<forall>n\<le>100. fl (of_nat n) = of_nat n" "0 < expected"
  shows "\<exists>bar pct mb total_mb rate eta f.
      draw_bar fl received (Some expected) bad bps start now = Bar bar pct mb total_mb rate bad eta
    \<and> f \<le> 28 \<and> bar = replicate f (CHR ''#'') @ replicate (28 - f) (CHR ''-'')
    \<and> length bar = 28
    \<and> (expected \<le> received \<longrightarrow> f = 28 \<and> pct = 100)
    \<and> 0 \<le> pct \<and> pct \<le> 100
    \<and> (received = 0 \<longrightarrow> f = 0 \<and> eta = ''--:--'')"
proof -
  obtain n where n: "expected = Suc n" using assms(3) by (cases expected) auto
  let ?frac = "min (fl (of_nat received / of_nat expected)) 1"
  let ?f = "nat \<lfloor>fl (?frac * of_nat 28)\<rfloor>"
  have ints: "fl 0 = 0" "fl 1 = 1" "fl 28 = 28" "fl 100 = 100"
    using assms(2) [rule_format, of 0] assms(2) [rule_format, of 1] assms(2) [rule_format, of 28]
      assms(2) [rule_format, of 100] by simp_all
  have "0 \<le> fl (of_nat received / of_nat expected)"
    using monoD [OF assms(1), of 0 "of_nat received / of_nat expected"] ints(1) by simp
  then have frac: "0 \<le> ?frac" "?frac \<le> 1" by simp_all
  have full: "?frac = 1" if "expected \<le> received"
  proof -
    have "(1 :: rat) \<le> of_nat received / of_nat expected" using that assms(3) by (simp add: field_simps)
    from monoD [OF assms(1) this] ints(2) show ?thesis by simp
  qed
  have scaled: "0 \<le> fl (?frac * of_nat m)" "fl (?frac * of_nat m) \<le> of_nat m" if "m \<le> 100" for m
  proof -
    have "0 \<le> ?frac * of_nat m" using frac by (intro mult_nonneg_nonneg) auto
    from monoD [OF assms(1) this] ints(1) show "0 \<le> fl (?frac * of_nat m)" by simp
    have "?frac * of_nat m \<le> 1 * of_nat m" using frac by (intro mult_right_mono) auto
    then have "?frac * of_nat m \<le> of_nat m" by simp
    from monoD [OF assms(1) this] assms(2) that show "fl (?frac * of_nat m) \<le> of_nat m" by simp
  qed
  have "fl (?frac * of_nat 28) \<le> 28" using scaled(2) [of 28] by simp
  then have "\<lfloor>fl (?frac * of_nat 28)\<rfloor> \<le> 28" by linarith
  then have f: "?f \<le> 28" by (simp only: nat_le_iff of_nat_numeral)
  have zero: "?f = 0" if "received = 0" using that ints by simp
  let ?bar = "replicate ?f (CHR ''#'') @ replicate (28 - ?f) (CHR ''-'')"
  have "\<exists>mb total_mb rate eta. draw_bar fl received (Some expected) bad bps start now =
      Bar ?bar (fl (?frac * of_nat 100)) mb total_mb rate bad eta \<and> (received = 0 \<longrightarrow> eta = ''--:--'')"
    by (simp add: draw_bar_def n Let_def fmt_time_def)
  then obtain mb total_mb rate eta where run: "draw_bar fl received (Some expected) bad bps start now =
      Bar ?bar (fl (?frac * of_nat 100)) mb total_mb rate bad eta" "received = 0 \<longrightarrow> eta = ''--:--''"
    by blast
  show ?thesis
  proof (intro exI conjI impI)
    show "draw_bar fl received (Some expected) bad bps start now =
      Bar ?bar (fl (?frac * of_nat 100)) mb total_mb rate bad eta" by (rule run(1))
    show "0 \<le> fl (?frac * of_nat 100)" "fl (?frac * of_nat 100) \<le> 100"
      using scaled [of 100] by simp_all
    show "?f = 28" "fl (?frac * of_nat 100) = 100" if "expected \<le> received"
      using full [OF that] ints by simp_all
    show "?f = 0" "eta = ''--:--''" if "received = 0" using zero that run(2) by simp_all
  qed (use f in simp_all)
qed

lemma progress_bar_shape_example:
  "\<exists>bar pct mb total_mb rate eta f. draw_bar (\<lambda>x. x) 3 (Some 4) 1 512 10 20 = Bar bar pct mb total_mb rate 1 eta
    \<and> f \<le> 28 \<and> bar = replicate f (CHR ''#'') @ replicate (28 - f) (CHR ''-'') \<and> length bar = 28
    \<and> 0 \<le> pct \<and> pct \<le> 100"
proof -
  have "mono (\<lambda>x :: rat. x)" "\<forall>n\<le>100. (\<lambda>x. x) (rat_of_nat n) = rat_of_nat n" "0 < (4 :: nat)"
    by (simp_all add: mono_def)
  from progress_bar_shape [OF this, of 3 1 512 10 20] show ?thesis by blast
qed

end
