(* ===== verification/Restore.thy ===== *)
theory Restore
  imports CaptureCorrect
begin

text \<open>
  The restore of \<open>rx-host/rx.py\<close>: \<open>restore_run\<close>, which clones an image onto the drive of
  the machine that runs \<open>WR.COM\<close>. The answer to the confirmation is an argument (\<open>None\<close>: end
  of input or Ctrl-C); clock, delay and progress display are left out.
\<close>

section \<open>The target\<close>

record target =
  t_total :: nat
  t_cyls :: nat
  t_heads :: nat
  t_spt :: nat

definition decode_target :: "byte list \<Rightarrow> target" where
  "decode_target payload =
     \<lparr>t_total = from_bytes_le (py_slice 0 4 payload), t_cyls = from_bytes_le (py_slice 4 6 payload),
      t_heads = from_bytes_le (py_slice 6 8 payload), t_spt = from_bytes_le (py_slice 8 10 payload)\<rparr>"

text \<open>The handshake of the restore; its tries are those of the capture (\<open>info_try\<close>).\<close>

definition target_handshake :: "'s port \<Rightarrow> 's \<Rightarrow> ((port_exn + target) \<times> 's) option" where
  "target_handshake P s =
     (case retry (info_try P) s of
        None \<Rightarrow> None
      | Some (Inl e, s') \<Rightarrow> Some (Inl e, s')
      | Some (Inr payload, s') \<Rightarrow> Some (Inr (decode_target payload), s'))"

text \<open>What to write.\<close>

definition restore_ranges :: "string \<Rightarrow> nat \<Rightarrow> nat \<Rightarrow> range_error + worklist" where
  "restore_ranges spec img_sectors total_lba =
     (if spec \<noteq> [] then parse_ranges_spec spec total_lba else Inr [(0, min img_sectors total_lba)])"

section \<open>The stream of sectors\<close>

text \<open>One sector of the image; a short tail is padded.\<close>

definition restore_sector :: "byte list \<Rightarrow> nat \<Rightarrow> byte list" where
  "restore_sector f lba =
     (let bps = 512; data = file_read_at (lba * bps) bps f
      in if length data < bps then data @ replicate (bps - length data) 0 else data)"

text \<open>The \<open>for\<close> loop over the tries; its \<open>else\<close> branch is the result \<open>False\<close>.\<close>

fun send_sector :: "'s port \<Rightarrow> byte list \<Rightarrow> nat \<Rightarrow> 's \<Rightarrow> (port_exn + bool) \<times> 's" where
  "send_sector P payload 0 s = (Inr False, s)"
| "send_sector P payload (Suc n) s =
     (case send_frame P TYPE_DATA payload s of
        (Some e, s1) \<Rightarrow> (Inl e, s1)
      | (None, s1) \<Rightarrow>
          (case read_reply P 8 s1 of
             (Inl e, s') \<Rightarrow> (Inl e, s')
           | (Inr b, s') \<Rightarrow> if b = Some ACK then (Inr True, s') else send_sector P payload n s'))"

datatype stream_end =
    StreamDone
  | StreamRaised port_exn
  | StreamLost nat
  | StreamOverflow py_error

fun stream_sectors :: "'s port \<Rightarrow> byte list \<Rightarrow> nat list \<Rightarrow> 's \<Rightarrow> stream_end \<times> 's" where
  "stream_sectors P f [] s = (StreamDone, s)"
| "stream_sectors P f (lba # lbas) s =
     (let data = restore_sector f lba in
      case to_bytes_le 4 lba of
        None \<Rightarrow> (StreamOverflow OverflowError, s)
      | Some a \<Rightarrow>
          (case send_sector P (a @ [STATUS_GOOD] @ data) LINK_TRIES s of
             (Inl e, s') \<Rightarrow> (StreamRaised e, s')
           | (Inr False, s') \<Rightarrow> (StreamLost lba, s')
           | (Inr True, s') \<Rightarrow> stream_sectors P f lbas s'))"

section \<open>The tally\<close>

definition tally_try :: "'s port \<Rightarrow> ('s, (nat \<times> nat) option) link_io" where
  "tally_try P =
     io_bind (hunt_soh P) (\<lambda>_.
     io_bind (read_exact P 1) (\<lambda>t.
       if t ! 0 \<noteq> TYPE_EOT then io_return None
       else
         io_bind (read_exact P 8) (\<lambda>payload.
         io_bind (read_exact P 2) (\<lambda>crc_rx.
           if crc16 ([t ! 0] @ payload) \<noteq> from_bytes_le crc_rx
           then io_bind (io_write (nak P)) (\<lambda>_. io_return None)
           else io_bind (io_write (ack P)) (\<lambda>_.
             io_return (Some (from_bytes_le (py_slice 0 4 payload), from_bytes_le (py_slice 4 8 payload))))))))"

section \<open>The restore\<close>

text \<open>
  How a restore ends: without an image, by an exception of the port, an unusable
  \<open>--range\<close>, no confirmation, a lost link, Ctrl-C, or with the writer's tally.
\<close>

datatype restore_result =
    NoImage
  | PortRaised port_exn
  | BadRange range_error
  | Aborted
  | Overflowed py_error
  | LinkLost nat
  | Interrupted
  | Cloned nat nat

definition restore_run ::
  "'s port \<Rightarrow> byte list option \<Rightarrow> string \<Rightarrow> string option \<Rightarrow> 's \<Rightarrow> (restore_result \<times> 's) option" where
  "restore_run P img spec answer s =
     (case img of
        None \<Rightarrow> Some (NoImage, s)
      | Some f \<Rightarrow>
          (let img_sectors = length f div 512 in
           case target_handshake P s of
             None \<Rightarrow> None
           | Some (Inl e, s1) \<Rightarrow> Some (PortRaised e, s1)
           | Some (Inr g, s1) \<Rightarrow>
               (case restore_ranges spec img_sectors (t_total g) of
                  Inl e \<Rightarrow> Some (BadRange e, s1)
                | Inr ranges \<Rightarrow>
                    if (case answer of None \<Rightarrow> True | Some a \<Rightarrow> py_strip a \<noteq> ''YES'')
                    then Some (Aborted, s1)
                    else
                      (case send_command P ranges s1 of
                         (Inl (CmdError e), s2) \<Rightarrow> Some (Overflowed e, s2)
                       | (Inl (CmdPort e), s2) \<Rightarrow> Some (PortRaised e, s2)
                       | (Inr _, s2) \<Rightarrow>
                           (case stream_sectors P f (lbas_of ranges) s2 of
                              (StreamRaised KeyboardInterrupt, s3) \<Rightarrow> Some (Interrupted, s3)
                            | (StreamRaised SerialException, s3) \<Rightarrow> Some (PortRaised SerialException, s3)
                            | (StreamLost lba, s3) \<Rightarrow> Some (LinkLost lba, s3)
                            | (StreamOverflow e, s3) \<Rightarrow> Some (Overflowed e, s3)
                            | (StreamDone, s3) \<Rightarrow>
                                (case retry (tally_try P) s3 of
                                   None \<Rightarrow> None
                                 | Some (Inl e, s4) \<Rightarrow> Some (PortRaised e, s4)
                                 | Some (Inr (good, bad), s4) \<Rightarrow> Some (Cloned good bad, s4)))))))"

section \<open>What is sent for a sector\<close>

lemma length_restore_sector [simp, layout]: "length (restore_sector f lba) = 512"
  by (simp add: restore_sector_def file_read_at_def Let_def)

lemma restore_sector_whole:
  "(lba + 1) * 512 \<le> length f \<Longrightarrow> restore_sector f lba = file_read_at (lba * 512) 512 f"
  by (simp add: restore_sector_def file_read_at_def Let_def)

lemma restore_sector_beyond: "length f \<le> lba * 512 \<Longrightarrow> restore_sector f lba = replicate 512 0"
  by (simp add: restore_sector_def file_read_at_def Let_def)

section \<open>A port with a log of the writes\<close>

text \<open>The same port, that also records what is written to it.\<close>

definition logged_port :: "'s port \<Rightarrow> ('s \<times> byte list list) port" where
  "logged_port P =
     \<lparr>ser_read = (\<lambda>n (s, l). let (r, s') = ser_read P n s in (r, s', l)),
      ser_write = (\<lambda>bs (s, l). let (r, s') = ser_write P bs s in (r, s', l @ [bs])),
      ser_reset_input = (\<lambda>(s, l). let (r, s') = ser_reset_input P s in (r, s', l)),
      ser_timeout = (\<lambda>(s, l). ser_timeout P s),
      ser_set_timeout = (\<lambda>t (s, l). (ser_set_timeout P t s, l))\<rparr>"

definition sector_payload :: "byte list \<Rightarrow> nat \<Rightarrow> byte list" where
  "sector_payload f lba = le_bytes 4 lba @ [STATUS_GOOD] @ restore_sector f lba"

lemma read_reply_logged:
  "read_reply (logged_port P) t (s, l) = (let (r, s') = read_reply P t s in (r, s', l))"
  by (auto simp: read_reply_def logged_port_def Let_def case_prod_unfold split: sum.split list.split)

lemma send_sector_log:
  "send_sector (logged_port P) p n (s, l) = (r, s', l') \<Longrightarrow>
     \<exists>m\<le>n. l' = l @ replicate m (frame TYPE_DATA p) \<and> (r = Inr True \<longrightarrow> 0 < m) \<and> (r = Inr False \<longrightarrow> m = n)"
proof (induction n arbitrary: s l)
  case (Suc n)
  let ?l = "l @ [frame TYPE_DATA p]"
  obtain w s0 where w: "send_frame P TYPE_DATA p s = (w, s0)" by fastforce
  obtain b s1 where b: "read_reply P 8 s0 = (b, s1)" by fastforce
  have sent: "send_frame (logged_port P) TYPE_DATA p (s, l) = (w, s0, ?l)"
    using w by (simp add: send_frame_def logged_port_def)
  show ?case
  proof (cases "(\<exists>e. w = Some e) \<or> (\<exists>e. b = Inl e) \<or> b = Inr (Some ACK)")
    case True
    then have "l' = ?l" "r \<noteq> Inr False"
      using Suc.prems by (auto simp: sent read_reply_logged b split: option.splits)
    then show ?thesis by (intro exI [of _ 1]) simp
  next
    case False
    then have "send_sector (logged_port P) p n (s1, ?l) = (r, s', l')"
      using Suc.prems by (cases b) (auto simp: sent read_reply_logged b)
    from Suc.IH [OF this] obtain m where
      "m \<le> n" "l' = ?l @ replicate m (frame TYPE_DATA p)" "r = Inr True \<longrightarrow> 0 < m" "r = Inr False \<longrightarrow> m = n"
      by blast
    then show ?thesis by (intro exI [of _ "Suc m"]) simp
  qed
qed auto

lemma stream_sectors_log:
  assumes "stream_sectors (logged_port P) f lbas (s, l) = (res, s', l')" "\<forall>k\<in>set lbas. k < 2 ^ 32"
  shows "(res = StreamDone \<longrightarrow>
      (\<exists>ms. length ms = length lbas \<and> set ms \<subseteq> {1..LINK_TRIES} \<and>
        l' = l @ concat (map2 (\<lambda>m k. replicate m (frame TYPE_DATA (sector_payload f k))) ms lbas)))
    \<and> (\<forall>k. res = StreamLost k \<longrightarrow>
      (\<exists>as bs ms. lbas = as @ k # bs \<and> length ms = length as \<and> set ms \<subseteq> {1..LINK_TRIES} \<and>
        l' = l @ concat (map2 (\<lambda>m k. replicate m (frame TYPE_DATA (sector_payload f k))) ms as) @
          replicate LINK_TRIES (frame TYPE_DATA (sector_payload f k))))
    \<and> (\<forall>e. res \<noteq> StreamOverflow e)"
  using assms
proof (induction lbas arbitrary: s l)
  case (Cons k lbas)
  let ?send = "send_sector (logged_port P) (sector_payload f k) LINK_TRIES (s, l)"
  have a: "to_bytes_le 4 k = Some (le_bytes 4 k)" using Cons.prems(2) by (simp add: to_bytes_le_def)
  obtain r s1 l1 where r: "?send = (r, s1, l1)" by (cases ?send) auto
  from send_sector_log [OF this] obtain m where m: "m \<le> LINK_TRIES"
    "l1 = l @ replicate m (frame TYPE_DATA (sector_payload f k))"
    "r = Inr True \<longrightarrow> 0 < m" "r = Inr False \<longrightarrow> m = LINK_TRIES" by blast
  have step: "stream_sectors (logged_port P) f (k # lbas) (s, l) =
      (case r of Inl e \<Rightarrow> (StreamRaised e, s1, l1) | Inr False \<Rightarrow> (StreamLost k, s1, l1)
       | Inr True \<Rightarrow> stream_sectors (logged_port P) f lbas (s1, l1))"
    using r a by (simp add: sector_payload_def Let_def split: sum.split bool.split)
  consider e where "r = Inl e" | "r = Inr False" | "r = Inr True"
    by (metis (full_types) sum.exhaust)
  then show ?case
  proof cases
    case 1
    then show ?thesis using step Cons.prems(1) by auto
  next
    case 2
    then have "res = StreamLost k" "l' = l @ replicate LINK_TRIES (frame TYPE_DATA (sector_payload f k))"
      using step Cons.prems(1) m by auto
    then have "\<exists>as bs ms. k # lbas = as @ k # bs \<and> length ms = length as \<and> set ms \<subseteq> {1..LINK_TRIES} \<and>
        l' = l @ concat (map2 (\<lambda>m k. replicate m (frame TYPE_DATA (sector_payload f k))) ms as) @
          replicate LINK_TRIES (frame TYPE_DATA (sector_payload f k))"
      by (intro exI [of _ "[]"] exI [of _ lbas]) simp
    with \<open>res = StreamLost k\<close> show ?thesis by simp
  next
    case 3
    then have "stream_sectors (logged_port P) f lbas (s1, l1) = (res, s', l')" "0 < m"
      using step Cons.prems(1) m(3) by auto
    note IH = Cons.IH [OF this(1)]
    have below: "\<forall>k\<in>set lbas. k < 2 ^ 32" using Cons.prems(2) by simp
    note IH = IH [OF below]
    show ?thesis
    proof (intro conjI allI impI)
      assume "res = StreamDone"
      with IH obtain ms where "length ms = length lbas" "set ms \<subseteq> {1..LINK_TRIES}"
        "l' = l1 @ concat (map2 (\<lambda>m k. replicate m (frame TYPE_DATA (sector_payload f k))) ms lbas)" by blast
      then show "\<exists>ms. length ms = length (k # lbas) \<and> set ms \<subseteq> {1..LINK_TRIES} \<and>
          l' = l @ concat (map2 (\<lambda>m k. replicate m (frame TYPE_DATA (sector_payload f k))) ms (k # lbas))"
        using m \<open>0 < m\<close> by (intro exI [of _ "m # ms"]) simp
    next
      fix j assume "res = StreamLost j"
      with IH obtain as bs ms where "lbas = as @ j # bs" "length ms = length as" "set ms \<subseteq> {1..LINK_TRIES}"
        "l' = l1 @ concat (map2 (\<lambda>m k. replicate m (frame TYPE_DATA (sector_payload f k))) ms as) @
          replicate LINK_TRIES (frame TYPE_DATA (sector_payload f j))" by blast
      then show "\<exists>as bs ms. k # lbas = as @ j # bs \<and> length ms = length as \<and> set ms \<subseteq> {1..LINK_TRIES} \<and>
          l' = l @ concat (map2 (\<lambda>m k. replicate m (frame TYPE_DATA (sector_payload f k))) ms as) @
          replicate LINK_TRIES (frame TYPE_DATA (sector_payload f j))"
        using m \<open>0 < m\<close> by (intro exI [of _ "k # as"] exI [of _ bs] exI [of _ "m # ms"]) simp
    next
      fix e show "res \<noteq> StreamOverflow e" using IH by blast
    qed
  qed
qed simp

section \<open>Properties\<close>

text \<open>Without \<open>--range\<close> a restore writes sectors that lie on the target and wholly in the
  image, and sends for each exactly its bytes of the image.\<close>

lemma restore_whole_image:
  "restore_ranges [] (length f div 512) t = Inr [(0, min (length f div 512) t)]
    \<and> concat (map (restore_sector f) (lbas_of [(0, min (length f div 512) t)])) =
        take (min (length f div 512) t * 512) f"
proof -
  let ?n = "min (length f div 512) t"
  let ?f = "take (?n * 512) f"
  have "?n * 512 \<le> (length f div 512) * 512" by (intro mult_le_mono1) simp
  also have "\<dots> \<le> length f" by (rule div_times_less_eq_dividend)
  finally have fits: "?n * 512 \<le> length f" .
  have "restore_sector f k = file_read_at (k * 512) 512 ?f" if "k < ?n" for k
  proof -
    have "(k + 1) * 512 \<le> ?n * 512" using that by (intro mult_le_mono1) simp
    with fits restore_sector_whole [of k f] show ?thesis
      by (simp add: file_read_at_def drop_take min_def)
  qed
  with image_of_sectors [of ?f ?n 512 "restore_sector f"] fits
  have "?f = concat (map (restore_sector f) [0..<?n])" by simp
  then show ?thesis by (simp add: restore_ranges_def)
qed

text \<open>C30: What is written to the line while the sectors are sent: when the stream is done, for
  each sector in order between one and \<open>LINK_TRIES\<close> copies of its frame, holding its bytes of
  the image; when the link is lost at a sector, this for the sectors before it and then
  \<open>LINK_TRIES\<close> copies of its frame. Whatever the device answers, nothing else is sent.\<close>

theorem restore_stream_writes:
  assumes "stream_sectors (logged_port P) f lbas (s, []) = (res, s', l')" "\<forall>k\<in>set lbas. k < 2 ^ 32"
  shows "(res = StreamDone \<longrightarrow>
      (\<exists>ms. length ms = length lbas \<and> set ms \<subseteq> {1..LINK_TRIES} \<and>
        l' = concat (map2 (\<lambda>m k. replicate m (frame TYPE_DATA (sector_payload f k))) ms lbas)))
    \<and> (\<forall>k. res = StreamLost k \<longrightarrow>
      (\<exists>as bs ms. lbas = as @ k # bs \<and> length ms = length as \<and> set ms \<subseteq> {1..LINK_TRIES} \<and>
        l' = concat (map2 (\<lambda>m k. replicate m (frame TYPE_DATA (sector_payload f k))) ms as) @
          replicate LINK_TRIES (frame TYPE_DATA (sector_payload f k))))
    \<and> (\<forall>e. res \<noteq> StreamOverflow e)"
  using stream_sectors_log [OF assms] by simp

text \<open>A port whose device answers nothing.\<close>

definition dead_port :: "unit port" where
  "dead_port =
     \<lparr>ser_read = (\<lambda>n s. (Inr [], s)), ser_write = (\<lambda>bs s. (None, s)), ser_reset_input = (\<lambda>s. (None, s)),
      ser_timeout = (\<lambda>s. 3), ser_set_timeout = (\<lambda>t s. s)\<rparr>"

lemma dead_send_sector: "send_sector (logged_port dead_port) p n ((), l) =
    (Inr False, (), l @ replicate n (frame TYPE_DATA p))"
proof (induction n arbitrary: l)
  case (Suc n)
  then show ?case
    by (simp add: send_frame_def read_reply_logged)
       (simp add: logged_port_def dead_port_def read_reply_def)
qed simp

theorem restore_stream_writes_witness:
  "\<exists>l'. stream_sectors (logged_port dead_port) [1, 2, 3] [0, 1] ((), []) = (StreamLost 0, (), l')
    \<and> l' = replicate LINK_TRIES (frame TYPE_DATA (sector_payload [1, 2, 3] 0))"
proof -
  have "to_bytes_le 4 0 = Some (le_bytes 4 0)" by (simp add: to_bytes_le_def)
  then obtain l' where run:
    "stream_sectors (logged_port dead_port) [1, 2, 3] [0, 1] ((), []) = (StreamLost 0, (), l')"
    by (simp add: dead_send_sector Let_def)
  have small: "\<forall>k\<in>set [0, 1]. k < (2 :: nat) ^ 32" by simp
  from restore_stream_writes [OF run small] obtain as bs ms where split: "[0, 1] = as @ (0 :: nat) # bs"
    and "length ms = length as"
    and l': "l' = concat (map2 (\<lambda>m k. replicate m (frame TYPE_DATA (sector_payload [1, 2, 3] k))) ms as) @
      replicate LINK_TRIES (frame TYPE_DATA (sector_payload [1, 2, 3] 0))"
    by auto
  have "as = []" using split by (cases as) (auto simp: append_eq_Cons_conv Cons_eq_append_conv)
  with l' run show ?thesis by simp
qed

end
