(* ===== verification/Coalesce.thy ===== *)
theory Coalesce
  imports Worklist "HOL-Library.Multiset"
begin

text \<open>
  The coalescing loop of \<open>build_worklist\<close> is optimal: merging across the smallest gap until at
  most \<open>MAXR\<close> ranges are left reads as few sectors as any list of at most \<open>MAXR\<close> ranges that
  covers the unfinished ones. What it cannot avoid is reading good sectors again, and a good
  sector that is read again can be lost.
\<close>

section \<open>Gaps\<close>

fun gaps :: "worklist \<Rightarrow> int list" where
  "gaps ((a, b) # (c, d) # ws) = (int c - int b) # gaps ((c, d) # ws)"
| "gaps _ = []"

lemma gaps_append:
  "gaps (xs @ (a, b) # (c, d) # ys) = gaps (xs @ [(a, b)]) @ (int c - int b) # gaps ((c, d) # ys)"
  by (induction xs rule: gaps.induct) (auto simp: neq_Nil_conv)

lemma gaps_last: "gaps (xs @ [(a, b)]) = gaps (xs @ [(a, b')])"
  by (induction xs rule: gaps.induct) auto

lemma gaps_first: "gaps ((c, d) # ys) = gaps ((c', d) # ys)"
  by (cases ys) auto

lemma gaps_join: "gaps (xs @ (a, d) # ys) = gaps (xs @ [(a, b)]) @ gaps ((c, d) # ys)"
proof (cases ys)
  case Nil
  then show ?thesis using gaps_last [of xs a d b] by simp
next
  case (Cons y ys')
  obtain e f where "y = (e, f)" by (cases y)
  with Cons show ?thesis
    using gaps_append [of xs a d e f ys'] gaps_last [of xs a d b] by simp
qed

lemma gaps_nth: "gaps ws = map (gap_at ws) [0..<length ws - 1]"
proof (induction ws rule: gaps.induct)
  case (1 a b c d ws)
  have "[0..<length ((a, b) # (c, d) # ws) - 1] = 0 # map Suc [0..<length ((c, d) # ws) - 1]"
    by (simp add: upt_conv_Cons map_Suc_upt del: upt_Suc)
  then have "map (gap_at ((a, b) # (c, d) # ws)) [0..<length ((a, b) # (c, d) # ws) - 1] =
      (int c - int b) # map (gap_at ((c, d) # ws)) [0..<length ((c, d) # ws) - 1]"
    by (simp only: list.map map_map o_def) (simp add: gap_at_def)
  with 1 show ?case by simp
qed (simp_all add: gap_at_def)

lemma mset_gaps_merge:
  assumes "Suc k < length runs"
  shows "mset (gaps (merge_at k runs)) = mset (gaps runs) - {#gap_at runs k#}"
    and "gap_at runs k \<in># mset (gaps runs)"
proof -
  obtain xs a b c d ys where runs: "runs = xs @ (a, b) # (c, d) # ys" "length xs = k"
    using assms by (rule split_at_gap)
  have "merge_at k runs = xs @ (a, d) # ys" "gap_at runs k = int c - int b"
    using merge_at_split [of xs a b c d ys] runs by (simp_all add: gap_at_def nth_append)
  then show "mset (gaps (merge_at k runs)) = mset (gaps runs) - {#gap_at runs k#}"
    "gap_at runs k \<in># mset (gaps runs)"
    using runs(1) gaps_append [of xs a b c d ys] gaps_join [of xs a d ys b c] by simp_all
qed

section \<open>The greedy merge costs no more than any choice of gaps\<close>

lemma coalesce_greedy:
  assumes "wf_runs t runs" "T \<subseteq># mset (gaps runs)" "length runs \<le> MAXR + size T"
    and "\<forall>g\<in>#mset (gaps runs). 0 \<le> g"
  shows "int (todo (coalesce runs)) \<le> int (todo runs) + sum_mset T"
  using assms
proof (induction runs arbitrary: T rule: coalesce.induct)
  case (1 runs)
  show ?case
  proof (cases "MAXR < length runs")
    case False
    have "\<forall>g\<in>#T. 0 \<le> g" using 1(3,5) by (metis mset_subset_eqD)
    then have "0 \<le> sum_mset T" by (induction T) auto
    with False show ?thesis by (simp add: coalesce_short)
  next
    case True
    let ?k = "best_k runs" and ?G = "mset (gaps runs)"
    let ?m = "gap_at runs ?k"
    have two: "2 \<le> length runs" using True by (simp add: MAXR_def)
    have k: "Suc ?k < length runs" using best_k_props(1) [OF two] .
    note merged = merge_at_props [OF 1(2) k] mset_gaps_merge [OF k]
    have least: "?m \<le> g" if "g \<in># ?G" for g
      using that best_k_props(2) [OF two] by (auto simp: gaps_nth)
    from True 1(4) have "T \<noteq> {#}" by auto
    then obtain g where g: "g \<in># T" "?m \<in># T \<longrightarrow> g = ?m" by (cases "?m \<in># T") auto
    let ?T = "T - {#g#}"
    have sub: "?T \<subseteq># ?G - {#?m#}"
    proof (cases "?m \<in># T")
      case True
      with g 1(3) show ?thesis by (simp add: subseteq_mset_def diff_le_mono)
    next
      case False
      then have "count T ?m = 0" by (simp add: count_eq_zero_iff)
      with 1(3) have "count T x \<le> count (?G - {#?m#}) x" for x
        by (cases "x = ?m") (simp_all add: subseteq_mset_def)
      then show ?thesis by (meson diff_subset_eq_self subset_mset.order_trans subseteq_mset_def)
    qed
    have "int (todo (coalesce (merge_at ?k runs))) \<le> int (todo (merge_at ?k runs)) + sum_mset ?T"
    proof (rule "1.IH" [OF True merged(1)])
      show "?T \<subseteq># mset (gaps (merge_at ?k runs))" using sub by (simp add: merged(4))
      show "length (merge_at ?k runs) \<le> MAXR + size ?T"
        using 1(4) g(1) two by (simp add: length_merge_at [OF k] size_Diff_singleton)
      show "\<forall>g\<in>#mset (gaps (merge_at ?k runs)). 0 \<le> g"
        unfolding merged(4) using 1(5) by (metis in_diffD)
    qed
    also have "\<dots> = int (todo runs) + ?m + sum_mset ?T" by (simp add: merged(3))
    also have "\<dots> \<le> int (todo runs) + g + sum_mset ?T"
      using least [OF mset_subset_eqD [OF 1(3) g(1)]] by simp
    also have "\<dots> = int (todo runs) + sum_mset T"
      using g(1) by (simp add: sum_mset_diff)
    finally show ?thesis using True by (subst coalesce.simps) simp
  qed
qed

section \<open>Every cover pays for the gaps it closes\<close>

lemma covered_nth: "x \<in> covered ws \<longleftrightarrow> (\<exists>k<length ws. fst (ws ! k) \<le> x \<and> x < snd (ws ! k))"
proof -
  have "x \<in> covered ws \<longleftrightarrow> (\<exists>r\<in>set ws. fst r \<le> x \<and> x < snd r)"
    by (simp add: covered_def case_prod_unfold)
  then show ?thesis by (metis in_set_conv_nth)
qed

lemma wf_runs_nth:
  assumes "wf_runs t runs" "i < length runs"
  shows "fst (runs ! i) < snd (runs ! i)"
  using wf_runs_mem [OF assms(1), of "fst (runs ! i)" "snd (runs ! i)"] nth_mem [OF assms(2)] by simp

lemma wf_runs_order:
  assumes "wf_runs t runs" "i < j" "j < length runs"
  shows "snd (runs ! i) < fst (runs ! j)"
  using assms
proof (induction t runs arbitrary: i j rule: wf_runs.induct)
  case (2 t a b ws)
  then obtain j' where j: "j = Suc j'" by (cases j) auto
  show ?case
  proof (cases i)
    case 0
    have "(fst (ws ! j'), snd (ws ! j')) \<in> set ws" using 2 j by simp
    moreover have "fst (ws ! j') < snd (ws ! j')"
      using 2(2,4) j by (intro wf_runs_nth [of t]) (cases ws, auto)
    ultimately have "fst (ws ! j') \<in> covered ws" unfolding covered_def by force
    with wf_runs_above [OF 2(2)] j 0 show ?thesis by simp
  next
    case (Suc i')
    with 2 j show ?thesis by (cases ws) auto
  qed
qed simp

definition gap_range :: "worklist \<Rightarrow> nat \<Rightarrow> nat set" where
  "gap_range runs i = {snd (runs ! i)..<fst (runs ! Suc i)}"

definition closed_gaps :: "worklist \<Rightarrow> worklist \<Rightarrow> nat set" where
  "closed_gaps runs ws = {i. Suc i < length runs \<and> gap_range runs i \<subseteq> covered ws}"

lemma finite_closed_gaps [simp]: "finite (closed_gaps runs ws)"
  by (rule finite_subset [of _ "{..<length runs}"]) (auto simp: closed_gaps_def)

text \<open>A list of \<open>m\<close> ranges leaves at most \<open>m - 1\<close> gaps open.\<close>

lemma closed_gaps_many:
  assumes wf: "wf_runs t runs" and cover: "covered runs \<subseteq> covered ws"
  shows "length runs \<le> length ws + card (closed_gaps runs ws)"
proof (cases "runs = []")
  case False
  let ?n = "length runs - 1"
  define opened where "opened = {i. i < ?n \<and> \<not> gap_range runs i \<subseteq> covered ws}"
  have parts: "opened \<union> closed_gaps runs ws = {..<?n}" "opened \<inter> closed_gaps runs ws = {}"
    by (auto simp: opened_def closed_gaps_def)
  have fin: "finite opened" "finite (closed_gaps runs ws)"
    by (simp_all add: opened_def)
  have total: "card opened + card (closed_gaps runs ws) = ?n"
    using card_Un_disjoint [OF fin parts(2)] parts(1) by simp
  have in_run: "snd (runs ! i) - 1 \<in> covered runs" if "i < length runs" for i
    using wf_runs_nth [OF wf that] nth_mem [OF that]
    by (auto simp: covered_def intro!: bexI [of _ "runs ! i"])
  have "\<exists>k<length ws. fst (ws ! k) \<le> snd (runs ! i) - 1 \<and> snd (runs ! i) - 1 < snd (ws ! k)"
    if "i < length runs" for i
    using in_run [OF that] cover covered_nth [of _ ws] by blast
  then obtain f where f: "\<And>i. i < length runs \<Longrightarrow> f i < length ws"
    "\<And>i. i < length runs \<Longrightarrow> fst (ws ! f i) \<le> snd (runs ! i) - 1 \<and> snd (runs ! i) - 1 < snd (ws ! f i)"
    by metis
  have apart: "f i \<noteq> f j" if "i < j" "i \<in> opened" "j < length runs" for i j
  proof
    assume same: "f i = f j"
    have i: "Suc i < length runs" using that by simp
    from that(2) obtain u where u: "u \<in> gap_range runs i" "u \<notin> covered ws" by (auto simp: opened_def)
    have "fst (runs ! Suc i) \<le> fst (runs ! j)"
      using wf_runs_order [OF wf _ that(3), of "Suc i"] wf_runs_nth [OF wf i] that(1)
      by (cases "Suc i = j") auto
    moreover have "fst (runs ! j) < snd (runs ! j)" using wf_runs_nth [OF wf that(3)] .
    ultimately have "snd (runs ! i) - 1 \<le> u" "u \<le> snd (runs ! j) - 1"
      using u(1) by (auto simp: gap_range_def)
    then have "fst (ws ! f i) \<le> u" "u < snd (ws ! f i)"
      using f(2) [of i] f(2) [of j] same i that(3) by auto
    moreover have "ws ! f i \<in> set ws" using f(1) [of i] i by simp
    ultimately have "u \<in> covered ws" unfolding covered_def by force
    with u(2) show False by simp
  qed
  have "inj_on f (insert ?n opened)"
  proof (rule linorder_inj_onI)
    fix i j assume "i < j" "i \<in> insert ?n opened" "j \<in> insert ?n opened"
    moreover from this have "i \<in> opened" by (auto simp: opened_def)
    moreover from calculation have "j < length runs" using False by (auto simp: opened_def)
    ultimately show "f i \<noteq> f j" using apart by blast
  qed (simp add: linear)
  then have "card (insert ?n opened) = card (f ` insert ?n opened)" by (rule card_image [symmetric])
  also have "\<dots> \<le> card {..<length ws}"
    using f(1) False by (intro card_mono) (auto simp: opened_def)
  finally have "Suc (card opened) \<le> length ws" using fin(1) by (simp add: opened_def)
  with total False show ?thesis by (cases runs) auto
qed simp

text \<open>The sectors of the runs and of the closed gaps are all different.\<close>

lemma cover_cost:
  assumes wf: "wf_runs t runs" and cover: "covered runs \<subseteq> covered ws"
  shows "int (todo runs) + (\<Sum>i\<in>closed_gaps runs ws. gap_at runs i) \<le> int (card (covered ws))"
proof -
  let ?S = "closed_gaps runs ws"
  have fin: "finite ?S" by simp
  have step: "snd (runs ! i) < fst (runs ! Suc i)" if "Suc i < length runs" for i
    using wf_runs_order [OF wf _ that, of i] by simp
  have size: "gap_at runs i = int (card (gap_range runs i))" if "i \<in> ?S" for i
    using step [of i] that by (simp add: gap_at_def gap_range_def closed_gaps_def)
  have apart: "gap_range runs i \<inter> gap_range runs j = {}" if "i < j" "Suc j < length runs" for i j
  proof -
    have "fst (runs ! Suc i) \<le> fst (runs ! j)"
      using wf_runs_order [OF wf, of "Suc i" j] wf_runs_nth [OF wf, of "Suc i"] that
      by (cases "Suc i = j") auto
    then have "fst (runs ! Suc i) < snd (runs ! j)" using wf_runs_nth [OF wf, of j] that by simp
    then show ?thesis by (auto simp: gap_range_def)
  qed
  have away: "gap_range runs i \<inter> covered runs = {}" if "Suc i < length runs" for i
  proof -
    have "\<not> (fst r \<le> u \<and> u < snd r)" if "u \<in> gap_range runs i" "r \<in> set runs" for u r
    proof -
      from that(2) obtain j where j: "j < length runs" "r = runs ! j" by (auto simp: in_set_conv_nth)
      show ?thesis
      proof (cases "j \<le> i")
        case True
        then have "snd (runs ! j) \<le> snd (runs ! i)"
          using wf_runs_order [OF wf, of j i] wf_runs_nth [OF wf, of i] \<open>Suc i < length runs\<close>
          by (cases "j = i") auto
        with that(1) j show ?thesis by (auto simp: gap_range_def)
      next
        case False
        then have "fst (runs ! Suc i) \<le> fst (runs ! j)"
          using wf_runs_order [OF wf, of "Suc i" j] wf_runs_nth [OF wf, of "Suc i"] j(1)
          by (cases "j = Suc i") auto
        with that(1) j show ?thesis by (auto simp: gap_range_def)
      qed
    qed
    then show ?thesis unfolding covered_def by fastforce
  qed
  have "card (\<Union>i\<in>?S. gap_range runs i) = (\<Sum>i\<in>?S. card (gap_range runs i))"
  proof (rule card_UN_disjoint [OF fin])
    show "\<forall>i\<in>?S. \<forall>j\<in>?S. i \<noteq> j \<longrightarrow> gap_range runs i \<inter> gap_range runs j = {}"
      using apart by (auto simp: closed_gaps_def) (metis Int_commute disjoint_iff linorder_neqE_nat)
  qed (simp add: gap_range_def)
  then have gaps: "(\<Sum>i\<in>?S. gap_at runs i) = int (card (\<Union>i\<in>?S. gap_range runs i))"
    using size by (simp add: of_nat_sum)
  have finite_cover: "finite (covered ws')" for ws' by (simp add: covered_def case_prod_unfold)
  have "finite (\<Union>i\<in>?S. gap_range runs i)" using fin by (simp add: gap_range_def)
  moreover have "covered runs \<inter> (\<Union>i\<in>?S. gap_range runs i) = {}"
    using away by (auto simp: closed_gaps_def)
  ultimately have "card (covered runs) + card (\<Union>i\<in>?S. gap_range runs i) =
      card (covered runs \<union> (\<Union>i\<in>?S. gap_range runs i))"
    by (rule card_Un_disjoint [OF finite_cover, symmetric])
  also have "\<dots> \<le> card (covered ws)"
    using cover by (intro card_mono finite_cover) (auto simp: closed_gaps_def)
  finally show ?thesis using gaps todo_card [OF wf] by simp
qed

section \<open>Optimality\<close>

lemma coalesce_least:
  assumes wf: "wf_runs t runs" and cover: "covered runs \<subseteq> covered ws" "length ws \<le> MAXR"
  shows "todo (coalesce runs) \<le> card (covered ws)"
proof -
  let ?S = "closed_gaps runs ws"
  let ?T = "image_mset (gap_at runs) (mset_set ?S)"
  have fin: "finite ?S" by simp
  have sub: "?S \<subseteq> {0..<length runs - 1}" by (auto simp: closed_gaps_def)
  have G: "mset (gaps runs) = image_mset (gap_at runs) (mset_set {0..<length runs - 1})"
    by (simp add: gaps_nth mset_upt [symmetric] del: mset_upt)
  have "mset_set ?S \<subseteq># mset_set {0..<length runs - 1}"
    using sub fin by (intro subset_imp_msubset_mset_set) auto
  then have T: "?T \<subseteq># mset (gaps runs)" unfolding G by (rule image_mset_subseteq_mono)
  have "0 \<le> gap_at runs i" if "i < length runs - 1" for i
    using wf_runs_order [OF wf, of i "Suc i"] less_diff_conv [of i "length runs" 1] that
    by (simp add: gap_at_def)
  then have nonneg: "\<forall>g\<in>#mset (gaps runs). 0 \<le> g" by (auto simp: gaps_nth)
  have "length runs \<le> MAXR + size ?T"
    using closed_gaps_many [OF wf cover(1)] cover(2) by simp
  from coalesce_greedy [OF wf T this nonneg]
  have "int (todo (coalesce runs)) \<le> int (todo runs) + sum_mset ?T" .
  also have "sum_mset ?T = (\<Sum>i\<in>?S. gap_at runs i)" by (simp add: sum_unfold_sum_mset)
  also have "int (todo runs) + \<dots> \<le> int (card (covered ws))" by (rule cover_cost [OF wf cover(1)])
  finally show ?thesis by simp
qed

text \<open>More runs than \<open>MAXR\<close>: a gap is closed, and a gap begins with a good sector.\<close>

lemma coalesce_rereads:
  assumes "MAXR < length (todo_runs sm t 0)"
  obtains k where "k < t" "sm ! k = GOOD" "k \<in> covered (build_worklist sm t True)"
proof -
  let ?runs = "todo_runs sm t 0" and ?wl = "build_worklist sm t True"
  have wl: "?wl = coalesce ?runs" using assms by (auto simp: build_worklist_def Let_def)
  have wf: "wf_runs t ?runs" by (rule todo_runs_wf)
  have cover: "covered ?runs \<subseteq> covered ?wl"
    using coalesce_props [OF wf] wl by simp
  have "0 < card (closed_gaps ?runs ?wl)"
    using closed_gaps_many [OF wf cover] worklist_resume_length [of sm t] assms by simp
  then obtain i where i: "Suc i < length ?runs" "gap_range ?runs i \<subseteq> covered ?wl"
    by (auto simp: card_gt_0_iff closed_gaps_def)
  let ?k = "snd (?runs ! i)"
  have gap: "?k < fst (?runs ! Suc i)" using wf_runs_order [OF wf _ i(1), of i] by simp
  then have k: "?k \<in> covered ?wl" using i(2) by (auto simp: gap_range_def)
  then have "?k < t" using wf_runs_bound worklist_resume_wf by blast
  moreover have "?k \<notin> covered ?runs"
  proof
    assume "?k \<in> covered ?runs"
    then obtain j where j: "j < length ?runs" "fst (?runs ! j) \<le> ?k" "?k < snd (?runs ! j)"
      unfolding covered_nth by blast
    have "i < j"
      using j wf_runs_order [OF wf, of j i] wf_runs_nth [OF wf, of i] i(1)
      by (cases j i rule: linorder_cases) auto
    then have "fst (?runs ! Suc i) \<le> fst (?runs ! j)"
      using wf_runs_order [OF wf, of "Suc i" j] wf_runs_nth [OF wf, of "Suc i"] j(1)
      by (cases "Suc i = j") auto
    with gap j(2) show False by simp
  qed
  ultimately have "sm ! ?k = GOOD"
    unfolding todo_runs_covered by (cases "sm ! ?k") auto
  with \<open>?k < t\<close> k show thesis by (intro that [of ?k])
qed

section \<open>Properties\<close>

text \<open>C16: The resume worklist is as short as it can be: no list of at most \<open>MAXR\<close> ranges that covers
  every bad or untried sector reads fewer sectors.\<close>

theorem resume_worklist_optimal:
  assumes "{k. k < t \<and> unfinished (sm ! k)} \<subseteq> covered ws" "length ws \<le> MAXR"
  shows "todo (build_worklist sm t True) \<le> card (covered ws)"
proof -
  let ?runs = "todo_runs sm t 0"
  have "covered ?runs \<subseteq> covered ws" using assms(1) by (simp add: todo_runs_covered)
  from coalesce_least [OF todo_runs_wf this assms(2)] show ?thesis
    by (simp add: build_worklist_def Let_def)
qed

theorem resume_worklist_optimal_witness:
  "todo (build_worklist [BAD, GOOD, UNTRIED] 3 True) \<le> card (covered [(0, 2), (1, 3)])"
proof (rule resume_worklist_optimal)
  show "{k. k < 3 \<and> unfinished ([BAD, GOOD, UNTRIED] ! k)} \<subseteq> covered [(0, 2), (1, 3)]"
    by (auto simp: covered_def)
qed (simp add: MAXR_def)

end
