(* ===== verification/HostMain.thy ===== *)
theory HostMain
  imports CaptureProps Restore Coalesce
begin

text \<open>
  \<open>main\<close> of \<open>rx-host/rx.py\<close> from the parsed arguments on: which of the program's four modes
  runs, with which files. The file system is a map from paths to contents; the serial
  library (whether it is there, the ports it lists, what opening a port gives) and the answer
  to the confirmation are the environment. Text files are Latin-1, and the paths of image,
  mapfile and badlist are taken to name different files where the report is concerned.
\<close>

section \<open>Arguments and environment\<close>

text \<open>The result of \<open>parse_args\<close>; \<open>None\<close> is an option that was not given.\<close>

record cli_args =
  a_image :: "string option"
  a_port :: "string option"
  a_baud :: int
  a_list :: bool
  a_mapfile :: "string option"
  a_badlist :: "string option"
  a_resume :: bool
  a_verify :: bool
  a_verify_only :: bool
  a_restore :: bool
  a_range :: "string option"

text \<open>The arguments when none is given: the defaults of the parser.\<close>

definition no_args :: cli_args where
  "no_args = \<lparr>a_image = None, a_port = None, a_baud = 9600, a_list = False, a_mapfile = None, a_badlist = None,
     a_resume = False, a_verify = False, a_verify_only = False, a_restore = False, a_range = None\<rparr>"

type_synonym files = "string \<Rightarrow> byte list option"

record 's host_env =
  he_pyserial :: bool
  he_ports :: "(string \<times> string) list"
  he_connect :: "string \<Rightarrow> int \<Rightarrow> 's option"
  he_port :: "'s port"
  he_answer :: "string option"

text \<open>Python's \<open>a or b\<close> on an optional text, and the text itself.\<close>

definition text_or :: "string option \<Rightarrow> string \<Rightarrow> string" where
  "text_or opt d = (case opt of None \<Rightarrow> d | Some s \<Rightarrow> if s = [] then d else s)"

abbreviation text_given :: "string option \<Rightarrow> string" where
  "text_given opt \<equiv> text_or opt []"

definition text_bytes :: "string \<Rightarrow> byte list" where
  "text_bytes s = map of_char s"

lemma latin1_text_bytes [simp]: "latin1 (text_bytes s) = s"
proof -
  have "char_of (unat (of_char c :: byte)) = c" for c
  proof -
    have "unat (of_char c :: byte) = of_char c mod 256"
      unfolding of_nat_of_char [symmetric, where 'a = "8 word"] by (simp add: unat_of_nat)
    then show ?thesis by simp
  qed
  then show ?thesis by (induction s) (simp_all add: latin1_def text_bytes_def)
qed

section \<open>The serial ports\<close>

text \<open>How \<open>main\<close> ends.\<close>

datatype main_end =
    PySerialMissing
  | PortsListed "string list"
  | VerifyNeedsImage
  | VerifyRaised py_error
  | Verified bool "report list"
  | NeedPort "string list"
  | NeedImage
  | OpenFailed
  | RestoreEnded restore_result
  | CaptureEnded capture_result

text \<open>\<open>_need_serial\<close>: pyserial is imported when it is first needed; without it the program ends.\<close>

definition need_serial :: "'s host_env \<Rightarrow> main_end + unit" where
  "need_serial env = (if he_pyserial env then Inr () else Inl PySerialMissing)"

text \<open>The lines of \<open>print_ports\<close>.\<close>

definition port_line :: "string \<times> string \<Rightarrow> string" where
  "port_line p = ''  '' @ fst p @ replicate (12 - length (fst p)) (CHR '' '') @ '' '' @ snd p"

definition print_ports :: "'s host_env \<Rightarrow> main_end + string list" where
  "print_ports env =
     (case need_serial env of
        Inl e \<Rightarrow> Inl e
      | Inr _ \<Rightarrow>
          Inr (if he_ports env = []
               then [''No serial ports found. Plug in your USB-serial adapter and retry.'']
               else ''Available serial ports:'' # map port_line (he_ports env)))"

section \<open>The modes\<close>

definition map_path :: "cli_args \<Rightarrow> string \<Rightarrow> string" where
  "map_path args image_path = text_or (a_mapfile args) (image_path @ ''.map'')"

definition bad_path :: "cli_args \<Rightarrow> string \<Rightarrow> string" where
  "bad_path args image_path = text_or (a_badlist args) (image_path @ ''.badblocks'')"

text \<open>\<open>--verify-only\<close>; the flag says whether there was a mapfile.\<close>

definition main_verify :: "cli_args \<Rightarrow> files \<Rightarrow> main_end" where
  "main_verify args fs =
     (let image_path = text_given (a_image args)
      in if image_path = [] \<or> fs image_path = None then VerifyNeedsImage
         else (let mf = map_path args image_path; txt = map_option latin1 (fs mf)
               in case verify_only (the (fs image_path)) txt of
                    Inl e \<Rightarrow> VerifyRaised e
                  | Inr rep \<Rightarrow> Verified (txt \<noteq> None) rep))"

definition capture_opts_of :: "cli_args \<Rightarrow> capture_opts" where
  "capture_opts_of args =
     \<lparr>opt_resume = a_resume args, opt_range = text_given (a_range args), opt_verify = a_verify args\<rparr>"

text \<open>The files as a capture leaves them: the image is closed before the map is written.\<close>

definition files_after :: "string \<Rightarrow> string \<Rightarrow> string \<Rightarrow> capture_result \<Rightarrow> files \<Rightarrow> files" where
  "files_after image_path mapfile badlist res fs =
     (case res of
        HandshakeRaised e \<Rightarrow> fs
      | MapRaised e \<Rightarrow> fs
      | RangeExit e f \<Rightarrow> fs(image_path \<mapsto> f)
      | CommandRaised e f \<Rightarrow> fs(image_path \<mapsto> f)
      | Captured out \<Rightarrow> fs(image_path \<mapsto> rx_image (cap_state out),
          mapfile \<mapsto> text_bytes (cap_mapfile out), badlist \<mapsto> text_bytes (cap_badlist out)))"

definition host_main :: "'s host_env \<Rightarrow> cli_args \<Rightarrow> files \<Rightarrow> (main_end \<times> files) option" where
  "host_main env args fs =
     (if a_list args
      then Some (case print_ports env of Inl e \<Rightarrow> e | Inr ls \<Rightarrow> PortsListed ls, fs)
      else if a_verify_only args then Some (main_verify args fs, fs)
      else if text_given (a_port args) = []
      then Some (case print_ports env of Inl e \<Rightarrow> e | Inr ls \<Rightarrow> NeedPort ls, fs)
      else if text_given (a_image args) = [] then Some (NeedImage, fs)
      else (let image_path = text_given (a_image args);
                mapfile = map_path args image_path; badlist = bad_path args image_path
            in case need_serial env of
                 Inl e \<Rightarrow> Some (e, fs)
               | Inr _ \<Rightarrow>
                   (case he_connect env (text_given (a_port args)) (a_baud args) of
                      None \<Rightarrow> Some (OpenFailed, fs)
                    | Some s \<Rightarrow>
                        if a_restore args
                        then (case restore_run (he_port env) (fs image_path) (text_given (a_range args))
                                  (he_answer env) s of
                                None \<Rightarrow> None
                              | Some (res, s') \<Rightarrow> Some (RestoreEnded res, fs))
                        else (case capture (he_port env) (capture_opts_of args)
                                  \<lparr>f_image = fs image_path, f_mapfile = map_option latin1 (fs mapfile)\<rparr> s of
                                None \<Rightarrow> None
                              | Some (res, s') \<Rightarrow>
                                  Some (CaptureEnded res, files_after image_path mapfile badlist res fs)))))"

section \<open>Captures from the command line\<close>

text \<open>The command line asks for a capture, and its files are different files.\<close>

definition capture_args :: "cli_args \<Rightarrow> bool" where
  "capture_args args \<longleftrightarrow>
     \<not> a_list args \<and> \<not> a_verify_only args \<and> \<not> a_restore args \<and>
     text_given (a_port args) \<noteq> [] \<and> text_given (a_image args) \<noteq> [] \<and>
     distinct [text_given (a_image args), map_path args (text_given (a_image args)),
       bad_path args (text_given (a_image args))]"

lemma main_capture:
  assumes "capture_args args" "he_pyserial env"
    and "he_connect env (text_given (a_port args)) (a_baud args) = Some s"
  shows "host_main env args fs =
    (case capture (he_port env) (capture_opts_of args)
        \<lparr>f_image = fs (text_given (a_image args)),
         f_mapfile = map_option latin1 (fs (map_path args (text_given (a_image args))))\<rparr> s of
       None \<Rightarrow> None
     | Some (res, s') \<Rightarrow> Some (CaptureEnded res,
         files_after (text_given (a_image args)) (map_path args (text_given (a_image args)))
           (bad_path args (text_given (a_image args))) res fs))"
  using assms by (simp add: host_main_def need_serial_def capture_args_def Let_def)

lemma files_after_captured:
  assumes "capture_args args" "res = Captured out"
    and "fs' = files_after (text_given (a_image args)) (map_path args (text_given (a_image args)))
           (bad_path args (text_given (a_image args))) res fs"
  shows "fs' (text_given (a_image args)) = Some (rx_image (cap_state out))"
    and "fs' (map_path args (text_given (a_image args))) = Some (text_bytes (cap_mapfile out))"
    and "fs' (bad_path args (text_given (a_image args))) = Some (text_bytes (cap_badlist out))"
  using assms by (auto simp: files_after_def capture_args_def)

end
