(* ===== verification/Rescue.thy ===== *)
theory Rescue
  imports HostMain
begin

text \<open>
  Several runs of \<open>rx.py\<close> in a row, as the program is meant to be used: a capture, a
  verification of what it left, a second pass over the sectors that could not be read.
\<close>

section \<open>A fresh capture and its files\<close>

lemma replay_image_length:
  assumes "journal_ok t jn" "journal_sized bps jn" "t * bps \<le> length (rx_image r)"
  shows "length (rx_image (replay bps jn r)) = length (rx_image r)"
proof (cases "t = 0")
  case True
  with assms(1) have "jn = []" by (cases jn) (auto simp: accepted_def)
  then show ?thesis by simp
next
  case False
  then have "0 < t" by simp
  from replay_image [OF assms this] show ?thesis by blast
qed

lemma fresh_files:
  assumes "port_bounded P" "capture P opts fs s = Some (Captured out, s')"
    and "\<not> opt_resume opts" "opt_range opts = []" "info_handshake P s = Some (Inr g, s1)"
  shows "length (rx_map (cap_state out)) = g_total g"
    and "length (rx_image (cap_state out)) = g_total g * g_bps g"
    and "cap_mapfile out = write_mapfile (rx_map (cap_state out)) (g_bps g) (g_total g)"
    and "cap_report out \<noteq> [] \<Longrightarrow>
      cap_report out = verify_image (rx_image (cap_state out)) (rx_map (cap_state out)) (g_bps g) (g_total g)"
proof -
  let ?t = "g_total g" and ?bps = "g_bps g"
  obtain f sm wl cmd s2 ending r where image: "open_image opts fs ?t ?bps = Inr (f, sm)"
    and loop: "recv_loop P ?t ?bps cmd
       (\<lparr>rx_image = f, rx_map = sm, rx_bad = int (count_status BAD sm), rx_received = 0\<rparr>, s2) =
       Some (ending, r, s')"
    and out: "out = finish_capture opts ?t ?bps ending r"
    using assms(5) by (rule_tac capture_Captured [OF assms(2)]) auto
  have f: "f = file_truncate (?t * ?bps) []" "sm = replicate ?t UNTRIED"
    using image fresh_image [OF assms(3,4)] by simp_all
  obtain jn where jn: "journal_ok ?t jn" "journal_sized ?bps jn"
    "r = replay ?bps jn \<lparr>rx_image = f, rx_map = sm, rx_bad = int (count_status BAD sm), rx_received = 0\<rparr>"
    using recv_loop_journal(1) [OF loop] open_image_length [OF image] assms(1) by auto
  have state: "cap_state out = r" by (simp add: out finish_capture_def Let_def)
  show "length (rx_map (cap_state out)) = ?t" by (simp add: state jn(3) f)
  show "length (rx_image (cap_state out)) = ?t * ?bps"
    unfolding state jn(3) by (subst replay_image_length [OF jn(1,2)]) (simp_all add: f)
  show "cap_mapfile out = write_mapfile (rx_map (cap_state out)) ?bps ?t"
    by (simp add: out finish_capture_def Let_def)
  show "cap_report out \<noteq> [] \<Longrightarrow>
      cap_report out = verify_image (rx_image (cap_state out)) (rx_map (cap_state out)) ?bps ?t"
    by (simp add: out finish_capture_def Let_def split: if_splits)
qed

text \<open>A sender with 512-byte sectors, read back by \<open>--verify-only\<close>.\<close>

lemma verify_only_files:
  assumes "length f = t * 512" "length sm = t"
  shows "verify_only f (Some (write_mapfile sm 512 t)) = Inr (verify_image f sm 512 t)"
  using load_write_mapfile [of 512 sm t] assms by (simp add: verify_only_def)

section \<open>Two passes over a DOS disk\<close>

text \<open>
  The environment in which the port leads to the C sender with the disk \<open>d\<close>, started for this
  run; the host's timeout is that of \<open>main\<close>.
\<close>

definition dos_env :: "tx_disk \<Rightarrow> tx_state line host_env" where
  "dos_env d = \<lparr>he_pyserial = True, he_ports = [], he_connect = (\<lambda>p b. Some (session_start d 3)),
     he_port = dos_port d, he_answer = None\<rparr>"

lemma dos_env_simps [simp]:
  "he_pyserial (dos_env d)" "he_connect (dos_env d) p b = Some (session_start d 3)"
  "he_port (dos_env d) = dos_port d"
  by (simp_all add: dos_env_def)

text \<open>The map of a disk all of whose sectors have been tried.\<close>

definition disk_map :: "tx_disk \<Rightarrow> statusmap" where
  "disk_map d = map (\<lambda>k. if disk_read d k = None then BAD else GOOD) [0..<unat (d_total d)]"

definition fresh_args :: "cli_args \<Rightarrow> bool" where
  "fresh_args args \<longleftrightarrow> capture_args args \<and> \<not> a_resume args \<and> text_given (a_range args) = []"

text \<open>The files after a first pass: image and mapfile.\<close>

lemma first_pass:
  assumes "fresh_args args" "bios_sized d"
  obtains f where "\<exists>res fs'. host_main (dos_env d) args fs = Some (CaptureEnded res, fs')
      \<and> fs' (text_given (a_image args)) = Some f
      \<and> fs' (map_path args (text_given (a_image args))) =
          Some (text_bytes (write_mapfile (disk_map d) BPS (unat (d_total d))))"
    "length f = unat (d_total d) * BPS"
    "\<forall>k<unat (d_total d). file_read_at (k * BPS) BPS f = disk_bytes d k"
proof -
  let ?t = "unat (d_total d)" and ?img = "text_given (a_image args)"
  let ?fs = "\<lparr>f_image = fs ?img, f_mapfile = map_option latin1 (fs (map_path args ?img))\<rparr>"
  have args: "capture_args args" "\<not> opt_resume (capture_opts_of args)" "opt_range (capture_opts_of args) = []"
    using assms(1) by (simp_all add: fresh_args_def capture_opts_of_def)
  note fresh = fresh_image [OF args(2,3), of ?fs ?t BPS] fresh_worklist [OF args(2,3)]
  have size: "?t * BPS \<le> length (file_truncate (?t * BPS) [])" "length (replicate ?t UNTRIED) = ?t"
    by simp_all
  obtain out s' where run: "capture (dos_port d) (capture_opts_of args) ?fs (session_start d 3) = Some (Captured out, s')"
    and map: "cap_mapfile out = write_mapfile (rx_map (cap_state out)) BPS ?t"
    and len: "length (rx_map (cap_state out)) = ?t" "length (rx_image (cap_state out)) = ?t * BPS"
    and sectors: "k < ?t \<Longrightarrow> file_read_at (k * BPS) BPS (rx_image (cap_state out)) = disk_bytes d k
      \<and> rx_map (cap_state out) ! k = (if disk_read d k = None then BAD else GOOD)" for k
    using clean_run [OF assms(2) fresh(1) size fresh(2), of 3] by (auto simp: covered_def)
  have "rx_map (cap_state out) = disk_map d"
    using len(1) sectors by (intro nth_equalityI) (simp_all add: disk_map_def)
  then show thesis
    using main_capture [OF args(1), of "dos_env d" "session_start d 3" fs] run map len(2) sectors
      files_after_captured [OF args(1) refl refl, of out fs]
    by (intro that [of "rx_image (cap_state out)"]) auto
qed

text \<open>A second pass: the sectors of its worklist come from the disk as it is now, the others stay.\<close>

lemma second_pass:
  assumes "fresh_args args" "bios_sized d" "d_total d = d_total d1"
    and "fs (text_given (a_image args)) = Some f"
    and "fs (map_path args (text_given (a_image args))) =
      Some (text_bytes (write_mapfile (disk_map d1) BPS (unat (d_total d1))))"
    and "length f = unat (d_total d1) * BPS"
  shows "\<exists>out fs' f'. host_main (dos_env d) (args\<lparr>a_resume := True\<rparr>) fs = Some (CaptureEnded (Captured out), fs')
    \<and> fs' (text_given (a_image args)) = Some f'
    \<and> fs' (map_path args (text_given (a_image args))) =
        Some (text_bytes (write_mapfile (rx_map (cap_state out)) BPS (unat (d_total d1))))
    \<and> length (rx_map (cap_state out)) = unat (d_total d1) \<and> length f' = length f
    \<and> (\<forall>k<unat (d_total d1).
         file_read_at (k * BPS) BPS f' =
           (if k \<in> covered (build_worklist (disk_map d1) (unat (d_total d1)) True) then disk_bytes d k
            else file_read_at (k * BPS) BPS f)
         \<and> rx_map (cap_state out) ! k =
           (if k \<in> covered (build_worklist (disk_map d1) (unat (d_total d1)) True)
            then (if disk_read d k = None then BAD else GOOD) else disk_map d1 ! k))"
proof -
  let ?t = "unat (d_total d1)" and ?img = "text_given (a_image args)"
  let ?args = "args\<lparr>a_resume := True\<rparr>"
  let ?fs = "\<lparr>f_image = fs ?img, f_mapfile = map_option latin1 (fs (map_path args ?img))\<rparr>"
  let ?wl = "build_worklist (disk_map d1) ?t True"
  have args: "capture_args ?args" "map_path ?args ?img = map_path args ?img" "bad_path ?args ?img = bad_path args ?img"
    "opt_resume (capture_opts_of ?args)" "opt_range (capture_opts_of ?args) = []"
    using assms(1) by (simp_all add: fresh_args_def capture_args_def map_path_def bad_path_def capture_opts_of_def)
  have len: "length (disk_map d1) = ?t" by (simp add: disk_map_def)
  have "load_mapfile (write_mapfile (disk_map d1) BPS ?t) ?t BPS = Inr (disk_map d1)"
    by (rule load_write_mapfile) (simp_all add: len BPS_def)
  then have image: "open_image (capture_opts_of ?args) ?fs (unat (d_total d)) BPS = Inr (f, disk_map d1)"
    using assms(3-5) args(4) by (simp add: open_image_def)
  have wl: "choose_worklist (capture_opts_of ?args) (disk_map d1) (unat (d_total d)) = Inr ?wl"
    using args(4,5) assms(3) by (simp add: choose_worklist_def)
  have size: "unat (d_total d) * BPS \<le> length f" "length (disk_map d1) = unat (d_total d)"
    using assms(3,6) len by simp_all
  obtain out s' where run: "capture (dos_port d) (capture_opts_of ?args) ?fs (session_start d 3) = Some (Captured out, s')"
    and out: "cap_mapfile out = write_mapfile (rx_map (cap_state out)) BPS ?t"
      "length (rx_map (cap_state out)) = ?t" "length (rx_image (cap_state out)) = length f"
    and sectors: "\<forall>k<?t. file_read_at (k * BPS) BPS (rx_image (cap_state out)) =
          (if k \<in> covered ?wl then disk_bytes d k else file_read_at (k * BPS) BPS f)
        \<and> rx_map (cap_state out) ! k =
          (if k \<in> covered ?wl then (if disk_read d k = None then BAD else GOOD) else disk_map d1 ! k)"
    using clean_run [OF assms(2) image size wl, of 3] assms(3) by auto
  have "host_main (dos_env d) ?args fs = Some (CaptureEnded (Captured out),
      files_after ?img (map_path args ?img) (bad_path args ?img) (Captured out) fs)"
    using main_capture [OF args(1), of "dos_env d" "session_start d 3" fs] run args(2,3) by simp
  moreover have "capture_args args" using assms(1) by (simp add: fresh_args_def)
  note files_after_captured [OF this refl refl, of out fs]
  ultimately show ?thesis
    using out sectors
    by (intro exI [of _ out] exI [of _ "files_after ?img (map_path args ?img) (bad_path args ?img) (Captured out) fs"]
        exI [of _ "rx_image (cap_state out)"]) simp
qed

text \<open>Two passes in a row.\<close>

lemma two_passes:
  assumes "fresh_args args" "bios_sized d1" "bios_sized d2" "d_total d2 = d_total d1"
  obtains res1 fs1 out fs2 f where
    "host_main (dos_env d1) args fs = Some (CaptureEnded res1, fs1)"
    "host_main (dos_env d2) (args\<lparr>a_resume := True\<rparr>) fs1 = Some (CaptureEnded (Captured out), fs2)"
    "fs2 (text_given (a_image args)) = Some f" "length (rx_map (cap_state out)) = unat (d_total d1)"
    "fs2 (map_path args (text_given (a_image args))) =
       Some (text_bytes (write_mapfile (rx_map (cap_state out)) BPS (unat (d_total d1))))"
    "\<forall>k<unat (d_total d1).
       (k \<in> covered (build_worklist (disk_map d1) (unat (d_total d1)) True) \<longrightarrow>
          file_read_at (k * BPS) BPS f = disk_bytes d2 k
          \<and> rx_map (cap_state out) ! k = (if disk_read d2 k = None then BAD else GOOD))
       \<and> (k \<notin> covered (build_worklist (disk_map d1) (unat (d_total d1)) True) \<longrightarrow>
          file_read_at (k * BPS) BPS f = disk_bytes d1 k
          \<and> rx_map (cap_state out) ! k = (if disk_read d1 k = None then BAD else GOOD))"
proof -
  obtain f1 where one: "\<exists>res fs'. host_main (dos_env d1) args fs = Some (CaptureEnded res, fs')
      \<and> fs' (text_given (a_image args)) = Some f1
      \<and> fs' (map_path args (text_given (a_image args))) =
          Some (text_bytes (write_mapfile (disk_map d1) BPS (unat (d_total d1))))"
    and f1: "length f1 = unat (d_total d1) * BPS"
      "\<forall>k<unat (d_total d1). file_read_at (k * BPS) BPS f1 = disk_bytes d1 k"
    using assms(1,2) by (rule first_pass)
  then obtain res fs1 where first: "host_main (dos_env d1) args fs = Some (CaptureEnded res, fs1)"
    "fs1 (text_given (a_image args)) = Some f1"
    "fs1 (map_path args (text_given (a_image args))) =
      Some (text_bytes (write_mapfile (disk_map d1) BPS (unat (d_total d1))))" by blast
  from second_pass [OF assms(1,3,4) first(2,3) f1(1)] obtain out fs2 f where
    second: "host_main (dos_env d2) (args\<lparr>a_resume := True\<rparr>) fs1 = Some (CaptureEnded (Captured out), fs2)"
      "fs2 (text_given (a_image args)) = Some f" "length (rx_map (cap_state out)) = unat (d_total d1)"
      "fs2 (map_path args (text_given (a_image args))) =
        Some (text_bytes (write_mapfile (rx_map (cap_state out)) BPS (unat (d_total d1))))"
    and sectors: "\<forall>k<unat (d_total d1).
         file_read_at (k * BPS) BPS f =
           (if k \<in> covered (build_worklist (disk_map d1) (unat (d_total d1)) True) then disk_bytes d2 k
            else file_read_at (k * BPS) BPS f1)
         \<and> rx_map (cap_state out) ! k =
           (if k \<in> covered (build_worklist (disk_map d1) (unat (d_total d1)) True)
            then (if disk_read d2 k = None then BAD else GOOD) else disk_map d1 ! k)" by blast
  show thesis
    by (rule that [OF first(1) second(1,2,3,4)])
       (use sectors f1(2) in \<open>simp add: disk_map_def\<close>)
qed

lemma disk_map_unfinished:
  "{k. k < unat (d_total d) \<and> unfinished (disk_map d ! k)} = {k. k < unat (d_total d) \<and> disk_read d k = None}"
  by (auto simp: disk_map_def split: if_splits)

section \<open>Properties\<close>

text \<open>C8: Two passes rescue what either could read: after a capture of a disk and a \<open>--resume\<close> of
  the same disk with other read errors, when the bad sectors of the first pass form at most
  \<open>MAXR\<close> runs, the image holds every sector as the first pass read it, or, where the first
  pass failed, as the second did; the mapfile marks as good the sectors that one of the passes
  could read.\<close>

theorem two_pass_rescue:
  assumes "fresh_args args" "bios_sized d1" "bios_sized d2" "d_total d2 = d_total d1"
    and "length (todo_runs (disk_map d1) (unat (d_total d1)) 0) \<le> MAXR"
  shows "\<exists>res1 fs1 res2 fs2 f sm.
      host_main (dos_env d1) args fs = Some (CaptureEnded res1, fs1)
    \<and> host_main (dos_env d2) (args\<lparr>a_resume := True\<rparr>) fs1 = Some (CaptureEnded res2, fs2)
    \<and> fs2 (text_given (a_image args)) = Some f
    \<and> fs2 (map_path args (text_given (a_image args))) =
        Some (text_bytes (write_mapfile sm BPS (unat (d_total d1))))
    \<and> length sm = unat (d_total d1)
    \<and> (\<forall>k<unat (d_total d1).
         file_read_at (k * BPS) BPS f = (if disk_read d1 k = None then disk_bytes d2 k else disk_bytes d1 k)
         \<and> sm ! k = (if disk_read d1 k = None \<and> disk_read d2 k = None then BAD else GOOD))"
proof -
  let ?t = "unat (d_total d1)" and ?wl = "build_worklist (disk_map d1) (unat (d_total d1)) True"
  obtain res1 fs1 out fs2 f where run:
    "host_main (dos_env d1) args fs = Some (CaptureEnded res1, fs1)"
    "host_main (dos_env d2) (args\<lparr>a_resume := True\<rparr>) fs1 = Some (CaptureEnded (Captured out), fs2)"
    "fs2 (text_given (a_image args)) = Some f" "length (rx_map (cap_state out)) = ?t"
    "fs2 (map_path args (text_given (a_image args))) =
       Some (text_bytes (write_mapfile (rx_map (cap_state out)) BPS ?t))"
    and sectors: "\<forall>k<?t.
       (k \<in> covered ?wl \<longrightarrow> file_read_at (k * BPS) BPS f = disk_bytes d2 k
          \<and> rx_map (cap_state out) ! k = (if disk_read d2 k = None then BAD else GOOD))
       \<and> (k \<notin> covered ?wl \<longrightarrow> file_read_at (k * BPS) BPS f = disk_bytes d1 k
          \<and> rx_map (cap_state out) ! k = (if disk_read d1 k = None then BAD else GOOD))"
    using assms(1-4) by (rule two_passes)
  have "covered ?wl = {k. k < ?t \<and> disk_read d1 k = None}"
    using worklist_resume_exact [OF assms(5)] disk_map_unfinished [of d1] by simp
  with sectors have "\<forall>k<?t.
       file_read_at (k * BPS) BPS f = (if disk_read d1 k = None then disk_bytes d2 k else disk_bytes d1 k)
     \<and> rx_map (cap_state out) ! k = (if disk_read d1 k = None \<and> disk_read d2 k = None then BAD else GOOD)"
    by auto
  with run show ?thesis by blast
qed

definition sample_args :: cli_args where
  "sample_args = \<lparr>a_image = Some ''d'', a_port = Some ''p'', a_baud = 9600, a_list = False, a_mapfile = None,
     a_badlist = None, a_resume = False, a_verify = False, a_verify_only = False, a_restore = False,
     a_range = None\<rparr>"

lemma sample_args_fresh: "fresh_args sample_args"
  by (simp add: fresh_args_def capture_args_def sample_args_def text_or_def map_path_def bad_path_def)

text \<open>The sample disk on a better day: its second sector can be read.\<close>

definition sample_disk_later :: tx_disk where
  "sample_disk_later = sample_disk\<lparr>d_bios := (\<lambda>c t. Some (replicate BPS 9))\<rparr>"

lemma sample_disk_later_facts: "bios_sized sample_disk_later" "d_total sample_disk_later = d_total sample_disk"
  "disk_bytes sample_disk_later k = replicate BPS 9" "disk_read sample_disk_later k \<noteq> None"
  by (simp_all add: sample_disk_later_def bios_sized_def disk_bytes_def disk_read_def read_with_retries_def
      READ_TRIES_def eval_nat_numeral)

theorem two_pass_rescue_witness:
  "\<exists>res1 fs1 res2 fs2 f. host_main (dos_env sample_disk) sample_args (\<lambda>_. None) = Some (CaptureEnded res1, fs1)
    \<and> host_main (dos_env sample_disk_later) (sample_args\<lparr>a_resume := True\<rparr>) fs1 = Some (CaptureEnded res2, fs2)
    \<and> fs2 ''d'' = Some f
    \<and> file_read_at (0 * BPS) BPS f = replicate BPS 7 \<and> file_read_at (1 * BPS) BPS f = replicate BPS 9"
proof -
  have path: "text_given (a_image sample_args) = ''d''" by (simp add: sample_args_def text_or_def)
  have two: "[0..<2] = [0, 1 :: nat]" by (simp add: numeral_2_eq_2)
  have "length (todo_runs (disk_map sample_disk) 2 0) \<le> MAXR"
    by (simp add: disk_map_def sample_disk_reads two todo_runs.simps todo_end.simps MAXR_def Let_def)
  then have few: "length (todo_runs (disk_map sample_disk) (unat (d_total sample_disk)) 0) \<le> MAXR"
    by (simp only: sample_disk_reads(5))
  from two_pass_rescue [OF sample_args_fresh sample_disk_sized sample_disk_later_facts(1,2) few, of "\<lambda>_. None"]
  obtain res1 fs1 res2 fs2 f where
    "host_main (dos_env sample_disk) sample_args (\<lambda>_. None) = Some (CaptureEnded res1, fs1)"
    "host_main (dos_env sample_disk_later) (sample_args\<lparr>a_resume := True\<rparr>) fs1 = Some (CaptureEnded res2, fs2)"
    "fs2 ''d'' = Some f"
    and sectors: "k < 2 \<Longrightarrow> file_read_at (k * BPS) BPS f =
      (if disk_read sample_disk k = None then disk_bytes sample_disk_later k else disk_bytes sample_disk k)" for k
    unfolding path sample_disk_reads(5) by blast
  moreover from sectors [of 0] sectors [of 1]
  have "file_read_at (0 * BPS) BPS f = replicate BPS 7 \<and> file_read_at (1 * BPS) BPS f = replicate BPS 9"
    by (simp only: sample_disk_reads sample_disk_later_facts if_True if_False) simp
  ultimately show ?thesis by blast
qed

text \<open>C24: With more than \<open>MAXR\<close> runs of bad sectors, the second pass reads some sector again that
  the first had read well; if it cannot be read this time, its data is lost: the image holds
  zeros there and the map says bad.\<close>

theorem coalesced_pass_loses:
  assumes "fresh_args args" "bios_sized d1" "bios_sized d2" "d_total d2 = d_total d1"
    and "MAXR < length (todo_runs (disk_map d1) (unat (d_total d1)) 0)"
  shows "\<exists>k<unat (d_total d1). disk_read d1 k \<noteq> None \<and> (disk_read d2 k = None \<longrightarrow>
    (\<exists>res1 fs1 res2 fs2 f sm.
        host_main (dos_env d1) args fs = Some (CaptureEnded res1, fs1)
      \<and> host_main (dos_env d2) (args\<lparr>a_resume := True\<rparr>) fs1 = Some (CaptureEnded res2, fs2)
      \<and> fs2 (text_given (a_image args)) = Some f
      \<and> fs2 (map_path args (text_given (a_image args))) =
          Some (text_bytes (write_mapfile sm BPS (unat (d_total d1))))
      \<and> file_read_at (k * BPS) BPS f = replicate BPS BAD_FILL \<and> sm ! k = BAD))"
proof -
  let ?t = "unat (d_total d1)" and ?wl = "build_worklist (disk_map d1) (unat (d_total d1)) True"
  obtain k where k: "k < ?t" "disk_map d1 ! k = GOOD" "k \<in> covered ?wl"
    by (rule coalesce_rereads [OF assms(5)])
  obtain res1 fs1 out fs2 f where run:
    "host_main (dos_env d1) args fs = Some (CaptureEnded res1, fs1)"
    "host_main (dos_env d2) (args\<lparr>a_resume := True\<rparr>) fs1 = Some (CaptureEnded (Captured out), fs2)"
    "fs2 (text_given (a_image args)) = Some f" "length (rx_map (cap_state out)) = ?t"
    "fs2 (map_path args (text_given (a_image args))) =
       Some (text_bytes (write_mapfile (rx_map (cap_state out)) BPS ?t))"
    and sectors: "\<forall>k<?t.
       (k \<in> covered ?wl \<longrightarrow> file_read_at (k * BPS) BPS f = disk_bytes d2 k
          \<and> rx_map (cap_state out) ! k = (if disk_read d2 k = None then BAD else GOOD))
       \<and> (k \<notin> covered ?wl \<longrightarrow> file_read_at (k * BPS) BPS f = disk_bytes d1 k
          \<and> rx_map (cap_state out) ! k = (if disk_read d1 k = None then BAD else GOOD))"
    using assms(1-4) by (rule two_passes)
  have lost: "file_read_at (k * BPS) BPS f = replicate BPS BAD_FILL \<and> rx_map (cap_state out) ! k = BAD"
    if "disk_read d2 k = None"
    using sectors [rule_format, OF k(1)] k(3) that by (simp add: disk_bytes_def)
  have "disk_read d1 k \<noteq> None" using k(1,2) by (auto simp: disk_map_def split: if_splits)
  moreover have "disk_read d2 k = None \<longrightarrow> (\<exists>res1 fs1 res2 fs2 f sm.
        host_main (dos_env d1) args fs = Some (CaptureEnded res1, fs1)
      \<and> host_main (dos_env d2) (args\<lparr>a_resume := True\<rparr>) fs1 = Some (CaptureEnded res2, fs2)
      \<and> fs2 (text_given (a_image args)) = Some f
      \<and> fs2 (map_path args (text_given (a_image args))) = Some (text_bytes (write_mapfile sm BPS ?t))
      \<and> file_read_at (k * BPS) BPS f = replicate BPS BAD_FILL \<and> sm ! k = BAD)"
    using run(1,2,3,5) lost by blast
  ultimately show ?thesis using k(1) by (intro exI [of _ k] conjI)
qed

text \<open>A disk of 514 sectors, one on each cylinder, of which every second cannot be read.\<close>

definition comb_disk :: tx_disk where
  "comb_disk =
     \<lparr>d_total = 514, d_cyls = 514, d_heads = 1, d_spt = 1,
      d_bios = (\<lambda>(c, h, s) t. if odd (unat c) then Some (replicate BPS 7) else None)\<rparr>"

text \<open>The same disk when nothing can be read any more.\<close>

definition dead_disk :: tx_disk where
  "dead_disk = comb_disk\<lparr>d_bios := (\<lambda>c t. None)\<rparr>"

lemma comb_runs:
  assumes "\<forall>k<2 * n. sm ! k = (if even k then BAD else GOOD)" "j \<le> n"
  shows "length (todo_runs sm (2 * n) (2 * (n - j))) = j"
  using assms(2)
proof (induction j)
  case 0
  show ?case by (simp add: todo_runs.simps)
next
  case (Suc j)
  let ?i = "2 * (n - Suc j)"
  have i: "?i + 1 < 2 * n" "?i + 2 = 2 * (n - j)" using Suc.prems by auto
  have "sm ! ?i = BAD" "sm ! (?i + 1) = GOOD" using assms(1) i(1) by simp_all
  then have "todo_end sm (2 * n) ?i = ?i + 1" using i(1) by (simp add: todo_end.simps)
  moreover have "todo_runs sm (2 * n) (?i + 1) = todo_runs sm (2 * n) (?i + 2)"
    using i(1) \<open>sm ! (?i + 1) = GOOD\<close> by (subst todo_runs.simps) simp
  then have "todo_runs sm (2 * n) (?i + 1) = todo_runs sm (2 * n) (2 * (n - j))" unfolding i(2) .
  ultimately have "todo_runs sm (2 * n) ?i = (?i, ?i + 1) # todo_runs sm (2 * n) (2 * (n - j))"
    using i(1) \<open>sm ! ?i = BAD\<close> by (simp add: todo_runs.simps [of sm "2 * n" ?i] Let_def)
  with Suc show ?case by simp
qed

lemma comb_disk_facts: "bios_sized comb_disk" "bios_sized dead_disk" "d_total dead_disk = d_total comb_disk"
  "disk_read dead_disk k = None" "MAXR < length (todo_runs (disk_map comb_disk) (unat (d_total comb_disk)) 0)"
proof -
  show "bios_sized comb_disk" "bios_sized dead_disk" "d_total dead_disk = d_total comb_disk"
    by (auto simp: bios_sized_def comb_disk_def dead_disk_def split: if_splits)
  have none: "read_from (\<lambda>c t. None) c n m = None" for c n m
    by (induction m arbitrary: n) simp_all
  then show "disk_read dead_disk k = None" for k
    by (simp add: disk_read_def dead_disk_def read_with_retries_def)
  have "disk_read comb_disk k = (if odd k then Some (replicate BPS 7) else None)" if "k < 514" for k
  proof -
    have "unat (word_of_nat k :: 16 word) = k" using that by (simp add: unat_of_nat)
    then have "chs_of (unat (d_heads comb_disk)) (unat (d_spt comb_disk)) k = (word_of_nat k, 0, 1)"
      "\<And>c n. d_bios comb_disk (word_of_nat k, c) n = (if odd k then Some (replicate BPS 7) else None)"
      by (simp_all add: chs_of_def comb_disk_def case_prod_unfold)
    then show ?thesis
      by (simp add: disk_read_def read_with_retries_def READ_TRIES_def eval_nat_numeral)
  qed
  moreover have total: "unat (d_total comb_disk) = 514" by (simp add: comb_disk_def)
  ultimately have "\<forall>k<2 * 257. disk_map comb_disk ! k = (if even k then BAD else GOOD)"
    by (simp add: disk_map_def)
  from comb_runs [OF this, of 257] show "MAXR < length (todo_runs (disk_map comb_disk) (unat (d_total comb_disk)) 0)"
    by (simp add: total MAXR_def)
qed

theorem coalesced_pass_loses_witness:
  "\<exists>k<514. disk_read comb_disk k \<noteq> None \<and> (\<exists>res1 fs1 res2 fs2 f.
      host_main (dos_env comb_disk) sample_args (\<lambda>_. None) = Some (CaptureEnded res1, fs1)
    \<and> host_main (dos_env dead_disk) (sample_args\<lparr>a_resume := True\<rparr>) fs1 = Some (CaptureEnded res2, fs2)
    \<and> fs2 ''d'' = Some f \<and> file_read_at (k * BPS) BPS f = replicate BPS BAD_FILL)"
proof -
  have path: "text_given (a_image sample_args) = ''d''" by (simp add: sample_args_def text_or_def)
  have total: "unat (d_total comb_disk) = 514" by (simp add: comb_disk_def)
  let ?lost = "\<lambda>k. \<exists>res1 fs1 res2 fs2 f sm.
        host_main (dos_env comb_disk) sample_args (\<lambda>_. None) = Some (CaptureEnded res1, fs1)
      \<and> host_main (dos_env dead_disk) (sample_args\<lparr>a_resume := True\<rparr>) fs1 = Some (CaptureEnded res2, fs2)
      \<and> fs2 ''d'' = Some f
      \<and> fs2 (map_path sample_args ''d'') = Some (text_bytes (write_mapfile sm BPS 514))
      \<and> file_read_at (k * BPS) BPS f = replicate BPS BAD_FILL \<and> sm ! k = BAD"
  from coalesced_pass_loses [OF sample_args_fresh comb_disk_facts(1-3,5), of "\<lambda>_. None"]
  obtain k where "k < 514 \<and> disk_read comb_disk k \<noteq> None \<and> (disk_read dead_disk k = None \<longrightarrow> ?lost k)"
    unfolding path total by (rule exE)
  then have k: "k < 514" "disk_read comb_disk k \<noteq> None" and "?lost k"
    using comb_disk_facts(4) [of k] by (elim conjE; simp only: simp_thms)+
  then obtain res1 fs1 res2 fs2 f where
    "host_main (dos_env comb_disk) sample_args (\<lambda>_. None) = Some (CaptureEnded res1, fs1)"
    "host_main (dos_env dead_disk) (sample_args\<lparr>a_resume := True\<rparr>) fs1 = Some (CaptureEnded res2, fs2)"
    "fs2 ''d'' = Some f" "file_read_at (k * BPS) BPS f = replicate BPS BAD_FILL" by blast
  with k show ?thesis by blast
qed

text \<open>C21: What a fresh capture leaves can be verified later: however it ends, if the sender announced
  512-byte sectors, a run with \<open>--verify-only\<close> and the same names loads the map the capture had
  and prints the report \<open>--verify\<close> would have printed.\<close>

theorem verify_after_capture:
  assumes "fresh_args args" "he_pyserial env" "port_bounded (he_port env)"
    and "he_connect env (text_given (a_port args)) (a_baud args) = Some s"
    and "info_handshake (he_port env) s = Some (Inr g, s1)" "g_bps g = 512"
    and "host_main env args fs = Some (CaptureEnded (Captured out), fs')"
  shows "host_main env (args\<lparr>a_verify_only := True\<rparr>) fs' =
      Some (Verified True (verify_image (rx_image (cap_state out)) (rx_map (cap_state out)) 512 (g_total g)), fs')
    \<and> (cap_report out \<noteq> [] \<longrightarrow>
        cap_report out = verify_image (rx_image (cap_state out)) (rx_map (cap_state out)) 512 (g_total g))"
proof -
  let ?img = "text_given (a_image args)"
  have args: "capture_args args" "\<not> opt_resume (capture_opts_of args)" "opt_range (capture_opts_of args) = []"
    using assms(1) by (simp_all add: fresh_args_def capture_opts_of_def)
  obtain s' where run: "capture (he_port env) (capture_opts_of args)
      \<lparr>f_image = fs ?img, f_mapfile = map_option latin1 (fs (map_path args ?img))\<rparr> s = Some (Captured out, s')"
    and fs': "fs' = files_after ?img (map_path args ?img) (bad_path args ?img) (Captured out) fs"
    using assms(7) by (auto simp: main_capture [OF args(1) assms(2,4)] split: option.splits)
  note files = files_after_captured [OF args(1) refl fs']
  note fresh = fresh_files [OF assms(3) run args(2,3) assms(5)]
  have "main_verify (args\<lparr>a_verify_only := True\<rparr>) fs' =
      Verified True (verify_image (rx_image (cap_state out)) (rx_map (cap_state out)) 512 (g_total g))"
    using files args(1) fresh(1-3) assms(6)
      verify_only_files [of "rx_image (cap_state out)" "g_total g" "rx_map (cap_state out)"]
    by (simp add: main_verify_def capture_args_def Let_def map_path_def)
  moreover have "\<not> a_list args" using args(1) by (simp add: capture_args_def)
  ultimately show ?thesis using fresh(4) assms(6) by (simp add: host_main_def)
qed

theorem verify_after_capture_witness:
  "\<exists>out fs' rep. host_main (dos_env sample_disk) sample_args (\<lambda>_. None) = Some (CaptureEnded (Captured out), fs')
    \<and> host_main (dos_env sample_disk) (sample_args\<lparr>a_verify_only := True\<rparr>) fs' = Some (Verified True rep, fs')"
proof -
  have args: "capture_args sample_args" using sample_args_fresh by (simp add: fresh_args_def)
  have opts: "\<not> opt_resume (capture_opts_of sample_args)" "opt_range (capture_opts_of sample_args) = []"
    by (simp_all add: capture_opts_of_def sample_args_def text_or_def)
  from clean_run [OF sample_disk_sized fresh_image [OF opts] _ _ fresh_worklist [OF opts]]
  obtain out s' where "capture (dos_port sample_disk) (capture_opts_of sample_args)
      \<lparr>f_image = None, f_mapfile = None\<rparr> (session_start sample_disk 3) = Some (Captured out, s')" by fastforce
  then obtain fs' where run: "host_main (dos_env sample_disk) sample_args (\<lambda>_. None) =
      Some (CaptureEnded (Captured out), fs')"
    using main_capture [OF args, of "dos_env sample_disk" "session_start sample_disk 3" "\<lambda>_. None"] by simp
  have "line_queue (session_start sample_disk 3) = [] @ send_info sample_disk" "SOH \<notin> set []"
    by (simp_all add: session_start_def line_queue_def)
  then obtain s1 where hs: "info_handshake (dos_port sample_disk) (session_start sample_disk 3) =
      Some (Inr (disk_geometry sample_disk), s1)" by (rule dos.handshake)
  have "g_bps (disk_geometry sample_disk) = 512" by (simp add: disk_geometry_def BPS_def)
  from verify_after_capture [OF sample_args_fresh, of "dos_env sample_disk", simplified,
      OF dos_port_bounded refl hs this run] run show ?thesis by blast
qed

end
