(* ===== verification/DosMain.thy ===== *)
theory DosMain
  imports DosSender
begin

text \<open>
  \<open>tx-msdos/src/main.c\<close> in the order of the program: options, geometry, handshake, the range
  loop with the keyboard, the progress display, the ways to end. What the program waits for
  on the line is a list of events, each a received byte or an expired wait (\<open>None\<close>). The
  keyboard is an argument: what \<open>kbhit\<close> and \<open>getch\<close> give before each sector.
\<close>

section \<open>Programs that send and wait\<close>

text \<open>
  The actions taken (here the bytes sent), and the result with the events left over, or \<open>None\<close>
  if the program still waits when all events are consumed.
\<close>

type_synonym events = "byte option list"
type_synonym ('o, 'a) dos_io = "events \<Rightarrow> 'o list \<times> ('a \<times> events) option"
type_synonym 'a tx_io = "(byte, 'a) dos_io"

definition tx_return :: "'a \<Rightarrow> ('o, 'a) dos_io" where
  "tx_return a evs = ([], Some (a, evs))"

definition tx_bind :: "('o, 'a) dos_io \<Rightarrow> ('a \<Rightarrow> ('o, 'b) dos_io) \<Rightarrow> ('o, 'b) dos_io" where
  "tx_bind m k evs =
     (case m evs of
        (out, None) \<Rightarrow> (out, None)
      | (out, Some (a, evs')) \<Rightarrow> (let (out', res) = k a evs' in (out @ out', res)))"

definition tx_send :: "byte list \<Rightarrow> unit tx_io" where
  "tx_send bs evs = (bs, Some ((), evs))"

text \<open>\<open>serial_recv\<close> with \<open>ACK_TIMEOUT_TICKS\<close>.\<close>

definition tx_wait :: "('o, byte option) dos_io" where
  "tx_wait evs = (case evs of [] \<Rightarrow> ([], None) | e # evs' \<Rightarrow> ([], Some (e, evs')))"

section \<open>Receiving the worklist\<close>

text \<open>The hunt for \<open>SOH\<close>; the counter runs down from 300.\<close>

fun hunt_command :: "nat \<Rightarrow> bool tx_io" where
  "hunt_command 0 = tx_return False"
| "hunt_command (Suc n) = tx_bind tx_wait (\<lambda>r.
     case r of
       None \<Rightarrow> tx_return False
     | Some b \<Rightarrow> if b = SOH then tx_return True else hunt_command n)"

text \<open>The loop over the eight bytes of a range; the checksum runs along.\<close>

fun recv_bytes :: "nat \<Rightarrow> 16 word \<Rightarrow> (byte list \<times> 16 word) option tx_io" where
  "recv_bytes 0 crc = tx_return (Some ([], crc))"
| "recv_bytes (Suc n) crc = tx_bind tx_wait (\<lambda>r.
     case r of
       None \<Rightarrow> tx_return None
     | Some b \<Rightarrow> tx_bind (recv_bytes n (crc16_update crc b)) (\<lambda>res.
         tx_return (case res of None \<Rightarrow> None | Some (bs, crc') \<Rightarrow> Some (b # bs, crc'))))"

fun recv_ranges :: "nat \<Rightarrow> 16 word \<Rightarrow> ((32 word \<times> 32 word) list \<times> 16 word) option tx_io" where
  "recv_ranges 0 crc = tx_return (Some ([], crc))"
| "recv_ranges (Suc n) crc = tx_bind (recv_bytes 8 crc) (\<lambda>res.
     case res of
       None \<Rightarrow> tx_return None
     | Some (p, crc') \<Rightarrow> tx_bind (recv_ranges n crc') (\<lambda>res.
         tx_return (case res of
           None \<Rightarrow> None
         | Some (rs, crc'') \<Rightarrow> Some ((word32_at 0 p, word32_at 4 p) # rs, crc''))))"

text \<open>\<open>recv_command\<close>; \<open>None\<close> is its result 0.\<close>

definition recv_command :: "(32 word \<times> 32 word) list option tx_io" where
  "recv_command = tx_bind (hunt_command 300) (\<lambda>found.
     if \<not> found then tx_return None
     else tx_bind tx_wait (\<lambda>t.
       if t \<noteq> Some TYPE_CMD then tx_return None
       else tx_bind (recv_bytes 2 (crc16_update 0xFFFF TYPE_CMD)) (\<lambda>res.
         case res of
           None \<Rightarrow> tx_return None
         | Some (p, crc) \<Rightarrow>
             (let count = unat (word16_at 0 p) in
              if count > MAXR then tx_return None
              else tx_bind (recv_ranges count crc) (\<lambda>res.
                case res of
                  None \<Rightarrow> tx_return None
                | Some (rs, crc') \<Rightarrow> tx_bind (recv_bytes 2 crc') (\<lambda>res.
                    case res of
                      None \<Rightarrow> tx_return None
                    | Some (q, crc'') \<Rightarrow>
                        tx_return (if word16_at 0 q \<noteq> crc' then None else Some rs)))))))"

lemma tx_wait_simps [simp]: "tx_wait [] = ([], None)" "tx_wait (e # evs) = ([], Some (e, evs))"
  by (simp_all add: tx_wait_def)

lemma tx_bind_wait [simp]: "tx_bind tx_wait k [] = ([], None)" "tx_bind tx_wait k (e # evs) = k e evs"
  by (simp_all add: tx_bind_def)

lemma hunt_command_shorter:
  "hunt_command n evs = (out, Some (r, evs')) \<Longrightarrow> length evs' \<le> length evs \<and> (0 < n \<longrightarrow> length evs' < length evs)"
proof (induction n arbitrary: evs)
  case (Suc n)
  then show ?case
    by (cases evs) (fastforce simp: tx_return_def split: option.splits if_splits)+
qed (simp add: tx_return_def)

lemma tx_bind_shorter:
  assumes "tx_bind m k evs = (out, Some (r, evs'))"
    and "\<And>out a evs1. m evs = (out, Some (a, evs1)) \<Longrightarrow> length evs1 \<le> length evs"
    and "\<And>a evs1 out. k a evs1 = (out, Some (r, evs')) \<Longrightarrow> length evs' \<le> length evs1"
  shows "length evs' \<le> length evs"
  using assms by (fastforce simp: tx_bind_def split: option.splits prod.splits)

lemma recv_bytes_shorter: "recv_bytes n crc evs = (out, Some (r, evs')) \<Longrightarrow> length evs' \<le> length evs"
proof (induction n arbitrary: crc evs out r)
  case (Suc n)
  then show ?case
    by (cases evs)
       (fastforce simp: tx_return_def tx_bind_def [of "recv_bytes _ _"] split: option.splits prod.splits)+
qed (simp add: tx_return_def)

lemma recv_ranges_shorter: "recv_ranges n crc evs = (out, Some (r, evs')) \<Longrightarrow> length evs' \<le> length evs"
proof (induction n arbitrary: crc evs out r)
  case (Suc n)
  from Suc.prems show ?case
    by (auto simp: tx_bind_def tx_return_def split: option.splits prod.splits
        dest!: recv_bytes_shorter Suc.IH)
qed (simp add: tx_return_def)

lemma recv_command_shorter:
  assumes "recv_command evs = (out, Some (r, evs'))"
  shows "length evs' < length evs"
proof -
  obtain found evs1 where hunt: "hunt_command 300 evs = (fst (hunt_command 300 evs), Some (found, evs1))"
    using assms by (fastforce simp: recv_command_def tx_bind_def [of "hunt_command _"] split: option.splits prod.splits)
  from hunt_command_shorter [OF hunt] have "length evs1 < length evs" by simp
  moreover have "length evs' \<le> length evs1"
    using assms hunt
    by (cases evs1)
       (fastforce simp: recv_command_def tx_bind_def [of "hunt_command _"] tx_bind_def [of "recv_bytes _ _"]
          tx_bind_def [of "recv_ranges _ _"] tx_return_def Let_def
          split: option.splits prod.splits if_splits
          dest: recv_bytes_shorter recv_ranges_shorter)+
  ultimately show ?thesis by simp
qed

text \<open>\<open>handshake\<close>: \<open>INFO\<close> and the wait for the command, until a command is taken.\<close>

function handshake :: "tx_disk \<Rightarrow> (32 word \<times> 32 word) list tx_io" where
  "handshake d evs =
     (case recv_command evs of
        (out, None) \<Rightarrow> (send_info d @ out, None)
      | (out, Some (Some rs, evs')) \<Rightarrow> (send_info d @ out, Some (rs, evs'))
      | (out, Some (None, evs')) \<Rightarrow>
          (let (out', res) = handshake d evs' in (send_info d @ out @ out', res)))"
  by pat_completeness auto
termination
  by (relation "measure (\<lambda>(d, evs). length evs)") (auto dest: recv_command_shorter [OF sym])

declare handshake.simps [simp del]

section \<open>Sending a frame\<close>

text \<open>The loops of \<open>send_data\<close> and \<open>send_eot\<close>.\<close>

fun send_tries :: "nat \<Rightarrow> byte list \<Rightarrow> bool tx_io" where
  "send_tries 0 fr = tx_return False"
| "send_tries (Suc n) fr = tx_bind (tx_send fr) (\<lambda>_. tx_bind tx_wait (\<lambda>r.
     if r = Some ACK then tx_return True else send_tries n fr))"

definition send_data :: "32 word \<Rightarrow> byte \<Rightarrow> byte list \<Rightarrow> bool tx_io" where
  "send_data lba st buf = send_tries TX_LINK_TRIES (data_frame lba st buf)"

definition send_eot :: "32 word \<Rightarrow> 32 word \<Rightarrow> bool tx_io" where
  "send_eot good bad = send_tries TX_LINK_TRIES (eot_frame good bad)"

section \<open>The range loop\<close>

datatype tx_end =
    TxUnknownOption string
  | TxBadPort
  | TxNoDisk
  | TxLostAt "32 word"
  | TxAborted "32 word" "32 word"
  | TxFinished "32 word" "32 word"

fun exit_code :: "tx_end \<Rightarrow> nat" where
  "exit_code (TxUnknownOption a) = 1"
| "exit_code TxBadPort = 1"
| "exit_code TxNoDisk = 1"
| "exit_code (TxLostAt lba) = 3"
| "exit_code (TxAborted good bad) = 0"
| "exit_code (TxFinished good bad) = 0"

text \<open>ESC and Ctrl-C abort; \<open>kb\<close> is the key waiting before the sector number \<open>done\<close>.\<close>

definition abort_key :: "nat option \<Rightarrow> bool" where
  "abort_key key = (key = Some 0x1B \<or> key = Some 0x03)"

lemma unat_suc_below: "(a :: 32 word) < b \<Longrightarrow> unat (a + 1) = Suc (unat a)"
  using unsigned_less [of b, where 'a = nat] by (simp add: word_less_nat_alt unat_word_ariths)

text \<open>\<open>i\<close> counts the sectors sent; \<open>good\<close> and \<open>bad\<close> are the totals.\<close>

function range_loop ::
  "tx_disk \<Rightarrow> (nat \<Rightarrow> nat option) \<Rightarrow> nat \<Rightarrow> 32 word \<Rightarrow> 32 word \<Rightarrow> (32 word \<times> 32 word) list \<Rightarrow> tx_end tx_io" where
  "range_loop d kb i good bad [] =
     tx_bind (send_eot good bad) (\<lambda>_. tx_return (TxFinished good bad))"
| "range_loop d kb i good bad ((lba, stop) # rs) =
     (if lba < stop
      then (if abort_key (kb i)
            then tx_bind (send_eot good bad) (\<lambda>_. tx_return (TxAborted good bad))
            else (let r = read_with_retries (d_bios d) (chs_of (unat (d_heads d)) (unat (d_spt d)) (unat lba));
                      (st, buf, good', bad') =
                        (case r of
                           None \<Rightarrow> (STATUS_BAD, replicate BPS BAD_FILL, good, bad + 1)
                         | Some buf \<Rightarrow> (STATUS_GOOD, buf, good + 1, bad))
                  in tx_bind (send_data lba st buf) (\<lambda>sent.
                       if \<not> sent then tx_return (TxLostAt lba)
                       else range_loop d kb (i + 1) good' bad' ((lba + 1, stop) # rs))))
      else range_loop d kb i good bad rs)"
  by pat_completeness auto

termination
proof (relation "measure (\<lambda>(d, kb, i, good, bad, rs). sum_list (map (\<lambda>(a, b). Suc (unat b - unat a)) rs))", goal_cases)
  case (2 d kb i good bad lba stop rs)
  then have "unat lba < unat stop" "unat (lba + 1) = Suc (unat lba)"
    by (simp_all add: word_less_nat_alt unat_suc_below)
  then show ?case by simp
qed simp_all

declare range_loop.simps [simp del]

section \<open>The program\<close>

text \<open>\<open>atoi\<close> and \<open>atol\<close>: blanks, a sign, digits; the result wraps to the width of its type.\<close>

fun c_digits :: "int \<Rightarrow> string \<Rightarrow> int" where
  "c_digits v [] = v"
| "c_digits v (c # s) =
     (if c \<in> set ''0123456789'' then c_digits (10 * v + (int (of_char c) - 48)) s else v)"

definition c_atoi :: "string \<Rightarrow> int" where
  "c_atoi s =
     (case dropWhile (\<lambda>c. c \<in> set [CHR '' '', CHR 0x09, CHR 0x0A, CHR 0x0B, CHR 0x0C, CHR 0x0D]) s of
        [] \<Rightarrow> 0
      | c # s' \<Rightarrow>
          if c = CHR ''-'' then - c_digits 0 s'
          else if c = CHR ''+'' then c_digits 0 s'
          else c_digits 0 (c # s'))"

text \<open>The loop over the arguments, from port 1 and 9600 baud.\<close>

fun parse_args :: "string list \<Rightarrow> 16 word \<Rightarrow> 32 word \<Rightarrow> string + 16 word \<times> 32 word" where
  "parse_args [] port baud = Inr (port, baud)"
| "parse_args ((c # opt # v) # as) port baud =
     (if c = CHR ''-'' \<or> c = CHR ''/''
      then (if opt = CHR ''p'' \<or> opt = CHR ''P'' then parse_args as (word_of_int (c_atoi v)) baud
            else if opt = CHR ''b'' \<or> opt = CHR ''B'' then parse_args as port (word_of_int (c_atoi v))
            else Inl (c # opt # v))
      else parse_args as port baud)"
| "parse_args (a # as) port baud = parse_args as port baud"

text \<open>The geometry of \<open>int13_disk_geometry\<close>: last cylinder, last head, sectors per track.\<close>

definition disk_of_geometry :: "16 word \<times> 8 word \<times> 8 word \<Rightarrow> bios \<Rightarrow> tx_disk" where
  "disk_of_geometry geo bios =
     (case geo of (c, h, s) \<Rightarrow>
        let cyls = c + 1; heads = ucast h + 1 :: 16 word; spt = ucast s
        in \<lparr>d_total = ucast cyls * ucast heads * ucast spt, d_cyls = cyls, d_heads = heads, d_spt = spt,
            d_bios = bios\<rparr>)"

definition tx_main ::
  "string list \<Rightarrow> (16 word \<times> 8 word \<times> 8 word) option \<Rightarrow> bios \<Rightarrow> (nat \<Rightarrow> nat option) \<Rightarrow> tx_end tx_io" where
  "tx_main argv geo bios kb =
     (case parse_args argv 1 9600 of
        Inl a \<Rightarrow> tx_return (TxUnknownOption a)
      | Inr (port, baud) \<Rightarrow>
          if port < 1 \<or> port > 4 then tx_return TxBadPort
          else (case geo of
                  None \<Rightarrow> tx_return TxNoDisk
                | Some g \<Rightarrow>
                    (let d = disk_of_geometry g bios
                     in tx_bind (handshake d) (\<lambda>ranges. range_loop d kb 0 0 0 ranges))))"

section \<open>The progress display\<close>

text \<open>The numbers \<open>draw_progress\<close> prints: percent, KB/s and the time to go, as 32-bit words.\<close>

definition draw_progress :: "32 word \<Rightarrow> 32 word \<Rightarrow> 32 word \<Rightarrow> 32 word \<Rightarrow> 32 word \<times> 32 word \<times> 32 word \<times> 32 word" where
  "draw_progress sent total_lba start_ticks now =
     (let ticks = now - start_ticks;
          secs = (ticks * 10) div 182;
          pct = (if total_lba \<noteq> 0 then (sent * 100) div total_lba else 0);
          kbps = (if secs > 0 then (sent div 2) div secs else 0);
          rate = (if secs > 0 then sent div secs else 0);
          eta = (if rate > 0 \<and> total_lba \<ge> sent then (total_lba - sent) div rate else 0)
      in (pct, kbps, eta div 60, eta mod 60))"

end
