(* ===== verification/DosDrivers.thy ===== *)
theory DosDrivers
  imports DosMain
begin

text \<open>
  The drivers of the C sender: \<open>tx-msdos/src/int13.c\<close>, how a cylinder, head and sector travel in
  the registers of INT 13h, and \<open>tx-msdos/src/serial.c\<close>, the UART's divisor and the wait with
  the BIOS tick counter. The BIOS itself is a parameter: what INT 13h returns for its registers
  at each attempt. Ports and the tick counter are lists of what the program reads there.
\<close>

unbundle bit_operations_syntax

section \<open>Disk geometry and sector addresses\<close>

text \<open>The registers \<open>CH\<close>, \<open>CL\<close> and \<open>DH\<close>.\<close>

type_synonym chs_regs = "8 word \<times> 8 word \<times> 8 word"

text \<open>\<open>int13_disk_geometry\<close>: last cylinder, last head, sectors per track.\<close>

definition unpack_geometry :: "chs_regs \<Rightarrow> 16 word \<times> 8 word \<times> 8 word" where
  "unpack_geometry regs =
     (case regs of (ch, cl, dh) \<Rightarrow> (ucast ch OR push_bit 2 (ucast (cl AND 0xC0)), dh, cl AND 0x3F))"

text \<open>\<open>None\<close>: the call failed.\<close>

definition int13_disk_geometry :: "bool \<times> chs_regs \<Rightarrow> (16 word \<times> 8 word \<times> 8 word) option" where
  "int13_disk_geometry res = (case res of (cflag, regs) \<Rightarrow> if cflag then None else Some (unpack_geometry regs))"

text \<open>
  \<open>int13_read_sector\<close>: the registers of the call. The cylinder is a \<open>short\<close>, so the shift to the
  right keeps its sign.
\<close>

definition pack_chs :: "chs \<Rightarrow> chs_regs" where
  "pack_chs a =
     (case a of (c, h, s) \<Rightarrow> (ucast (c AND 0xFF), s OR ucast (signed_drop_bit 2 c AND 0xC0), h))"

text \<open>The status the routine returns: 0 for a read without error.\<close>

definition read_status :: "bool \<Rightarrow> 8 word \<Rightarrow> 8 word" where
  "read_status cflag ah = (if cflag then (if ah \<noteq> 0 then ah else 0xFF) else 0)"

text \<open>INT 13h as the disk of \<open>DosSender\<close>: the carry flag, \<open>AH\<close> and the buffer of each attempt.\<close>

definition int13_read_sector :: "(chs_regs \<Rightarrow> nat \<Rightarrow> bool \<times> 8 word \<times> byte list) \<Rightarrow> bios" where
  "int13_read_sector int13 a t =
     (case int13 (pack_chs a) t of (cflag, ah, buf) \<Rightarrow> if read_status cflag ah = 0 then Some buf else None)"

text \<open>\<open>int13_reset\<close>: INT 13h with \<open>AH\<close> and \<open>DL\<close>, which returns the carry flag.\<close>

definition int13_reset :: "(8 word \<times> 8 word \<Rightarrow> bool) \<Rightarrow> 8 word" where
  "int13_reset int13 = (if int13 (0x00, 0x80) then 1 else 0)"

section \<open>The UART\<close>

definition com_base :: "16 word \<Rightarrow> 16 word" where
  "com_base port = [0, 0x3F8, 0x2F8, 0x3E8, 0x2E8] ! unat port"

definition uart_divisor :: "32 word \<Rightarrow> 16 word" where
  "uart_divisor baud =
     (let baud' = (if baud = 0 then 115200 else baud); d = ucast (115200 div baud')
      in if d = 0 then 1 else d)"

text \<open>The port writes of \<open>serial_init\<close>.\<close>

definition serial_init :: "16 word \<Rightarrow> 32 word \<Rightarrow> (16 word \<times> 8 word) list" where
  "serial_init base baud =
     (let d = uart_divisor baud
      in [(base + 1, 0x00), (base + 3, 0x80), (base, ucast (d AND 0xFF)), (base + 1, ucast (drop_bit 8 d AND 0xFF)),
          (base + 3, 0x03), (base + 2, 0xC7), (base + 4, 0x0B)])"

text \<open>
  \<open>serial_recv\<close>: each round reads the line status, the received byte if there is one, and the
  tick counter. \<open>None\<close>: still polling after the given rounds.
\<close>

record poll =
  p_lsr :: "8 word"
  p_rbr :: byte
  p_ticks :: "32 word"

fun serial_recv :: "32 word \<Rightarrow> 16 word \<Rightarrow> poll list \<Rightarrow> byte option option" where
  "serial_recv start timeout [] = None"
| "serial_recv start timeout (p # ps) =
     (if p_lsr p AND 0x01 \<noteq> 0 then Some (Some (p_rbr p))
      else if timeout \<noteq> 0 \<and> p_ticks p - start \<ge> ucast timeout then Some None
      else serial_recv start timeout ps)"

text \<open>\<open>serial_send\<close>: the number of polls until the transmitter is empty.\<close>

fun serial_send :: "8 word list \<Rightarrow> nat option" where
  "serial_send [] = None"
| "serial_send (lsr # ps) = (if lsr AND 0x20 = 0 then map_option Suc (serial_send ps) else Some 1)"

text \<open>
  \<open>serial_flush_input\<close>: the bytes it drops and the rounds that are left; \<open>None\<close>: still reading.
\<close>

fun serial_flush_input :: "poll list \<Rightarrow> (byte list \<times> poll list) option" where
  "serial_flush_input [] = None"
| "serial_flush_input (p # ps) =
     (if p_lsr p AND 0x01 \<noteq> 0
      then map_option (\<lambda>(dropped, rest). (p_rbr p # dropped, rest)) (serial_flush_input ps)
      else Some ([], ps))"

text \<open>It ends with the first round that finds nothing to read, and no byte before it is left.\<close>

lemma serial_flush_input_ends:
  assumes "\<forall>q\<in>set full. p_lsr q AND 0x01 \<noteq> 0" "p_lsr p AND 0x01 = 0"
  shows "serial_flush_input (full @ p # rest) = Some (map p_rbr full, rest)"
  using assms by (induction full) simp_all

section \<open>Packing\<close>

lemma bit_below:
  fixes w :: "'a::len word"
  assumes "unat w < 2 ^ k" "bit w n"
  shows "n < k"
proof (rule ccontr)
  assume "\<not> n < k"
  then have "unat w < 2 ^ n" using assms(1) by (meson less_le_trans linorder_not_less one_le_numeral power_increasing)
  then have "\<not> bit (unat w) n" by (simp add: bit_iff_odd)
  with assms(2) show False by (simp add: bit_unsigned_iff bit_imp_le_length)
qed

lemma bit_C0: "bit (0xC0 :: 8 word) n \<longleftrightarrow> n = 6 \<or> n = 7"
proof -
  have mask: "(0xC0 :: 8 word) = push_bit 6 (mask 2)" by (simp add: mask_eq_exp_minus_1 push_bit_eq_mult)
  show ?thesis unfolding mask by (auto simp: bit_simps)
qed

lemma bit_3F: "bit (0x3F :: 8 word) n \<longleftrightarrow> n < 6"
proof -
  have "(0x3F :: 8 word) = mask 6" by (simp add: mask_eq_exp_minus_1)
  then show ?thesis by (simp only: bit_mask_iff) auto
qed

lemma bit_C0_16: "bit (0xC0 :: 16 word) n \<longleftrightarrow> n = 6 \<or> n = 7"
proof -
  have mask: "(0xC0 :: 16 word) = push_bit 6 (mask 2)" by (simp add: mask_eq_exp_minus_1 push_bit_eq_mult)
  show ?thesis unfolding mask by (auto simp: bit_simps)
qed

lemma bit_FF: "bit (0xFF :: 16 word) n \<longleftrightarrow> n < 8"
proof -
  have "(0xFF :: 16 word) = mask 8" by (simp add: mask_eq_exp_minus_1)
  then show ?thesis by (simp only: bit_mask_iff) auto
qed

lemma unpack_pack:
  assumes "unat c < 1024" "unat s < 64"
  shows "unpack_geometry (pack_chs (c, h, s)) = (c, h, s)"
proof -
  have c: "bit c n \<Longrightarrow> n < 10" for n using bit_below [of c 10 n] assms(1) by simp
  have s: "bit s n \<Longrightarrow> n < 6" for n using bit_below [of s 6 n] assms(2) by simp
  have "ucast (ucast (c AND 0xFF) :: 8 word) OR
      push_bit 2 (ucast ((s OR ucast (signed_drop_bit 2 c AND 0xC0)) AND (0xC0 :: 8 word))) = c"
  proof (rule bit_word_eqI)
    fix n :: nat
    assume "n < LENGTH(16)"
    then consider "n < 8" | "n = 8" | "n = 9" | "10 \<le> n" by force
    then show "bit (ucast (ucast (c AND 0xFF) :: 8 word) OR
        push_bit 2 (ucast ((s OR ucast (signed_drop_bit 2 c AND 0xC0)) AND (0xC0 :: 8 word))) :: 16 word) n = bit c n"
      by cases (use c [of n] s [of "n - 2"] in \<open>auto simp: bit_simps bit_C0 bit_C0_16 bit_FF simp del: bit_numeral_word_iff\<close>)
  qed
  moreover have "(s OR ucast (signed_drop_bit 2 c AND 0xC0)) AND 0x3F = s"
    by (rule bit_word_eqI) (use s in \<open>auto simp: bit_simps bit_C0 bit_C0_16 bit_3F simp del: bit_numeral_word_iff\<close>)
  ultimately show ?thesis by (simp add: unpack_geometry_def pack_chs_def)
qed

section \<open>Every sector has its own registers\<close>

lemma unat_geometry:
  assumes "unpack_geometry regs = (c, h, s)"
  shows "unat c < 1024" "unat h < 256" "unat s < 64"
proof -
  obtain ch cl dh where regs: "regs = (ch, cl, dh)" by (cases regs)
  have "c = take_bit 10 c"
  proof (rule bit_word_eqI)
    fix n :: nat
    assume n: "n < LENGTH(16)"
    have "bit ch n \<Longrightarrow> n < 8" using bit_imp_le_length [of ch n] by simp
    moreover have "bit c n = (bit ch n \<or> 2 \<le> n \<and> bit cl (n - 2) \<and> (n = 8 \<or> n = 9))"
      using assms n by (auto simp: regs unpack_geometry_def bit_simps bit_C0 simp del: bit_numeral_word_iff)
    ultimately show "bit c n = bit (take_bit 10 c) n" by (auto simp: bit_take_bit_iff)
  qed
  then show "unat c < 1024" using take_bit_nat_less_exp [of 10 "unat c"] by (simp add: unsigned_take_bit_eq [symmetric])
  have "s = take_bit 6 s"
    using assms by (intro bit_word_eqI) (auto simp: regs unpack_geometry_def bit_simps bit_3F simp del: bit_numeral_word_iff)
  then show "unat s < 64" using take_bit_nat_less_exp [of 6 "unat s"] by (simp add: unsigned_take_bit_eq [symmetric])
  show "unat h < 256" using unsigned_less [of h, where 'a = nat] by simp
qed

lemma disk_geometry:
  assumes "unpack_geometry regs = (c, h, s)" and d_def: "d = disk_of_geometry (c, h, s) bios"
  shows "unat (d_cyls d) = unat c + 1" "unat (d_heads d) = unat h + 1" "unat (d_spt d) = unat s"
    and "unat (d_total d) = (unat c + 1) * (unat h + 1) * unat s"
proof -
  note geo = unat_geometry [OF assms(1)]
  have h16: "take_bit 16 (unat h) = unat h" by (rule take_bit_nat_eq_self, rule less_trans [OF geo(2)]) simp
  have h_le: "unat h \<le> 255" using geo(2) by linarith
  have h_mod: "Suc (unat h) mod 65536 = Suc (unat h)" by (rule mod_less, rule less_le_trans [of _ 257]) (use geo(2) in linarith, simp)
  have "d_heads d = ucast h + 1" by (simp add: d_def disk_of_geometry_def Let_def)
  then have "unat (d_heads d) = (unat h + 1) mod 65536" by (simp add: unat_word_ariths unsigned_ucast_eq h16)
  then show h: "unat (d_heads d) = unat h + 1" using h_mod by simp
  show c: "unat (d_cyls d) = unat c + 1" and s: "unat (d_spt d) = unat s"
    using geo(1,3) by (simp_all add: d_def disk_of_geometry_def Let_def unat_word_ariths unsigned_ucast_eq take_bit_nat_eq_self)
  have "(unat c + 1) * (unat h + 1) \<le> 1024 * 256" using geo(1) h_le by (intro mult_le_mono) linarith+
  then have "(unat c + 1) * (unat h + 1) * unat s \<le> 1024 * 256 * 64" by (rule mult_le_mono) (use geo(3) in linarith)
  then have small: "(unat c + 1) * (unat h + 1) * unat s < 2 ^ 32" by simp
  have "d_total d = ucast (d_cyls d) * ucast (d_heads d) * ucast (d_spt d)"
    by (simp add: d_def disk_of_geometry_def Let_def)
  moreover have "unat (ucast w :: 32 word) = unat w" for w :: "16 word"
    using unsigned_less [of w, where 'a = nat] by (simp add: unsigned_ucast_eq take_bit_nat_eq_self)
  ultimately have "unat (d_total d) = ((unat c + 1) * (unat h + 1) mod 2 ^ 32 * unat s) mod 2 ^ 32"
    by (simp only: unat_word_ariths c h s) simp
  then show "unat (d_total d) = (unat c + 1) * (unat h + 1) * unat s"
    using small by (simp only: mod_mult_left_eq mod_less)
qed

lemma sector_address:
  assumes geo: "unpack_geometry regs = (c, h, s)" and d: "d = disk_of_geometry (c, h, s) bios"
    and lba: "lba < unat (d_total d)"
    and a: "chs_of (unat (d_heads d)) (unat (d_spt d)) lba = (c', h', s')"
  shows "c' \<le> c" "h' \<le> h" "1 \<le> s'" "s' \<le> s"
    and "lba = (unat c' * (unat h + 1) + unat h') * unat s + (unat s' - 1)"
    and "unpack_geometry (pack_chs (c', h', s')) = (c', h', s')"
proof -
  note bounds = unat_geometry [OF geo] and disk = disk_geometry [OF geo d]
  let ?t = "lba div unat s"
  have s0: "0 < unat s" using lba disk(4) by (cases "unat s") simp_all
  have t: "?t < (unat c + 1) * (unat h + 1)"
    using lba s0 disk(4) by (simp add: div_less_iff_less_mult)
  then have cyl: "?t div (unat h + 1) < unat c + 1" by (simp add: div_less_iff_less_mult)
  have sec: "lba mod unat s < unat s" using s0 by simp
  have c': "unat c' = ?t div (unat h + 1)"
    using a cyl bounds(1) by (auto simp: chs_of_def Let_def disk unat_of_nat)
  have h': "unat h' = ?t mod (unat h + 1)"
  proof -
    have "?t mod (unat h + 1) \<le> unat h" by (simp add: less_Suc_eq_le [symmetric])
    from le_less_trans [OF this bounds(2)] show ?thesis using a by (auto simp: chs_of_def Let_def disk unat_of_nat)
  qed
  have s': "unat s' = lba mod unat s + 1"
    using a sec bounds(3) by (auto simp: chs_of_def Let_def disk unat_word_ariths unat_of_nat)
  show "c' \<le> c" "h' \<le> h" "1 \<le> s'" "s' \<le> s"
    using cyl sec s0 by (simp_all add: word_le_nat_alt c' h' s' less_Suc_eq_le [symmetric] Suc_le_eq)
  show "lba = (unat c' * (unat h + 1) + unat h') * unat s + (unat s' - 1)"
    unfolding c' h' s' div_mult_mod_eq by simp
  show "unpack_geometry (pack_chs (c', h', s')) = (c', h', s')"
    using cyl sec bounds by (intro unpack_pack) (simp_all add: c' s')
qed

section \<open>The divisor\<close>

lemma uart_divisor_nat:
  assumes "2 \<le> unat baud" "unat baud \<le> 115200"
  shows "unat (uart_divisor baud) = 115200 div unat baud"
proof -
  have d: "115200 div unat baud \<le> 57600" using div_le_mono2 [of 2 "unat baud" 115200] assms by simp
  have d0: "0 < 115200 div unat baud" using assms by (simp add: div_greater_zero_iff)
  have "unat (ucast (115200 div baud :: 32 word) :: 16 word) = 115200 div unat baud"
    using d by (simp add: unsigned_ucast_eq unat_div take_bit_nat_eq_self)
  moreover have "baud \<noteq> 0" using assms by auto
  ultimately show ?thesis using d0 by (auto simp: uart_divisor_def Let_def)
qed

section \<open>Midnight\<close>

text \<open>
  The tick counter of the BIOS goes from \<open>0x1800AF\<close> to 0 at midnight. The difference of two
  readings is then a large number: a wait that crosses midnight expires at once, and the
  progress display counts years.
\<close>

lemma midnight_wait:
  assumes "timeout \<noteq> 0" "p_lsr p = 0" "p_ticks p = 0"
  shows "serial_recv 0x1800AF timeout (p # ps) = Some None"
proof -
  have "unat timeout < 65536" using unsigned_less [of timeout, where 'a = nat] by simp
  then have "(ucast timeout :: 32 word) \<le> 0 - 0x1800AF"
    by (simp add: word_le_nat_alt unsigned_ucast_eq take_bit_nat_eq_self)
  with assms show ?thesis by simp
qed

lemma midnight_progress: "draw_progress 1000000 2000000 0x1800AF 18 = (50, 0, 0, 0)"
  by (simp add: draw_progress_def Let_def)

section \<open>Properties\<close>

text \<open>C28: whatever geometry INT 13h reports, the total of the sender is the product of its
  cylinders, heads and sectors without overflow, and each sector number below the total is sent
  to INT 13h as a cylinder, head and sector within the geometry, in registers that are read
  back as the same address; the address gives the sector number, so no two sectors share one.
\<close>

theorem sector_registers:
  assumes "unpack_geometry regs = (c, h, s)" "d = disk_of_geometry (c, h, s) bios" "lba < unat (d_total d)"
  shows "unat (d_total d) = (unat c + 1) * (unat h + 1) * unat s \<and>
    (\<exists>c' h' s'. chs_of (unat (d_heads d)) (unat (d_spt d)) lba = (c', h', s') \<and>
      unpack_geometry (pack_chs (c', h', s')) = (c', h', s') \<and>
      c' \<le> c \<and> h' \<le> h \<and> 1 \<le> s' \<and> s' \<le> s \<and>
      lba = (unat c' * (unat h + 1) + unat h') * unat s + (unat s' - 1))"
proof -
  obtain c' h' s' where a: "chs_of (unat (d_heads d)) (unat (d_spt d)) lba = (c', h', s')" by (metis prod_cases3)
  show ?thesis using sector_address [OF assms a] a disk_geometry(4) [OF assms(1,2)] by blast
qed

theorem sector_registers_witness:
  "\<exists>c' h' s'. chs_of 16 63 1032191 = (c', h', s') \<and> unpack_geometry (pack_chs (c', h', s')) = (c', h', s') \<and>
    1032191 = (unat c' * 16 + unat h') * 63 + (unat s' - 1)"
proof -
  have geo: "unpack_geometry (0xFF, 0xFF, 15) = (1023, 15, 63)" by (simp add: unpack_geometry_def)
  let ?d = "disk_of_geometry (1023, 15, 63) (\<lambda>_ _. None)"
  note disk = disk_geometry [OF geo refl, of "\<lambda>_ _. None"]
  have "1032191 < unat (d_total ?d)" by (simp add: disk(4))
  from sector_registers [OF geo refl this] disk(2,3) show ?thesis by auto
qed

text \<open>C36: for every rate from 2 to 115200 baud the UART is given the divisor 115200 div baud, which
  is not zero and fits its two bytes, with the divisor latch open for exactly those two writes,
  and the line then runs at least at the rate asked for; at a rate that divides 115200 it runs
  exactly at it.
\<close>

theorem baud_divisor:
  assumes "2 \<le> unat baud" "unat baud \<le> 115200"
  shows "\<exists>lo hi. serial_init base baud =
      [(base + 1, 0), (base + 3, 0x80), (base, lo), (base + 1, hi), (base + 3, 0x03), (base + 2, 0xC7), (base + 4, 0x0B)] \<and>
      unat lo + 256 * unat hi = 115200 div unat baud \<and> 0 < unat lo + 256 * unat hi \<and>
      unat baud \<le> 115200 div (unat lo + 256 * unat hi) \<and>
      (unat baud dvd 115200 \<longrightarrow> 115200 div (unat lo + 256 * unat hi) = unat baud)"
proof -
  let ?d = "uart_divisor baud"
  let ?lo = "ucast (?d AND 0xFF) :: 8 word" and ?hi = "ucast (drop_bit 8 ?d AND 0xFF) :: 8 word"
  have "?lo = ucast ?d" "?hi = ucast (drop_bit 8 ?d)"
    by (rule bit_word_eqI, auto simp: bit_simps bit_FF simp del: bit_numeral_word_iff)+
  moreover have "unat (drop_bit 8 ?d) = unat ?d div 256" unfolding unat_drop_bit_eq by (simp add: drop_bit_eq_div)
  moreover have "unat ?d div 256 < 256" using unsigned_less [of ?d, where 'a = nat] by simp
  ultimately have "unat ?lo + 256 * unat ?hi = unat ?d"
    by (simp only: unsigned_ucast_eq take_bit_eq_mod) simp
  then have split: "unat ?lo + 256 * unat ?hi = 115200 div unat baud" using uart_divisor_nat [OF assms] by simp
  have pos: "0 < 115200 div unat baud" using assms by (simp add: div_greater_zero_iff)
  have "unat baud * (115200 div unat baud) \<le> 115200" by simp
  then have fast: "unat baud \<le> 115200 div (115200 div unat baud)"
    using pos by (simp add: less_eq_div_iff_mult_less_eq)
  have exact: "115200 div (115200 div unat baud) = unat baud" if dvd: "unat baud dvd 115200"
  proof -
    obtain k where k: "115200 = unat baud * k" using dvd by (rule dvdE)
    then have "115200 div unat baud = k" using assms by (metis nonzero_mult_div_cancel_left not_numeral_le_zero)
    moreover have "115200 div k = unat baud" using k by (metis nonzero_mult_div_cancel_right mult_zero_right zero_neq_numeral)
    ultimately show ?thesis by simp
  qed
  show ?thesis
    using split pos fast exact by (intro exI [of _ ?lo] exI [of _ ?hi]) (simp add: serial_init_def Let_def)
qed

theorem baud_divisor_witness:
  "\<exists>lo hi. serial_init (com_base 1) 9600 =
      [(0x3F9, 0), (0x3FB, 0x80), (0x3F8, lo), (0x3F9, hi), (0x3FB, 0x03), (0x3FA, 0xC7), (0x3FC, 0x0B)] \<and>
      unat lo + 256 * unat hi = 12"
  using baud_divisor [of 9600 "com_base 1"] by (auto simp: com_base_def)

end
