(* ===== verification/AsmRoutines.thy ===== *)
theory AsmRoutines
  imports DosDrivers
begin

text \<open>
  The routines that \<open>tx-msdos/src/tx.S\<close> and \<open>tx-msdos/src/wr.S\<close> share, on the registers of the
  8086: the command tail, the UART, the wait for a byte, the checksum, the keyboard, the
  geometry, and the way from a sector number to the registers of INT 13h with 16-bit divisions.
  A pair of memory words \<open>x_lo\<close>, \<open>x_hi\<close> is one 32-bit word (\<open>pair32\<close>). The memory outside the
  program (interrupt vectors and BIOS data) is a parameter, a function from linear addresses to
  words.
\<close>

section \<open>The command tail\<close>

text \<open>\<open>None\<close> is the carry flag.\<close>

fun next_digit :: "byte list \<Rightarrow> (byte \<times> byte list) option" where
  "next_digit [] = None"
| "next_digit (al # cs) = (if al < 0x30 \<or> al > 0x39 then next_digit cs else Some (al, cs))"

definition bases :: "16 word list" where "bases = [0x3F8, 0x2F8, 0x3E8, 0x2E8]"
definition divtab :: "16 word list" where "divtab = [12, 6, 3, 2, 1, 24, 48]"

text \<open>\<open>portbase\<close> and \<open>divisor\<close>.\<close>

definition parse_tail :: "byte list \<Rightarrow> 16 word \<times> 16 word" where
  "parse_tail tail =
     (case next_digit tail of
        None \<Rightarrow> (0x3F8, 12)
      | Some (d, rest) \<Rightarrow>
          (let al = d - 0x30;
               portbase = (if al < 1 \<or> al > 4 then 0x3F8 else bases ! unat (al - 1))
           in case next_digit rest of
                None \<Rightarrow> (portbase, 12)
              | Some (d', _) \<Rightarrow>
                  (let al' = d' - 0x30
                   in (portbase, if al' < 1 \<or> al' > 7 then 12 else divtab ! unat (al' - 1)))))"

section \<open>The UART\<close>

text \<open>The port writes of \<open>uart_init\<close>.\<close>

definition uart_init :: "16 word \<Rightarrow> 16 word \<Rightarrow> (16 word \<times> 8 word) list" where
  "uart_init portbase divisor =
     [(portbase + 3, 0x80), (portbase, ucast divisor), (portbase + 1, ucast (drop_bit 8 divisor)),
      (portbase + 3, 0x03), (portbase + 2, 0xC7), (portbase + 4, 0x0B)]"

text \<open>
  \<open>recv_ack\<close>: what a round of the loop reads (line status, received byte, memory), and the
  segment and offset of the word it takes for the tick counter. \<open>Some None\<close> is the carry
  flag; \<open>None\<close>: still polling after the given rounds.
\<close>

type_synonym memory = "nat \<Rightarrow> 16 word"

record asm_poll =
  a_lsr :: "8 word"
  a_rbr :: byte
  a_mem :: memory

definition TMO_TICKS :: "16 word" where "TMO_TICKS = 36"

definition tick_word :: nat where "tick_word = (let es = 0 in es * 16 + 0x6C)"

fun recv_ack_from :: "16 word \<Rightarrow> asm_poll list \<Rightarrow> byte option option" where
  "recv_ack_from bx [] = None"
| "recv_ack_from bx (p # ps) =
     (if a_lsr p AND 0x01 \<noteq> 0 then Some (Some (a_rbr p))
      else if a_mem p tick_word - bx \<ge> TMO_TICKS then Some None
      else recv_ack_from bx ps)"

definition recv_ack :: "memory \<Rightarrow> asm_poll list \<Rightarrow> byte option option" where
  "recv_ack mem polls = recv_ack_from (mem tick_word) polls"

section \<open>The checksum\<close>

text \<open>\<open>crc_byte\<close>: the rounds of \<open>cb_l\<close> with \<open>cx\<close> to go; the byte goes into \<open>bh\<close>.\<close>

fun crc_rounds :: "nat \<Rightarrow> 16 word \<Rightarrow> 16 word" where
  "crc_rounds 0 bx = bx"
| "crc_rounds (Suc cx) bx =
     (if bx AND 0x8000 = 0 then crc_rounds cx (push_bit 1 bx) else crc_rounds cx (push_bit 1 bx XOR 0x1021))"

definition asm_crc_byte :: "16 word \<Rightarrow> byte \<Rightarrow> 16 word" where
  "asm_crc_byte crc al =
     (let bl = (ucast crc :: 8 word); bh = ucast (drop_bit 8 crc) XOR al
      in crc_rounds 8 (push_bit 8 (ucast bh) OR ucast bl))"

section \<open>The keyboard\<close>

text \<open>
  \<open>check_abort\<close>: the buffer of the BIOS data segment, emptied if there is a key in it; whether
  the program aborts.
\<close>

definition check_abort :: "memory \<Rightarrow> memory \<times> bool" where
  "check_abort mem =
     (let es = 0x40 * 16; bx = mem (es + 0x1A) in
      if bx = mem (es + 0x1C) then (mem, False)
      else (let al = (ucast (mem (es + unat bx)) :: 8 word)
            in (mem(es + 0x1A := mem (es + 0x1C)), al = 0x1B \<or> al = 0x03)))"

section \<open>Geometry\<close>

definition pair32 :: "16 word \<Rightarrow> 16 word \<Rightarrow> 32 word" where
  "pair32 hi lo = push_bit 16 (ucast hi) OR ucast lo"

text \<open>\<open>mul\<close>: the product in \<open>dx:ax\<close>. \<open>div\<close>: quotient and remainder, or the divide error.\<close>

definition mul16 :: "16 word \<Rightarrow> 16 word \<Rightarrow> 16 word \<times> 16 word" where
  "mul16 ax m = (let p = unat ax * unat m in (word_of_nat (p div 65536), word_of_nat (p mod 65536)))"

definition div16 :: "16 word \<Rightarrow> 16 word \<Rightarrow> 16 word \<Rightarrow> (16 word \<times> 16 word) option" where
  "div16 dx ax cx =
     (let n = unat dx * 65536 + unat ax in
      if cx = 0 \<or> n div unat cx \<ge> 65536 then None
      else Some (word_of_nat (n div unat cx), word_of_nat (n mod unat cx)))"

record asm_geometry =
  ag_cyls :: "16 word"
  ag_heads :: "16 word"
  ag_spt :: "16 word"
  ag_total_lo :: "16 word"
  ag_total_hi :: "16 word"

definition get_geom :: "bool \<times> chs_regs \<Rightarrow> asm_geometry option" where
  "get_geom res =
     (case res of (cflag, ch, cl, dh) \<Rightarrow>
        if cflag then None
        else
          (let spt = ucast (cl AND 0x3F);
               bx = push_bit 1 (push_bit 1 (ucast (cl AND 0xC0)));
               cyls = (ucast ch OR bx) + 1;
               heads = ucast dh + 1;
               (si, bx') = mul16 cyls heads;
               (di, total_lo) = mul16 bx' spt;
               (_, ax) = mul16 si spt
           in Some \<lparr>ag_cyls = cyls, ag_heads = heads, ag_spt = spt, ag_total_lo = total_lo,
                ag_total_hi = ax + di\<rparr>))"

section \<open>From a sector number to the registers\<close>

text \<open>\<open>ldiv\<close>: the quotient as two words, and the remainder.\<close>

definition ldiv :: "16 word \<times> 16 word \<Rightarrow> 16 word \<Rightarrow> ((16 word \<times> 16 word) \<times> 16 word) option" where
  "ldiv num cx =
     (case num of (num_hi, num_lo) \<Rightarrow>
        (case div16 0 num_hi cx of
           None \<Rightarrow> None
         | Some (q_hi, dx) \<Rightarrow>
             (case div16 dx num_lo cx of
                None \<Rightarrow> None
              | Some (q_lo, r) \<Rightarrow> Some ((q_hi, q_lo), r))))"

text \<open>\<open>lba_to_chs\<close>: \<open>cur_c\<close>, \<open>cur_h\<close> and \<open>cur_s\<close>.\<close>

definition lba_to_chs :: "16 word \<Rightarrow> 16 word \<Rightarrow> 16 word \<times> 16 word \<Rightarrow> chs option" where
  "lba_to_chs heads spt lba =
     (case ldiv lba spt of
        None \<Rightarrow> None
      | Some (num, r) \<Rightarrow>
          (case ldiv num heads of
             None \<Rightarrow> None
           | Some ((_, num_lo), ax) \<Rightarrow> Some (num_lo, ucast ax, ucast (r + 1))))"

text \<open>The registers of \<open>read_sector\<close> and \<open>write_sector\<close>.\<close>

definition sector_regs :: "chs \<Rightarrow> chs_regs" where
  "sector_regs a =
     (case a of (cur_c, cur_h, cur_s) \<Rightarrow>
        (let al = ucast (drop_bit 1 (drop_bit 1 cur_c)) AND 0xC0
         in (ucast cur_c, cur_s OR al, cur_h)))"

section \<open>Words and pairs\<close>

lemma unat_pair32: "unat (pair32 hi lo) = unat hi * 65536 + unat lo"
proof -
  have wide: "unat (ucast w :: 32 word) = unat w" for w :: "16 word"
    using unsigned_less [of w, where 'a = nat] by (simp add: unsigned_ucast_eq take_bit_nat_eq_self)
  have hi: "unat hi < 65536" and lo: "unat lo < 65536"
    using unsigned_less [of hi, where 'a = nat] unsigned_less [of lo, where 'a = nat] by simp_all
  have "pair32 hi lo = push_bit 16 (ucast hi) + ucast lo"
    unfolding pair32_def
    by (rule disjunctive_add [symmetric]) (auto simp: bit_simps dest: bit_imp_le_length)
  moreover have "unat (push_bit 16 (ucast hi :: 32 word)) = unat hi * 65536"
    using hi by (simp add: push_bit_eq_mult unat_word_ariths wide)
  moreover have "unat hi * 65536 + unat lo < 2 ^ 32" using hi lo by simp
  ultimately show ?thesis by (simp add: unat_word_ariths wide)
qed

text \<open>The comparison of \<open>range_loop\<close> and the increment with \<open>adc\<close>.\<close>

lemma pair32_less:
  "pair32 hi lo < pair32 hi' lo' \<longleftrightarrow> (if hi < hi' then True else if hi > hi' then False else lo < lo')"
proof -
  have "unat lo < 65536" "unat lo' < 65536"
    using unsigned_less [of lo, where 'a = nat] unsigned_less [of lo', where 'a = nat] by simp_all
  then show ?thesis
    by (cases "unat hi" "unat hi'" rule: linorder_cases)
       (auto simp: word_less_nat_alt unat_pair32 word_unat_eq_iff)
qed

lemma pair32_inc: "pair32 (hi + (if lo + 1 < lo then 1 else 0)) (lo + 1) = pair32 hi lo + 1"
proof (cases "lo = - 1")
  case True
  have m1: "unat (- 1 :: 16 word) = 65535" by (simp add: unsigned_minus_1_eq_mask mask_eq_exp_minus_1)
  have hi: "unat hi < 65536" using unsigned_less [of hi, where 'a = nat] by simp
  have inc: "unat (hi + 1) = (unat hi + 1) mod 65536" by (simp add: unat_word_ariths)
  have "unat (pair32 hi (- 1) + 1) = (unat (pair32 hi (- 1)) + 1) mod 2 ^ 32" by (simp add: unat_word_ariths)
  then have "unat (pair32 hi (- 1) + 1) = ((unat hi + 1) * 65536) mod 2 ^ 32"
    by (simp only: unat_pair32 m1) simp
  moreover have "(unat hi + 1) mod 65536 * 65536 = ((unat hi + 1) * 65536) mod 2 ^ 32"
    using hi by (cases "unat hi = 65535") simp_all
  ultimately have "pair32 (hi + 1) 0 = pair32 hi (- 1) + 1"
    by (simp only: word_unat_eq_iff unat_pair32 inc) simp
  moreover have "(0 :: 16 word) < - 1" by (simp only: word_less_nat_alt m1) simp
  ultimately show ?thesis using True by simp
next
  case False
  then have "unat lo \<noteq> 65535"
    by (simp add: word_unat_eq_iff unsigned_minus_1_eq_mask mask_eq_exp_minus_1)
  then have lo: "unat (lo + 1) = unat lo + 1"
    using unsigned_less [of lo, where 'a = nat] by (simp add: unat_word_ariths)
  then have "\<not> lo + 1 < lo" by (simp add: word_less_nat_alt)
  moreover have "unat hi * 65536 + unat lo + 1 < 2 ^ 32"
    using unsigned_less [of hi, where 'a = nat] unsigned_less [of "lo + 1", where 'a = nat] lo by simp
  then have "unat (pair32 hi lo + 1) = unat (pair32 hi (lo + 1))"
    unfolding unat_pair32 lo by (subst unat_word_ariths) (simp add: unat_pair32)
  ultimately show ?thesis by (simp add: word_unat_eq_iff)
qed

lemma pair32_ex: "\<exists>hi lo. w = pair32 hi lo"
proof (intro exI)
  have "unat w < 2 ^ 32" using unsigned_less [of w, where 'a = nat] by simp
  then have "unat w div 65536 < 65536" by simp
  then show "w = pair32 (word_of_nat (unat w div 65536)) (word_of_nat (unat w mod 65536))"
    by (simp add: word_unat_eq_iff unat_pair32 unat_of_nat take_bit_nat_eq_self)
qed

lemma mul16_eq:
  assumes "mul16 a b = (dx, ax)"
  shows "unat dx * 65536 + unat ax = unat a * unat b"
proof -
  let ?p = "unat a * unat b"
  have "?p \<le> 65535 * 65535"
    using unsigned_less [of a, where 'a = nat] unsigned_less [of b, where 'a = nat] by (intro mult_le_mono) simp_all
  then have "?p div 65536 < 65536" by simp
  with assms show ?thesis by (auto simp: mul16_def Let_def unat_of_nat take_bit_nat_eq_self)
qed

section \<open>The checksum is that of the C program\<close>

lemma crc_rounds_eq: "crc_rounds n w = (crc16_update_bit ^^ n) w"
  by (induction n arbitrary: w) (simp_all add: crc16_update_bit_def funpow_swap1)

lemma asm_crc_byte_eq: "asm_crc_byte crc al = crc16_update crc al"
proof -
  have "push_bit 8 (ucast (ucast (drop_bit 8 crc) XOR al :: byte)) OR ucast (ucast crc :: byte) =
      crc XOR push_bit 8 (ucast al)" (is "?l = ?r")
  proof (rule bit_word_eqI)
    fix n :: nat
    assume "n < LENGTH(16)"
    then show "bit ?l n = bit ?r n"
      by (cases "n < 8") (auto simp: bit_simps)
  qed
  then show ?thesis by (simp only: asm_crc_byte_def crc16_update_def crc_rounds_eq Let_def)
qed

section \<open>The long division\<close>

lemma ldiv_eq:
  assumes "cx \<noteq> 0"
  shows "ldiv (num_hi, num_lo) cx =
    (let n = unat (pair32 num_hi num_lo)
     in Some ((word_of_nat (n div unat cx div 65536), word_of_nat (n div unat cx)), word_of_nat (n mod unat cx)))"
proof -
  let ?c = "unat cx" and ?h = "unat num_hi" and ?l = "unat num_lo"
  let ?n = "?h * 65536 + ?l" and ?r = "?h mod unat cx"
  have c: "0 < ?c" using assms by (simp add: unat_gt_0)
  have h: "?h < 65536" and l: "?l < 65536"
    using unsigned_less [of num_hi, where 'a = nat] unsigned_less [of num_lo, where 'a = nat] by simp_all
  have r: "?r < ?c" using c by simp
  have "?c < 65536" using unsigned_less [of cx, where 'a = nat] by simp
  with r have r16: "?r < 65536" by linarith
  have "?n = ?c * (?h div ?c * 65536) + (?r * 65536 + ?l)"
  proof -
    have "(?c * (?h div ?c) + ?r) * 65536 = ?h * 65536" by (simp only: mult_div_mod_eq)
    then show ?thesis by (simp only: distrib_right mult.assoc)
  qed
  note n = this
  have q: "?n div ?c = ?h div ?c * 65536 + (?r * 65536 + ?l) div ?c"
    by (subst n) (use c in simp)
  have m: "?n mod ?c = (?r * 65536 + ?l) mod ?c" by (subst n) simp
  have "?r * 65536 + ?l < (?r + 1) * 65536" using l by simp
  also have "\<dots> \<le> ?c * 65536" using r by (intro mult_le_mono1) simp
  finally have "?r * 65536 + ?l < ?c * 65536" .
  then have lo: "(?r * 65536 + ?l) div ?c < 65536" using c by (simp add: div_less_iff_less_mult mult.commute)
  have "?h div ?c < 65536" using h by (meson div_le_dividend le_less_trans)
  then have "div16 0 num_hi cx = Some (word_of_nat (?h div ?c), word_of_nat ?r)"
    using assms by (simp add: div16_def Let_def)
  moreover have "div16 (word_of_nat ?r) num_lo cx =
      Some (word_of_nat ((?r * 65536 + ?l) div ?c), word_of_nat ((?r * 65536 + ?l) mod ?c))"
    using assms lo r16 by (simp add: div16_def Let_def unat_of_nat take_bit_nat_eq_self)
  moreover have "?n div ?c div 65536 = ?h div ?c" using q lo by simp
  moreover have "(word_of_nat (?n div ?c) :: 16 word) = word_of_nat ((?r * 65536 + ?l) div ?c)"
    unfolding q word_of_nat_eq_iff take_bit_eq_mod by simp
  ultimately show ?thesis unfolding ldiv_def Let_def unat_pair32 m by simp
qed

section \<open>The registers of every sector\<close>

lemma sector_regs_eq: "sector_regs a = pack_chs a"
proof -
  obtain c h s where a: "a = (c, h, s)" by (metis prod_cases3)
  have "ucast c = (ucast (c AND 0xFF) :: 8 word)"
    by (rule bit_word_eqI) (auto simp: bit_simps bit_FF simp del: bit_numeral_word_iff)
  moreover have "ucast (drop_bit 1 (drop_bit 1 c)) AND 0xC0 = (ucast (signed_drop_bit 2 c AND 0xC0) :: 8 word)"
    by (rule bit_word_eqI) (auto simp: bit_simps bit_C0 bit_C0_16 simp del: bit_numeral_word_iff)
  ultimately show ?thesis by (simp only: a sector_regs_def pack_chs_def prod.case Let_def)
qed

lemma lba_to_chs_eq:
  assumes "heads \<noteq> 0" "spt \<noteq> 0"
  shows "lba_to_chs heads spt (hi, lo) = Some (chs_of (unat heads) (unat spt) (unat (pair32 hi lo)))"
proof -
  let ?n = "unat (pair32 hi lo)"
  let ?t = "?n div unat spt"
  have n: "?n < 2 ^ 32" using unsigned_less [of "pair32 hi lo", where 'a = nat] by simp
  have "?t \<le> ?n" by simp
  with n have "?t < 2 ^ 32" by (rule le_less_trans [rotated])
  then have "?t < 65536 * 65536" by simp
  then have "?t div 65536 < 65536" by (simp only: div_less_iff_less_mult)
  then have t: "unat (pair32 (word_of_nat (?t div 65536)) (word_of_nat ?t)) = ?t"
    by (simp add: unat_pair32 unat_of_nat take_bit_eq_mod)
  have low: "(ucast (word_of_nat m :: 16 word) :: 8 word) = word_of_nat m" for m
    by (rule bit_word_eqI) (auto simp: bit_simps)
  have inc: "(ucast (w + 1 :: 16 word) :: 8 word) = ucast w + 1" for w
    by (simp add: word_unat_eq_iff unsigned_ucast_eq unat_word_ariths take_bit_eq_mod mod_mod_cancel mod_Suc_eq)
  show ?thesis
    using assms by (simp add: lba_to_chs_def ldiv_eq Let_def t chs_of_def low inc)
qed

lemma get_geom_eq:
  assumes d: "d = disk_of_geometry (unpack_geometry (ch, cl, dh)) bios"
  obtains g where "get_geom (False, ch, cl, dh) = Some g"
    "ag_cyls g = d_cyls d" "ag_heads g = d_heads d" "ag_spt g = d_spt d"
    "pair32 (ag_total_hi g) (ag_total_lo g) = d_total d"
proof -
  obtain c h s where geo: "unpack_geometry (ch, cl, dh) = (c, h, s)" by (metis prod_cases3)
  note d' = d [unfolded geo]
  note disk = disk_geometry [OF geo d']
  have "push_bit 1 (push_bit 1 w) = push_bit 2 w" for w :: "16 word"
    by (simp add: push_bit_eq_mult)
  then have fields: "(ucast ch OR push_bit 1 (push_bit 1 (ucast (cl AND 0xC0)))) + 1 = d_cyls d"
    "ucast dh + 1 = d_heads d" "ucast (cl AND 0x3F) = d_spt d"
    using geo by (auto simp: d' disk_of_geometry_def unpack_geometry_def Let_def)
  obtain si bx where ch: "mul16 (d_cyls d) (d_heads d) = (si, bx)" by fastforce
  obtain di lo where bs: "mul16 bx (d_spt d) = (di, lo)" by fastforce
  obtain y ax where ss: "mul16 si (d_spt d) = (y, ax)" by fastforce
  have g: "get_geom (False, ch, cl, dh) =
      Some \<lparr>ag_cyls = d_cyls d, ag_heads = d_heads d, ag_spt = d_spt d, ag_total_lo = lo, ag_total_hi = ax + di\<rparr>"
    by (simp only: get_geom_def Let_def fields ch bs ss prod.case if_False)
  note m = mul16_eq [OF ch] mul16_eq [OF bs] mul16_eq [OF ss]
  have "unat (d_total d) = (unat si * 65536 + unat bx) * unat (d_spt d)"
    by (simp only: disk m(1))
  also have "\<dots> = (unat y * 65536 + unat ax) * 65536 + (unat di * 65536 + unat lo)"
    by (simp only: m(2,3)) (simp add: algebra_simps)
  finally have sum: "unat (d_total d) = (unat y * 65536 + unat ax + unat di) * 65536 + unat lo" by (simp add: algebra_simps)
  have "unat (d_total d) < 65536 * 65536" using unsigned_less [of "d_total d", where 'a = nat] by simp
  with sum have "(unat y * 65536 + unat ax + unat di) * 65536 < 65536 * 65536" by linarith
  then have "unat y * 65536 + unat ax + unat di < 65536" by simp
  then have "unat (ax + di) = unat ax + unat di" "unat y = 0" by (simp_all add: unat_word_ariths)
  with sum have "pair32 (ax + di) lo = d_total d" by (simp add: word_unat_eq_iff unat_pair32)
  with g that show thesis by simp
qed

lemma geometry_nonzero:
  assumes "d = disk_of_geometry (unpack_geometry (ch, cl, dh)) bios"
  shows "d_heads d \<noteq> 0" "d_spt d = 0 \<longleftrightarrow> cl AND 0x3F = 0"
proof -
  obtain c h s where geo: "unpack_geometry (ch, cl, dh) = (c, h, s)" by (metis prod_cases3)
  note disk = disk_geometry [OF geo assms [unfolded geo]]
  show "d_heads d \<noteq> 0" using disk(2) by auto
  have "s = cl AND 0x3F" using geo by (simp add: unpack_geometry_def)
  then show "d_spt d = 0 \<longleftrightarrow> cl AND 0x3F = 0" using disk(3) by (metis unat_0_iff)
qed

section \<open>The wait\<close>

lemma recv_ack_waits:
  assumes "\<forall>p\<in>set polls. a_lsr p AND 0x01 = 0 \<and> a_mem p tick_word = bx"
  shows "recv_ack_from bx polls = None"
  using assms by (induction polls) (simp_all add: TMO_TICKS_def)

text \<open>The poll as the C program makes it: its tick counter is the double word at \<open>0040:006C\<close>.\<close>

definition bios_ticks :: "memory \<Rightarrow> 32 word" where
  "bios_ticks mem = (let es = 0x40 * 16 in pair32 (mem (es + 0x6E)) (mem (es + 0x6C)))"

definition c_poll :: "asm_poll \<Rightarrow> poll" where
  "c_poll p = \<lparr>p_lsr = a_lsr p, p_rbr = a_rbr p, p_ticks = bios_ticks (a_mem p)\<rparr>"

lemma c_wait_expires:
  assumes "\<forall>p\<in>set polls. a_lsr p AND 0x01 = 0" "p \<in> set polls" "bios_ticks (a_mem p) - start \<ge> 36"
  shows "serial_recv start 36 (map c_poll polls) = Some None"
  using assms by (induction polls) (auto simp: c_poll_def)

section \<open>The options\<close>

text \<open>A port digit and a rate digit set the UART up as \<open>serial_init\<close> does, but for its first write.\<close>

definition rates :: "32 word list" where "rates = [9600, 19200, 38400, 57600, 115200, 4800, 2400]"

lemma tail_options:
  assumes "p < 4" "b < 7"
  shows "parse_tail [0x20, word_of_nat (49 + p), 0x20, word_of_nat (49 + b)] =
    (com_base (word_of_nat (p + 1)), uart_divisor (rates ! b))"
proof -
  have "p \<in> {0, 1, 2, 3}" "b \<in> {0, 1, 2, 3, 4, 5, 6}" using assms by auto
  then show ?thesis
    by (elim insertE emptyE)
       (simp_all add: parse_tail_def Let_def bases_def divtab_def com_base_def rates_def uart_divisor_def)
qed

lemma uart_init_eq:
  "serial_init base baud = (base + 1, 0) # uart_init base (uart_divisor baud)"
proof -
  have "ucast (w AND 0xFF) = (ucast w :: 8 word)" for w :: "16 word"
    by (rule bit_word_eqI) (auto simp: bit_simps bit_FF simp del: bit_numeral_word_iff)
  then show ?thesis by (simp add: serial_init_def uart_init_def Let_def)
qed

section \<open>Properties\<close>

text \<open>C27: The assembly programs and the C program agree on the disk: from the registers INT 13h
  returns they compute the same geometry and total, with 16-bit multiplications, and every
  32-bit sector number is taken by two 16-bit divisions to the same registers of INT 13h. Only
  a drive that reports no sectors per track ends the division with the divide error.\<close>

theorem asm_sector_registers:
  assumes "d = disk_of_geometry (unpack_geometry (ch, cl, dh)) bios"
  shows "\<exists>g. get_geom (False, ch, cl, dh) = Some g \<and>
    ag_cyls g = d_cyls d \<and> ag_heads g = d_heads d \<and> ag_spt g = d_spt d \<and>
    pair32 (ag_total_hi g) (ag_total_lo g) = d_total d \<and>
    (\<forall>hi lo. map_option sector_regs (lba_to_chs (ag_heads g) (ag_spt g) (hi, lo)) =
       (if cl AND 0x3F = 0 then None
        else Some (pack_chs (chs_of (unat (d_heads d)) (unat (d_spt d)) (unat (pair32 hi lo))))))"
proof -
  obtain g where g: "get_geom (False, ch, cl, dh) = Some g"
    "ag_cyls g = d_cyls d" "ag_heads g = d_heads d" "ag_spt g = d_spt d"
    "pair32 (ag_total_hi g) (ag_total_lo g) = d_total d"
    using assms by (rule get_geom_eq)
  note nz = geometry_nonzero [OF assms]
  have "lba_to_chs (d_heads d) 0 x = None" for x
    by (cases x) (simp add: lba_to_chs_def ldiv_def div16_def Let_def)
  then show ?thesis
    using g nz lba_to_chs_eq [OF nz(1)]
    by (cases "d_spt d = 0") (auto simp: sector_regs_eq simp del: map_option_eq_Some)
qed

theorem asm_sector_registers_witness:
  "\<exists>g. get_geom (False, 0xFF, 0xFF, 15) = Some g \<and> ag_heads g = 16 \<and> ag_spt g = 63 \<and>
    pair32 (ag_total_hi g) (ag_total_lo g) = 1032192 \<and>
    map_option sector_regs (lba_to_chs 16 63 (15, 49151)) = Some (pack_chs (chs_of 16 63 1032191))"
proof -
  have "unat (0xFF :: 8 word) = 255" by simp
  let ?d = "disk_of_geometry (unpack_geometry (0xFF, 0xFF, 15)) (\<lambda>_ _. None)"
  have d: "d_heads ?d = 16" "d_spt ?d = 63" "d_total ?d = 1032192"
    by (simp_all add: unpack_geometry_def disk_of_geometry_def Let_def)
  have "unat (pair32 15 49151) = 1032191" by (simp add: unat_pair32)
  with asm_sector_registers [where ch = "0xFF" and cl = "0xFF" and dh = "15", OF refl, of "\<lambda>_ _. None"] d show ?thesis
    by (fastforce simp del: map_option_eq_Some)
qed

text \<open>C23: The wait for a byte in \<open>TX.COM\<close> and \<open>WR.COM\<close> does not expire. \<open>recv_ack\<close> takes the word
  at \<open>0000:006C\<close> for the tick counter, which is the vector of interrupt 1Bh; as long as that word
  stays as it is and no byte arrives the program keeps polling, even when the tick counter of
  the BIOS at \<open>0040:006C\<close> has gone 36 ticks on and the C program reports the timeout.\<close>

theorem asm_wait_never_expires:
  assumes "\<forall>p\<in>set polls. a_lsr p AND 0x01 = 0 \<and> a_mem p 0x6C = mem 0x6C"
    and "p \<in> set polls" "bios_ticks (a_mem p) - bios_ticks mem \<ge> 36"
  shows "recv_ack mem polls = None \<and> serial_recv (bios_ticks mem) 36 (map c_poll polls) = Some None"
  using recv_ack_waits [of polls "mem tick_word"] c_wait_expires [OF _ assms(2,3)] assms(1)
  by (auto simp: recv_ack_def tick_word_def)

theorem asm_wait_never_expires_witness:
  "recv_ack (\<lambda>a. 0) [\<lparr>a_lsr = 0x60, a_rbr = 0, a_mem = (\<lambda>a. if a = 0x46C then 36 else 0)\<rparr>] = None"
  using asm_wait_never_expires [of "[\<lparr>a_lsr = 0x60, a_rbr = 0, a_mem = (\<lambda>a. if a = 0x46C then 36 else 0)\<rparr>]"
      "\<lambda>a. 0" "\<lparr>a_lsr = 0x60, a_rbr = 0, a_mem = (\<lambda>a. if a = 0x46C then 36 else 0)\<rparr>"]
  by (simp add: bios_ticks_def pair32_def Let_def)

end
