(* ===== verification/DosEquiv.thy ===== *)
theory DosEquiv
  imports DosMain Wire
begin

text \<open>
  The sender as a program (\<open>DosMain\<close>) and the sender as a device that reacts to bytes and
  expired waits (\<open>DosSender\<close>) are the same: fed with the same events they send the same
  bytes, wait at the same places and end in the same way. The sender ends after a bounded
  number of events.
\<close>

section \<open>The device on a list of events\<close>

abbreviation tx_react :: "tx_disk \<Rightarrow> byte option \<Rightarrow> tx_state \<Rightarrow> tx_state \<times> byte list" where
  "tx_react d e x \<equiv> case e of Some b \<Rightarrow> tx_byte d b x | None \<Rightarrow> tx_timeout d x"

fun tx_events :: "tx_disk \<Rightarrow> events \<Rightarrow> tx_state \<Rightarrow> tx_state \<times> byte list" where
  "tx_events d [] x = (x, [])"
| "tx_events d (e # evs) x =
     (let (x', out) = tx_react d e x;
          (x'', out') = tx_events d evs x'
      in (x'', out @ out'))"

fun waiting :: "tx_phase \<Rightarrow> bool" where
  "waiting TxDone = False"
| "waiting TxLinkLost = False"
| "waiting _ = True"

lemma tx_events_ended: "\<not> waiting (tx_phase x) \<Longrightarrow> tx_events d evs x = (x, [])"
  by (induction evs; cases "tx_phase x") (auto simp: tx_byte_def tx_timeout_def split: option.split)

text \<open>
  A part of the program runs as the device does from state \<open>x\<close>: it waits where the device
  waits; when it returns \<open>a\<close>, the device has just made the transition \<open>k a\<close>.
\<close>

definition follows ::
  "tx_disk \<Rightarrow> events \<Rightarrow> tx_state \<Rightarrow> byte list \<times> ('a \<times> events) option \<Rightarrow> ('a \<Rightarrow> tx_state \<times> byte list) \<Rightarrow> bool" where
  "follows d evs x run k \<longleftrightarrow>
     (case run of
        (out, None) \<Rightarrow> \<exists>x'. tx_events d evs x = (x', out) \<and> waiting (tx_phase x')
      | (out, Some (a, evs')) \<Rightarrow>
          tx_events d evs x = (let (y, o1) = k a; (z, o2) = tx_events d evs' y in (z, out @ o1 @ o2)))"

lemma follows_wait [simp]: "follows d [] x ([], None) k \<longleftrightarrow> waiting (tx_phase x)"
  by (simp add: follows_def)

lemma follows_now [simp]: "k a = (x, []) \<Longrightarrow> follows d evs x (tx_return a evs) k"
  by (simp add: follows_def tx_return_def case_prod_unfold)

text \<open>One event: the rest of the program follows the state after it.\<close>

lemma follows_step:
  assumes "tx_react d e x = (y, [])"
    and "follows d evs y run k"
  shows "follows d (e # evs) x run k"
  using assms by (auto simp: follows_def case_prod_unfold split: option.splits)

lemma follows_last:
  assumes "tx_react d e x = k a"
  shows "follows d (e # evs) x (tx_return a evs) k"
  using assms by (simp add: follows_def tx_return_def case_prod_unfold)

lemma follows_bind:
  assumes "follows d evs x (m evs) k1"
    and "\<And>out a evs'. m evs = (out, Some (a, evs')) \<Longrightarrow>
      (\<exists>y. k1 a = (y, []) \<and> follows d evs' y (k a evs') k2) \<or> (\<exists>b. k a evs' = tx_return b evs' \<and> k1 a = k2 b)"
  shows "follows d evs x (tx_bind m k evs) k2"
proof (cases "m evs")
  case (Pair out r)
  show ?thesis
  proof (cases r)
    case None
    with Pair assms(1) show ?thesis by (simp add: follows_def tx_bind_def)
  next
    case (Some q)
    obtain a evs' where q: "q = (a, evs')" by (cases q)
    with Pair Some assms(1) have run: "tx_events d evs x =
        (let (y, o1) = k1 a; (z, o2) = tx_events d evs' y in (z, out @ o1 @ o2))"
      by (simp add: follows_def)
    from assms(2) [of out a evs'] Pair Some q
    consider y where "k1 a = (y, [])" "follows d evs' y (k a evs') k2"
      | b where "k a evs' = tx_return b evs'" "k1 a = k2 b" by auto
    then show ?thesis
    proof cases
      case 1
      then show ?thesis
        using run Pair Some q
        by (auto simp: follows_def tx_bind_def case_prod_unfold Let_def split: option.splits)
    next
      case 2
      then show ?thesis
        using run Pair Some q by (simp add: follows_def tx_bind_def tx_return_def case_prod_unfold Let_def)
    qed
  qed
qed

section \<open>The worklist\<close>

lemma rehandshake_phase [simp]: "rehandshake d (x\<lparr>tx_phase := p\<rparr>) = rehandshake d x"
  by (simp add: rehandshake_def)

lemma hunt_follows:
  assumes "tx_phase x = TxHunt n" "n + m = 300" "0 < m"
  shows "follows d evs x (hunt_command m evs)
    (\<lambda>found. if found then (x\<lparr>tx_phase := TxCmd []\<rparr>, []) else rehandshake d x)"
  using assms
proof (induction evs arbitrary: x n m)
  case Nil
  then show ?case by (cases m) simp_all
next
  case (Cons e evs)
  then obtain l where m: "m = Suc l" by (cases m) simp_all
  show ?case
  proof (cases "e = None \<or> e = Some SOH \<or> l = 0")
    case True
    then show ?thesis
      using Cons.prems
      by (cases e) (auto simp: m tx_byte_def tx_timeout_def intro!: follows_last)
  next
    case False
    then obtain b where b: "e = Some b" "b \<noteq> SOH" "0 < l" by (cases e) auto
    let ?y = "x\<lparr>tx_phase := TxHunt (Suc n)\<rparr>"
    have "follows d evs ?y (hunt_command l evs)
        (\<lambda>found. if found then (?y\<lparr>tx_phase := TxCmd []\<rparr>, []) else rehandshake d ?y)"
      using b Cons.prems m by (intro Cons.IH [of _ "Suc n"]) simp_all
    then have "follows d evs ?y (hunt_command l evs)
        (\<lambda>found. if found then (x\<lparr>tx_phase := TxCmd []\<rparr>, []) else rehandshake d x)"
      by (simp cong del: if_weak_cong)
    then show ?thesis
      using b Cons.prems m by (auto simp: tx_byte_def intro!: follows_step)
  qed
qed

text \<open>What the device does when the command received so far is \<open>bs\<close>.\<close>

definition after_parse :: "tx_disk \<Rightarrow> tx_state \<Rightarrow> byte list \<Rightarrow> tx_state \<times> byte list" where
  "after_parse d x bs =
     (case parse_cmd bs of
        CmdMore \<Rightarrow> (x\<lparr>tx_phase := TxCmd bs\<rparr>, [])
      | CmdFail \<Rightarrow> rehandshake d x
      | CmdRanges rs \<Rightarrow> next_sector d (x\<lparr>tx_ranges := rs\<rparr>))"

lemma tx_ranges_then_phase: "x\<lparr>tx_phase := p, tx_ranges := rs\<rparr> = x\<lparr>tx_ranges := rs\<rparr>\<lparr>tx_phase := p\<rparr>"
  by (cases x) simp

lemma next_sector_phase: "next_sector d (x\<lparr>tx_phase := p\<rparr>) = next_sector d x"
proof (induction d x rule: next_sector.induct)
  case (1 d x)
  show ?case
  proof (cases "tx_ranges x")
    case (Cons r rs)
    obtain a b where r: "r = (a, b)" by (cases r)
    show ?thesis
    proof (cases "a < b")
      case True
      with Cons r show ?thesis
        by (simp add: next_sector.simps [of d x] next_sector.simps [of d "x\<lparr>tx_phase := p\<rparr>"] split: option.split)
    next
      case False
      from 1 [OF Cons r [symmetric] False]
      have "next_sector d (x\<lparr>tx_phase := p, tx_ranges := rs\<rparr>) = next_sector d (x\<lparr>tx_ranges := rs\<rparr>)"
        by (simp only: tx_ranges_then_phase)
      with False Cons r show ?thesis
        by (simp add: next_sector.simps [of d x] next_sector.simps [of d "x\<lparr>tx_phase := p\<rparr>"])
    qed
  qed (simp add: next_sector.simps [of d x] next_sector.simps [of d "x\<lparr>tx_phase := p\<rparr>"])
qed

lemma after_parse_phase [simp]: "after_parse d (x\<lparr>tx_phase := p\<rparr>) bs = after_parse d x bs"
  unfolding after_parse_def tx_ranges_then_phase next_sector_phase by (simp split: cmd_status.split)

lemma recv_bytes_result:
  "recv_bytes n crc evs = (out, Some (Some (bs, crc'), evs')) \<Longrightarrow> length bs = n \<and> crc' = foldl crc16_update crc bs"
proof (induction n arbitrary: crc evs out bs)
  case (Suc n)
  then show ?case
    by (cases evs) (fastforce simp: tx_return_def tx_bind_def [of "recv_bytes _ _"] Let_def
        split: option.splits prod.splits)+
qed (simp add: tx_return_def)

lemma recv_bytes_follows:
  assumes "tx_phase x = TxCmd acc" "parse_cmd acc = CmdMore"
    and "\<And>bs. length bs < n \<Longrightarrow> parse_cmd (acc @ bs) = CmdMore"
  shows "follows d evs x (recv_bytes n crc evs)
    (\<lambda>r. case r of None \<Rightarrow> rehandshake d x | Some (bs, c) \<Rightarrow> after_parse d x (acc @ bs))"
  using assms
proof (induction n arbitrary: x acc crc evs)
  case 0
  have "x\<lparr>tx_phase := TxCmd acc\<rparr> = x" using 0(1) by auto
  with 0(2) show ?case by (auto simp: after_parse_def intro!: follows_now)
next
  case (Suc n)
  show ?case
  proof (cases evs)
    case Nil
    with Suc.prems(1) show ?thesis by simp
  next
    case (Cons e evs')
    show ?thesis
    proof (cases e)
      case None
      with Cons Suc.prems(1) show ?thesis by (auto simp: tx_timeout_def intro!: follows_last)
    next
      case (Some b)
      let ?rest = "\<lambda>crc. tx_bind (recv_bytes n crc) (\<lambda>res.
         tx_return (case res of None \<Rightarrow> None | Some (bs, crc') \<Rightarrow> Some (b # bs, crc')))"
      let ?k = "\<lambda>r. case r of None \<Rightarrow> rehandshake d x | Some (bs, c) \<Rightarrow> after_parse d x (acc @ bs)"
      have run: "recv_bytes (Suc n) crc evs = ?rest (crc16_update crc b) evs'" by (simp add: Cons Some)
      have step: "tx_react d e x = after_parse d x (acc @ [b])"
        using Suc.prems(1) by (simp add: Some tx_byte_def after_parse_def)
      show ?thesis
      proof (cases n)
        case 0
        have "?rest (crc16_update crc b) evs' = tx_return (Some ([b], crc16_update crc b)) evs'"
          by (simp add: 0 tx_bind_def tx_return_def)
        then show ?thesis
          unfolding run unfolding Cons by (simp only:) (rule follows_last, simp add: step)
      next
        case m: (Suc m)
        let ?y = "x\<lparr>tx_phase := TxCmd (acc @ [b])\<rparr>"
        have more: "parse_cmd (acc @ [b]) = CmdMore" using Suc.prems(3) [of "[b]"] m by simp
        have "follows d evs' ?y (recv_bytes n (crc16_update crc b) evs')
            (\<lambda>r. case r of None \<Rightarrow> rehandshake d ?y | Some (bs, c) \<Rightarrow> after_parse d ?y ((acc @ [b]) @ bs))"
          using more Suc.prems(3) [of "b # _"] by (intro Suc.IH) simp_all
        then have "follows d evs' ?y (?rest (crc16_update crc b) evs') ?k"
          by (rule follows_bind) (auto split: option.splits)
        then show ?thesis
          unfolding run unfolding Cons
          by (intro follows_step [where y = ?y]) (simp_all add: step after_parse_def more)
      qed
    qed
  qed
qed

text \<open>The loops of the program are one read of many bytes.\<close>

lemma tx_bind_assoc: "tx_bind (tx_bind m f) g = tx_bind m (\<lambda>a. tx_bind (f a) g)"
  by (rule ext) (simp add: tx_bind_def case_prod_unfold Let_def split: option.split)

lemma tx_return_bind [simp]: "tx_bind (tx_return a) k = k a"
  by (rule ext) (simp add: tx_bind_def tx_return_def)

lemma tx_bind_return [simp]: "tx_bind m tx_return = m"
  by (rule ext) (auto simp: tx_bind_def tx_return_def case_prod_unfold prod_eq_iff split: option.split)

lemma tx_bind_ext:
  assumes "\<And>evs out a evs'. m evs = (out, Some (a, evs')) \<Longrightarrow> k a = k' a"
  shows "tx_bind m k = tx_bind m k'"
  using assms by (intro ext) (simp add: tx_bind_def case_prod_unfold prod_eq_iff split: option.split)

lemma word32_at_append: "i + 3 < length p \<Longrightarrow> word32_at i (p @ q) = word32_at i p"
  by (simp add: word32_at_def nth_append)

lemma word32_at_shift: "word32_at (length p + i) (p @ q) = word32_at i q"
  by (simp add: word32_at_def nth_append add.assoc)

lemma word16_at_shift: "word16_at (length p + i) (p @ q) = word16_at i q"
  by (simp add: word16_at_def nth_append add.assoc)

lemma word16_at_append: "i + 1 < length p \<Longrightarrow> word16_at i (p @ q) = word16_at i p"
  by (simp add: word16_at_def nth_append)

definition ranges_at :: "nat \<Rightarrow> byte list \<Rightarrow> (32 word \<times> 32 word) list" where
  "ranges_at n bs = map (\<lambda>i. (word32_at (8 * i) bs, word32_at (8 * i + 4) bs)) [0..<n]"

lemma ranges_at_Suc:
  assumes "length p = 8"
  shows "ranges_at (Suc n) (p @ q) = (word32_at 0 p, word32_at 4 p) # ranges_at n q"
proof -
  have at: "word32_at (8 + 8 * i) (p @ q) = word32_at (8 * i) q"
    "word32_at (12 + 8 * i) (p @ q) = word32_at (8 * i + 4) q" for i
    using word32_at_shift [of p "8 * i" q] word32_at_shift [of p "8 * i + 4" q] by (simp_all add: assms)
  have "map (\<lambda>i. (word32_at (8 * i) (p @ q), word32_at (8 * i + 4) (p @ q))) [Suc 0..<Suc n] = ranges_at n q"
    unfolding ranges_at_def map_Suc_upt [symmetric] map_map
    by (simp add: at comp_def del: upt_Suc)
  then show ?thesis
    by (simp add: ranges_at_def upt_conv_Cons word32_at_append assms del: upt_Suc)
qed

lemma recv_bytes_add:
  "recv_bytes (m + n) crc = tx_bind (recv_bytes m crc) (\<lambda>res.
     case res of
       None \<Rightarrow> tx_return None
     | Some (p, c) \<Rightarrow> tx_bind (recv_bytes n c) (\<lambda>res.
         tx_return (case res of None \<Rightarrow> None | Some (q, c') \<Rightarrow> Some (p @ q, c'))))"
proof (induction m arbitrary: crc)
  case 0
  have "tx_bind (recv_bytes n crc) (\<lambda>res. tx_return (case res of None \<Rightarrow> None | Some (q, c') \<Rightarrow> Some ([] @ q, c')))
      = tx_bind (recv_bytes n crc) tx_return"
    by (rule tx_bind_ext) (simp split: option.split)
  then show ?case by simp
next
  case (Suc m)
  have inner: "tx_bind (case res of None \<Rightarrow> tx_return None
          | Some (p, c) \<Rightarrow> tx_bind (recv_bytes n c) (\<lambda>res. tx_return (case res of None \<Rightarrow> None
              | Some (q, c') \<Rightarrow> Some (p @ q, c'))))
        (\<lambda>res. tx_return (case res of None \<Rightarrow> None | Some (bs, c') \<Rightarrow> Some (b # bs, c')))
      = (case (case res of None \<Rightarrow> None | Some (bs, c') \<Rightarrow> Some (b # bs, c')) of None \<Rightarrow> tx_return None
          | Some (p, c) \<Rightarrow> tx_bind (recv_bytes n c) (\<lambda>res. tx_return (case res of None \<Rightarrow> None
              | Some (q, c') \<Rightarrow> Some (p @ q, c'))))" for res b
  proof (cases res)
    case (Some r)
    then show ?thesis
      unfolding Some option.case case_prod_unfold tx_bind_assoc tx_return_bind
      by (simp, intro tx_bind_ext) (simp split: option.split)
  qed simp
  show ?case
    unfolding add_Suc recv_bytes.simps Suc.IH tx_bind_assoc
  proof (rule tx_bind_ext)
    fix r
    show "(case r of None \<Rightarrow> tx_return None
        | Some b \<Rightarrow> tx_bind (recv_bytes m (crc16_update crc b)) (\<lambda>res. tx_bind (case res of None \<Rightarrow> tx_return None
            | Some (p, c) \<Rightarrow> tx_bind (recv_bytes n c) (\<lambda>res. tx_return (case res of None \<Rightarrow> None
                | Some (q, c') \<Rightarrow> Some (p @ q, c'))))
          (\<lambda>res. tx_return (case res of None \<Rightarrow> None | Some (bs, c') \<Rightarrow> Some (b # bs, c')))))
      = tx_bind (case r of None \<Rightarrow> tx_return None
          | Some b \<Rightarrow> tx_bind (recv_bytes m (crc16_update crc b)) (\<lambda>res.
              tx_return (case res of None \<Rightarrow> None | Some (bs, c') \<Rightarrow> Some (b # bs, c'))))
          (\<lambda>res. case res of None \<Rightarrow> tx_return None
            | Some (p, c) \<Rightarrow> tx_bind (recv_bytes n c) (\<lambda>res. tx_return (case res of None \<Rightarrow> None
                | Some (q, c') \<Rightarrow> Some (p @ q, c'))))"
      by (cases r) (simp_all only: option.case tx_return_bind tx_bind_assoc inner)
  qed
qed

lemma recv_ranges_bytes:
  "recv_ranges n crc = tx_bind (recv_bytes (8 * n) crc) (\<lambda>res.
     tx_return (case res of None \<Rightarrow> None | Some (q, c) \<Rightarrow> Some (ranges_at n q, c)))"
proof (induction n arbitrary: crc)
  case 0
  then show ?case by (simp add: ranges_at_def)
next
  case (Suc n)
  have "(case res of None \<Rightarrow> tx_return None | Some (p, c) \<Rightarrow> tx_bind (recv_ranges n c) (\<lambda>res.
        tx_return (case res of None \<Rightarrow> None
          | Some (rs, c') \<Rightarrow> Some ((word32_at 0 p, word32_at 4 p) # rs, c'))))
      = tx_bind (case res of None \<Rightarrow> tx_return None | Some (p, c) \<Rightarrow> tx_bind (recv_bytes (8 * n) c) (\<lambda>res.
          tx_return (case res of None \<Rightarrow> None | Some (q, c') \<Rightarrow> Some (p @ q, c')))) (\<lambda>res.
          tx_return (case res of None \<Rightarrow> None | Some (q, c) \<Rightarrow> Some (ranges_at (Suc n) q, c)))"
    if "recv_bytes 8 crc evs = (out, Some (res, evs'))" for evs out res evs'
  proof (cases res)
    case (Some r)
    obtain p c where r: "r = (p, c)" by (cases r)
    have "length p = 8" using recv_bytes_result [of 8 crc evs out p c evs'] that Some r by simp
    then show ?thesis
      unfolding Some r option.case prod.case Suc.IH tx_bind_assoc tx_return_bind
      by (intro tx_bind_ext) (simp add: ranges_at_Suc split: option.split)
  qed simp
  then show ?case
    unfolding mult_Suc_right recv_bytes_add recv_ranges.simps tx_bind_assoc by (rule tx_bind_ext)
qed

text \<open>The device parses what the program reads in pieces.\<close>

lemma parse_cmd_start: "length p < 2 \<Longrightarrow> parse_cmd (TYPE_CMD # p) = CmdMore"
  by (simp add: parse_cmd_def)

lemma parse_cmd_counted:
  assumes "length p = 2"
  shows "parse_cmd (TYPE_CMD # p) = (if unat (word16_at 0 p) > MAXR then CmdFail else CmdMore)"
  using assms by (simp add: parse_cmd_def word16_at_def Let_def)

lemma parse_cmd_ranges:
  assumes "length p = 2" "unat (word16_at 0 p) \<le> MAXR"
  shows "parse_cmd (TYPE_CMD # p @ q) =
    (if length q < 8 * unat (word16_at 0 p) + 2 then CmdMore
     else if word16_at (8 * unat (word16_at 0 p)) q
        \<noteq> foldl crc16_update 0xFFFF (TYPE_CMD # p @ take (8 * unat (word16_at 0 p)) q) then CmdFail
     else CmdRanges (ranges_at (unat (word16_at 0 p)) q))"
proof -
  let ?n = "unat (word16_at 0 p)"
  have count: "word16_at 1 (TYPE_CMD # p @ q) = word16_at 0 p"
    using assms(1) by (simp add: word16_at_def nth_append)
  have split: "TYPE_CMD # p @ q = (TYPE_CMD # p) @ q" by simp
  have at: "word32_at (3 + 8 * i) (TYPE_CMD # p @ q) = word32_at (8 * i) q"
    "word32_at (7 + 8 * i) (TYPE_CMD # p @ q) = word32_at (8 * i + 4) q" for i
    using word32_at_shift [of "TYPE_CMD # p" "8 * i" q] word32_at_shift [of "TYPE_CMD # p" "8 * i + 4" q] assms(1)
    by simp_all
  have ranges: "map (\<lambda>i. (word32_at (3 + 8 * i) (TYPE_CMD # p @ q), word32_at (3 + 8 * i + 4) (TYPE_CMD # p @ q)))
      [0..<?n] = ranges_at ?n q"
    by (simp add: ranges_at_def at)
  have sum: "word16_at (3 + 8 * ?n) (TYPE_CMD # p @ q) = word16_at (8 * ?n) q"
    using word16_at_shift [of "TYPE_CMD # p" "8 * ?n" q] assms(1) by simp
  have front: "take (3 + 8 * ?n) (TYPE_CMD # p @ q) = TYPE_CMD # p @ take (8 * ?n) q"
    using assms(1) by (simp add: take_Cons')
  show ?thesis
    unfolding parse_cmd_def count ranges sum front Let_def using assms by simp
qed

text \<open>The whole command, with the checks of the program in their order.\<close>

definition check_sum ::
  "nat \<Rightarrow> byte list \<Rightarrow> 16 word \<Rightarrow> (byte list \<times> 16 word) option \<Rightarrow> (32 word \<times> 32 word) list option tx_io" where
  "check_sum n q crc res =
     (case res of
        None \<Rightarrow> tx_return None
      | Some (s, crc') \<Rightarrow> tx_return (if word16_at 0 s \<noteq> crc then None else Some (ranges_at n q)))"

definition check_ranges :: "nat \<Rightarrow> (byte list \<times> 16 word) option \<Rightarrow> (32 word \<times> 32 word) list option tx_io" where
  "check_ranges n res =
     (case res of
        None \<Rightarrow> tx_return None
      | Some (q, crc) \<Rightarrow> tx_bind (recv_bytes 2 crc) (check_sum n q crc))"

definition check_count :: "(byte list \<times> 16 word) option \<Rightarrow> (32 word \<times> 32 word) list option tx_io" where
  "check_count res =
     (case res of
        None \<Rightarrow> tx_return None
      | Some (p, crc) \<Rightarrow>
          if unat (word16_at 0 p) > MAXR then tx_return None
          else tx_bind (recv_bytes (8 * unat (word16_at 0 p)) crc) (check_ranges (unat (word16_at 0 p))))"

lemma recv_command_alt:
  "recv_command = tx_bind (hunt_command 300) (\<lambda>found.
     if \<not> found then tx_return None
     else tx_bind tx_wait (\<lambda>t.
       if t \<noteq> Some TYPE_CMD then tx_return None
       else tx_bind (recv_bytes 2 (crc16_update 0xFFFF TYPE_CMD)) check_count))"
proof -
  have "tx_bind (recv_ranges n crc) (\<lambda>res. case res of None \<Rightarrow> tx_return None
        | Some (rs, crc') \<Rightarrow> tx_bind (recv_bytes 2 crc') (\<lambda>res. case res of None \<Rightarrow> tx_return None
            | Some (q, crc'') \<Rightarrow> tx_return (if word16_at 0 q \<noteq> crc' then None else Some rs))) =
    tx_bind (recv_bytes (8 * n) crc) (check_ranges n)" for n crc
    unfolding recv_ranges_bytes tx_bind_assoc
    by (rule tx_bind_ext) (simp add: check_ranges_def check_sum_def [abs_def] split: option.split)
  then show ?thesis
    unfolding check_count_def by (simp only: recv_command_def Let_def)
qed

definition command_result :: "tx_disk \<Rightarrow> tx_state \<Rightarrow> (32 word \<times> 32 word) list option \<Rightarrow> tx_state \<times> byte list" where
  "command_result d x res =
     (case res of None \<Rightarrow> rehandshake d x | Some rs \<Rightarrow> next_sector d (x\<lparr>tx_ranges := rs\<rparr>))"

lemma command_result_phase [simp]: "command_result d (x\<lparr>tx_phase := p\<rparr>) = command_result d x"
  unfolding command_result_def tx_ranges_then_phase next_sector_phase by (auto split: option.split)

text \<open>A read of \<open>n\<close> bytes of the command and the program after it.\<close>

lemma recv_bytes_bind:
  assumes phase: "tx_phase x = TxCmd acc"
    and more: "\<And>bs. length bs < n \<Longrightarrow> parse_cmd (acc @ bs) = CmdMore" "parse_cmd acc = CmdMore"
    and fail: "k None = tx_return None"
    and rest: "\<And>bs evs. length bs = n \<Longrightarrow>
      parse_cmd (acc @ bs) = CmdMore \<and>
        follows d evs (x\<lparr>tx_phase := TxCmd (acc @ bs)\<rparr>) (k (Some (bs, foldl crc16_update crc bs)) evs) (command_result d x)
      \<or> (\<exists>res. k (Some (bs, foldl crc16_update crc bs)) = tx_return res \<and> after_parse d x (acc @ bs) = command_result d x res)"
  shows "follows d evs x (tx_bind (recv_bytes n crc) k evs) (command_result d x)"
proof (rule follows_bind [OF recv_bytes_follows [OF phase more(2) more(1)]])
  fix out a evs'
  assume run: "recv_bytes n crc evs = (out, Some (a, evs'))"
  show "(\<exists>y. (case a of None \<Rightarrow> rehandshake d x | Some (bs, c) \<Rightarrow> after_parse d x (acc @ bs)) = (y, []) \<and>
        follows d evs' y (k a evs') (command_result d x)) \<or>
      (\<exists>b. k a evs' = tx_return b evs' \<and>
        (case a of None \<Rightarrow> rehandshake d x | Some (bs, c) \<Rightarrow> after_parse d x (acc @ bs)) = command_result d x b)"
  proof (cases a)
    case None
    then show ?thesis using fail by (auto simp: command_result_def)
  next
    case (Some r)
    obtain bs c where r: "r = (bs, c)" by (cases r)
    with run Some have bs: "length bs = n" "c = foldl crc16_update crc bs"
      using recv_bytes_result [of n crc evs out bs c evs'] by simp_all
    from rest [OF bs(1), of evs'] show ?thesis
      using Some r bs(2) by (auto simp: after_parse_def)
  qed
qed

lemma sum_follows:
  assumes "tx_phase x = TxCmd (TYPE_CMD # p @ q)" "length p = 2" "unat (word16_at 0 p) \<le> MAXR"
    and "length q = 8 * unat (word16_at 0 p)" "crc = foldl crc16_update 0xFFFF (TYPE_CMD # p @ q)"
  shows "follows d evs x (tx_bind (recv_bytes 2 crc) (check_sum (unat (word16_at 0 p)) q crc) evs) (command_result d x)"
proof (rule recv_bytes_bind [OF assms(1)], goal_cases)
  case (4 s evs)
  have "ranges_at (unat (word16_at 0 p)) (q @ s) = ranges_at (unat (word16_at 0 p)) q"
    using assms(4) by (simp add: ranges_at_def word32_at_append)
  moreover have "word16_at (8 * unat (word16_at 0 p)) (q @ s) = word16_at 0 s"
    using word16_at_shift [of q 0 s] assms(4) by simp
  ultimately have "after_parse d x ((TYPE_CMD # p @ q) @ s) =
      command_result d x (if word16_at 0 s \<noteq> crc then None else Some (ranges_at (unat (word16_at 0 p)) q))"
    using assms(4,5) 4 parse_cmd_ranges [OF assms(2,3), of "q @ s"]
    by (simp add: after_parse_def command_result_def)
  then show ?case by (simp only: check_sum_def option.case prod.case) blast
qed (use assms parse_cmd_ranges [OF assms(2,3)] in \<open>simp_all add: check_sum_def\<close>)

lemma ranges_follow:
  assumes "tx_phase x = TxCmd (TYPE_CMD # p)" "length p = 2" "unat (word16_at 0 p) \<le> MAXR"
    and "crc = foldl crc16_update 0xFFFF (TYPE_CMD # p)"
  shows "follows d evs x (tx_bind (recv_bytes (8 * unat (word16_at 0 p)) crc) (check_ranges (unat (word16_at 0 p))) evs)
    (command_result d x)"
proof (rule recv_bytes_bind [OF assms(1)], goal_cases)
  case (4 q evs)
  let ?y = "x\<lparr>tx_phase := TxCmd (TYPE_CMD # p @ q)\<rparr>"
  have "parse_cmd ((TYPE_CMD # p) @ q) = CmdMore"
    using parse_cmd_ranges [OF assms(2,3), of q] 4 by simp
  moreover have "foldl crc16_update crc q = foldl crc16_update 0xFFFF (TYPE_CMD # p @ q)" by (simp add: assms(4))
  then have "follows d evs ?y (check_ranges (unat (word16_at 0 p)) (Some (q, foldl crc16_update crc q)) evs)
      (command_result d ?y)"
    unfolding check_ranges_def option.case prod.case using assms 4 by (intro sum_follows) simp_all
  ultimately show ?case by simp
qed (use assms parse_cmd_ranges [OF assms(2,3), of "_ :: byte list"] parse_cmd_counted [OF assms(2)]
     in \<open>simp_all add: check_ranges_def\<close>)

lemma count_follows:
  assumes "tx_phase x = TxCmd [TYPE_CMD]" "crc = crc16_update 0xFFFF TYPE_CMD"
  shows "follows d evs x (tx_bind (recv_bytes 2 crc) check_count evs) (command_result d x)"
proof (rule recv_bytes_bind [OF assms(1)], goal_cases)
  case (4 p evs)
  let ?y = "x\<lparr>tx_phase := TxCmd (TYPE_CMD # p)\<rparr>"
  show ?case
  proof (cases "unat (word16_at 0 p) > MAXR")
    case True
    then have "check_count (Some (p, foldl crc16_update crc p)) = tx_return None \<and>
        after_parse d x ([TYPE_CMD] @ p) = command_result d x None"
      using parse_cmd_counted [OF 4] by (simp add: check_count_def after_parse_def command_result_def)
    then show ?thesis by blast
  next
    case False
    then have "follows d evs ?y (check_count (Some (p, foldl crc16_update crc p)) evs) (command_result d ?y)"
      unfolding check_count_def option.case prod.case if_not_P [OF False] using 4 assms(2)
      by (intro ranges_follow) simp_all
    then show ?thesis using False parse_cmd_counted [OF 4] by simp
  qed
qed (use parse_cmd_start in \<open>simp_all add: check_count_def\<close>)

lemma recv_command_follows:
  assumes "tx_phase x = TxHunt 0"
  shows "follows d evs x (recv_command evs) (command_result d x)"
  unfolding recv_command_alt
proof (rule follows_bind [OF hunt_follows [OF assms]], goal_cases)
  case (3 out found evs')
  let ?y = "x\<lparr>tx_phase := TxCmd []\<rparr>"
  let ?rest = "\<lambda>t. if t \<noteq> Some TYPE_CMD then tx_return None
    else tx_bind (recv_bytes 2 (crc16_update 0xFFFF TYPE_CMD)) check_count"
  have "follows d evs' ?y (tx_bind tx_wait ?rest evs') (command_result d ?y)"
  proof (cases evs')
    case (Cons e evs'')
    show ?thesis
    proof (cases "e = Some TYPE_CMD")
      case True
      let ?z = "?y\<lparr>tx_phase := TxCmd [TYPE_CMD]\<rparr>"
      have "follows d evs'' ?z (tx_bind (recv_bytes 2 (crc16_update 0xFFFF TYPE_CMD)) check_count evs'') (command_result d ?z)"
        by (intro count_follows) simp_all
      then show ?thesis
        unfolding Cons using True parse_cmd_start [of "[]"]
        by (auto simp: tx_byte_def intro!: follows_step)
    next
      case False
      then have "tx_react d e ?y = command_result d ?y None"
        by (auto simp: tx_byte_def tx_timeout_def command_result_def parse_cmd_def split: option.split)
      then show ?thesis
        unfolding Cons using False by (simp add: follows_last)
    qed
  qed simp
  moreover have "rehandshake d x = command_result d x None" by (simp add: command_result_def)
  ultimately show ?case by (cases found) auto
qed simp_all

section \<open>Sending\<close>

text \<open>
  A part of the program whose first output \<open>fr\<close> the device has already sent when it came to
  state \<open>x\<close>; \<open>K\<close> relates the result to the transition the device has just made.
\<close>

definition drives ::
  "tx_disk \<Rightarrow> byte list \<Rightarrow> events \<Rightarrow> tx_state \<Rightarrow> byte list \<times> ('a \<times> events) option \<Rightarrow>
    ('a \<Rightarrow> tx_state \<times> byte list \<Rightarrow> bool) \<Rightarrow> bool" where
  "drives d fr evs x run K \<longleftrightarrow>
     (case run of
        (out, None) \<Rightarrow> \<exists>x'. out = fr @ snd (tx_events d evs x) \<and> x' = fst (tx_events d evs x) \<and> waiting (tx_phase x')
      | (out, Some (a, evs')) \<Rightarrow>
          \<exists>out1 yo. out = fr @ out1 \<and> K a yo \<and>
            tx_events d evs x = (let (z, o2) = tx_events d evs' (fst yo) in (z, out1 @ snd yo @ o2)))"

lemma follows_drives: "follows d evs x run k \<Longrightarrow> drives d [] evs x run (\<lambda>a yo. yo = k a)"
  by (auto simp: follows_def drives_def case_prod_unfold Let_def split: option.splits)

lemma drives_return: "K a (x, []) \<Longrightarrow> drives d [] evs x (tx_return a evs) K"
  by (simp add: drives_def tx_return_def) (rule exI [of _ x], rule exI [of _ "[]"], simp add: case_prod_unfold)

lemma drives_bind:
  assumes "drives d fr evs x (m evs) K1"
    and "\<And>out a evs' y o1. m evs = (out, Some (a, evs')) \<Longrightarrow> K1 a (y, o1) \<Longrightarrow> drives d o1 evs' y (k a evs') K2"
  shows "drives d fr evs x (tx_bind m k evs) K2"
proof (cases "m evs")
  case (Pair out r)
  show ?thesis
  proof (cases r)
    case None
    with Pair assms(1) show ?thesis by (simp add: drives_def tx_bind_def)
  next
    case (Some q)
    obtain a evs' where q: "q = (a, evs')" by (cases q)
    with Pair Some assms(1) obtain out1 y o1 where 1: "out = fr @ out1" "K1 a (y, o1)"
      "tx_events d evs x = (let (z, o2) = tx_events d evs' y in (z, out1 @ o1 @ o2))"
      by (fastforce simp: drives_def)
    have "drives d o1 evs' y (k a evs') K2" using assms(2) 1(2) Pair Some q by simp
    with 1 Pair Some q show ?thesis
      by (fastforce simp: drives_def tx_bind_def case_prod_unfold Let_def split: option.splits)
  qed
qed

text \<open>
  The tries of one frame, for \<open>DATA\<close> and for \<open>EOT\<close>: \<open>st k\<close> is the device after try \<open>k\<close>,
  \<open>won\<close> and \<open>lost\<close> its transitions on an \<open>ACK\<close> and after the last try.
\<close>

lemma send_tries_drives:
  assumes wait: "\<And>k. waiting (tx_phase (st k))"
    and ack: "\<And>k. tx_byte d ACK (st k) = won"
    and again: "\<And>k e. e \<noteq> Some ACK \<Longrightarrow> tx_react d e (st k) = (if k + 1 < TX_LINK_TRIES then (st (k + 1), fr) else lost)"
    and "k + n = TX_LINK_TRIES" "0 < n"
  shows "drives d fr evs (st k) (send_tries n fr evs) (\<lambda>sent yo. yo = (if sent then won else lost))"
  using assms(4,5)
proof (induction n arbitrary: k evs)
  case (Suc n)
  show ?case
  proof (cases evs)
    case Nil
    then show ?thesis by (simp add: drives_def tx_bind_def [of "tx_send _"] tx_send_def wait)
  next
    case (Cons e evs')
    consider (ack) "e = Some ACK" | (last) "e \<noteq> Some ACK" "n = 0" | (more) "e \<noteq> Some ACK" "0 < n" by blast
    then show ?thesis
    proof cases
      case ack
      then show ?thesis
        by (simp add: Cons drives_def tx_bind_def [of "tx_send _"] tx_send_def tx_return_def assms(2) case_prod_unfold)
    next
      case last
      then show ?thesis
        using Suc.prems again [OF last(1), of k]
        by (simp add: Cons drives_def tx_bind_def [of "tx_send _"] tx_send_def tx_return_def case_prod_unfold Let_def)
    next
      case more
      have "drives d fr evs' (st (k + 1)) (send_tries n fr evs') (\<lambda>sent yo. yo = (if sent then won else lost))"
        using more Suc.prems by (intro Suc.IH) simp_all
      moreover have "tx_react d e (st k) = (st (k + 1), fr)" using again [OF more(1), of k] more Suc.prems by simp
      ultimately show ?thesis
        using more(1)
        by (fastforce simp: Cons drives_def tx_bind_def [of "tx_send _"] tx_send_def case_prod_unfold Let_def
            split: option.splits)
    qed
  qed
qed simp

lemma advance_of_phase [simp]: "advance (x\<lparr>tx_phase := p\<rparr>) = advance x\<lparr>tx_phase := p\<rparr>"
  by (cases x) (simp add: advance_def split: list.split)

lemma send_data_drives:
  assumes "tx_phase x = TxData 0"
  shows "drives d (data_frame (fst (hd (tx_ranges x))) (tx_status x) (tx_buf x)) evs x
    (send_data (fst (hd (tx_ranges x))) (tx_status x) (tx_buf x) evs)
    (\<lambda>sent yo. yo = (if sent then next_sector d (advance x) else (x\<lparr>tx_phase := TxLinkLost\<rparr>, [])))"
proof -
  have "x\<lparr>tx_phase := TxData 0\<rparr> = x" using assms by (cases x) simp
  with send_tries_drives [of "\<lambda>k. x\<lparr>tx_phase := TxData k\<rparr>" d "next_sector d (advance x)"
      "data_frame (fst (hd (tx_ranges x))) (tx_status x) (tx_buf x)"
      "(x\<lparr>tx_phase := TxLinkLost\<rparr>, [])" 0 TX_LINK_TRIES evs]
  show ?thesis
    by (auto simp: send_data_def tx_byte_def tx_timeout_def resend_data_def next_sector_phase TX_LINK_TRIES_def
        split: option.splits)
qed

lemma send_eot_drives:
  assumes "tx_phase x = TxEot 0"
  shows "drives d (eot_frame (tx_good x) (tx_bad x)) evs x (send_eot (tx_good x) (tx_bad x) evs)
    (\<lambda>sent yo. yo = (x\<lparr>tx_phase := TxDone\<rparr>, []))"
proof -
  have "x\<lparr>tx_phase := TxEot 0\<rparr> = x" using assms by (cases x) simp
  with send_tries_drives [of "\<lambda>k. x\<lparr>tx_phase := TxEot k\<rparr>" d "(x\<lparr>tx_phase := TxDone\<rparr>, [])"
      "eot_frame (tx_good x) (tx_bad x)" "(x\<lparr>tx_phase := TxDone\<rparr>, [])" 0 TX_LINK_TRIES evs]
  show ?thesis
    by (auto simp: send_eot_def tx_byte_def tx_timeout_def resend_eot_def TX_LINK_TRIES_def split: option.splits)
qed

section \<open>The whole program\<close>

lemma handshake_drives:
  assumes "tx_phase x = TxHunt 0"
  shows "drives d (send_info d) evs x (handshake d evs) (\<lambda>rs yo. yo = next_sector d (x\<lparr>tx_ranges := rs\<rparr>))"
proof (induction evs rule: length_induct)
  case (1 evs)
  have cmd: "drives d [] evs x (recv_command evs) (\<lambda>res yo. yo = command_result d x res)"
    by (intro follows_drives recv_command_follows assms)
  obtain out res where run: "recv_command evs = (out, res)" by (cases "recv_command evs")
  show ?case
  proof (cases res)
    case None
    with cmd run show ?thesis by (simp add: drives_def handshake.simps [of d evs])
  next
    case (Some q)
    obtain r evs' where q: "q = (r, evs')" by (cases q)
    from cmd run Some q have step: "tx_events d evs x =
        (let (z, o2) = tx_events d evs' (fst (command_result d x r)) in (z, out @ snd (command_result d x r) @ o2))"
      by (auto simp: drives_def)
    show ?thesis
    proof (cases r)
      case (Some rs)
      with run \<open>res = Some q\<close> q step show ?thesis
        by (simp add: drives_def handshake.simps [of d evs] command_result_def)
    next
      case None
      have "x\<lparr>tx_phase := TxHunt 0\<rparr> = x" using assms by (cases x) simp
      with None step have step: "tx_events d evs x = (let (z, o2) = tx_events d evs' x in (z, out @ send_info d @ o2))"
        by (simp add: command_result_def rehandshake_def)
      have "length evs' < length evs" using recv_command_shorter run Some q by blast
      with 1 have "drives d (send_info d) evs' x (handshake d evs') (\<lambda>rs yo. yo = next_sector d (x\<lparr>tx_ranges := rs\<rparr>))"
        by blast
      then show ?thesis
        using run Some q None step
        by (fastforce simp: drives_def handshake.simps [of d evs] case_prod_unfold Let_def split: option.splits)
    qed
  qed
qed

text \<open>How the program ends and where the device stands then.\<close>

fun sender_ended :: "tx_end \<Rightarrow> tx_state \<Rightarrow> bool" where
  "sender_ended (TxFinished good bad) x = (tx_phase x = TxDone \<and> tx_good x = good \<and> tx_bad x = bad)"
| "sender_ended (TxLostAt lba) x = (tx_phase x = TxLinkLost \<and> fst (hd (tx_ranges x)) = lba)"
| "sender_ended _ x = False"

definition ended_now :: "tx_end \<Rightarrow> tx_state \<times> byte list \<Rightarrow> bool" where
  "ended_now r yo = (snd yo = [] \<and> sender_ended r (fst yo))"

lemma sector_sent:
  assumes "tx_ranges x = (lba, stop) # rs" "lba < stop" "next_sector d x = (y, fr)"
    and "(st, buf, good, bad) =
      (case read_with_retries (d_bios d) (chs_of (unat (d_heads d)) (unat (d_spt d)) (unat lba)) of
         None \<Rightarrow> (STATUS_BAD, replicate BPS BAD_FILL, tx_good x, tx_bad x + 1)
       | Some buf \<Rightarrow> (STATUS_GOOD, buf, tx_good x + 1, tx_bad x))"
  shows "tx_phase y = TxData 0" "tx_ranges y = (lba, stop) # rs" "tx_status y = st" "tx_buf y = buf"
    and "tx_good y = good" "tx_bad y = bad" "fr = data_frame lba st buf"
  using assms by (auto simp: next_sector.simps [of d x] split: option.splits)

lemma range_loop_sector:
  assumes "lba < stop" "\<not> abort_key (kb i)"
  obtains st buf good' bad' where
    "(case read_with_retries (d_bios d) (chs_of (unat (d_heads d)) (unat (d_spt d)) (unat lba)) of
        None \<Rightarrow> (STATUS_BAD, replicate BPS BAD_FILL, good, bad + 1)
      | Some buf \<Rightarrow> (STATUS_GOOD, buf, good + 1, bad)) = (st, buf, good', bad')"
    "range_loop d kb i good bad ((lba, stop) # rs) = tx_bind (send_data lba st buf) (\<lambda>sent.
        if \<not> sent then tx_return (TxLostAt lba)
        else range_loop d kb (i + 1) good' bad' ((lba + 1, stop) # rs))"
proof -
  obtain st buf good' bad' where sector: "(case read_with_retries (d_bios d)
        (chs_of (unat (d_heads d)) (unat (d_spt d)) (unat lba)) of
      None \<Rightarrow> (STATUS_BAD, replicate BPS BAD_FILL, good, bad + 1)
    | Some buf \<Rightarrow> (STATUS_GOOD, buf, good + 1, bad)) = (st, buf, good', bad')"
    by (metis prod_cases4)
  show thesis
    by (rule that [OF sector]) (use assms in \<open>intro ext, simp add: range_loop.simps sector\<close>)
qed

lemma range_loop_drives:
  assumes "kb = (\<lambda>_. None)" "good = tx_good x" "bad = tx_bad x" "rs = tx_ranges x" "next_sector d x = (y, fr)"
  shows "drives d fr evs y (range_loop d kb i good bad rs evs) ended_now"
  using assms
proof (induction d kb i good bad rs arbitrary: x y fr evs rule: range_loop.induct)
  case (1 d kb i good bad)
  then have y: "y = x\<lparr>tx_phase := TxEot 0\<rparr>" "fr = eot_frame (tx_good x) (tx_bad x)"
    by (simp_all add: next_sector.simps [of d x])
  have "drives d fr evs y (send_eot good bad evs) (\<lambda>sent yo. yo = (y\<lparr>tx_phase := TxDone\<rparr>, []))"
    using send_eot_drives [of y d evs] 1 y by simp
  then show ?case
    unfolding range_loop.simps
    by (rule drives_bind) (auto simp: ended_now_def y 1 intro!: drives_return)
next
  case (2 d kb i good bad lba stop rs)
  show ?case
  proof (cases "lba < stop")
    case False
    have "tx_ranges x = (lba, stop) # rs" using 2 by simp
    with False 2(7) have "next_sector d (x\<lparr>tx_ranges := rs\<rparr>) = (y, fr)"
      by (simp add: next_sector.simps [of d x])
    then have "drives d fr evs y (range_loop d kb i good bad rs evs) ended_now"
      using 2(3-6) by (intro 2(2) [OF False, of "x\<lparr>tx_ranges := rs\<rparr>"]) simp_all
    with False show ?thesis by (simp add: range_loop.simps)
  next
    case True
    have no_key: "\<not> abort_key (kb i)" using 2(3) by (simp add: abort_key_def)
    obtain st buf good' bad' where sector: "(case read_with_retries (d_bios d)
          (chs_of (unat (d_heads d)) (unat (d_spt d)) (unat lba)) of
        None \<Rightarrow> (STATUS_BAD, replicate BPS BAD_FILL, good, bad + 1)
      | Some buf \<Rightarrow> (STATUS_GOOD, buf, good + 1, bad)) = (st, buf, good', bad')"
      and loop: "range_loop d kb i good bad ((lba, stop) # rs) = tx_bind (send_data lba st buf) (\<lambda>sent.
        if \<not> sent then tx_return (TxLostAt lba)
        else range_loop d kb (i + 1) good' bad' ((lba + 1, stop) # rs))"
      by (rule range_loop_sector [of lba stop kb i, OF True no_key])
    note y = sector_sent [OF 2(6) [symmetric] True 2(7), of st buf good' bad', folded 2(4,5), OF sector [symmetric]]
    have sent: "drives d fr evs y (send_data lba st buf evs)
        (\<lambda>sent yo. yo = (if sent then next_sector d (advance y) else (y\<lparr>tx_phase := TxLinkLost\<rparr>, [])))"
      using send_data_drives [OF y(1), of d evs] y by simp
    have adv: "advance y = y\<lparr>tx_ranges := (lba + 1, stop) # rs\<rparr>" by (simp add: advance_def y)
    have rest: "drives d o1 evs' y' (range_loop d kb (i + 1) good' bad' ((lba + 1, stop) # rs) evs') ended_now"
      if "next_sector d (advance y) = (y', o1)" for y' o1 evs'
      by (rule 2(1) [OF True no_key refl refl sector [symmetric] refl refl _ 2(3), of True "advance y"])
        (simp_all add: adv y(5,6) that [unfolded adv])
    show ?thesis
      unfolding loop using sent
    proof (rule drives_bind)
      fix out sent evs' y' o1
      assume "(y', o1) = (if sent then next_sector d (advance y) else (y\<lparr>tx_phase := TxLinkLost\<rparr>, []))"
      then show "drives d o1 evs' y' ((if \<not> sent then tx_return (TxLostAt lba)
          else range_loop d kb (i + 1) good' bad' ((lba + 1, stop) # rs)) evs') ended_now"
        using rest [of y' o1 evs'] by (cases sent) (auto simp: ended_now_def y intro!: drives_return)
    qed
  qed
qed

definition tx_session :: "tx_disk \<Rightarrow> (nat \<Rightarrow> nat option) \<Rightarrow> tx_end tx_io" where
  "tx_session d kb = tx_bind (handshake d) (range_loop d kb 0 0 0)"

lemma tx_session_drives:
  "drives d (send_info d) evs tx_init (tx_session d (\<lambda>_. None) evs) ended_now"
  unfolding tx_session_def
proof (rule drives_bind [OF handshake_drives], goal_cases)
  case (2 out rs evs' y o1)
  then show ?case
    by (intro range_loop_drives [of _ _ "tx_init\<lparr>tx_ranges := rs\<rparr>"]) (simp_all add: tx_init_def)
qed (simp add: tx_init_def)

lemma tx_main_session:
  assumes "parse_args argv 1 9600 = Inr (port, baud)" "1 \<le> port" "port \<le> 4"
  shows "tx_main argv (Some geo) bios kb = tx_session (disk_of_geometry geo bios) kb"
proof -
  have "\<not> (port < 1 \<or> port > 4)" using assms(2,3) leD by blast
  then show ?thesis using assms(1) by (simp only: tx_main_def tx_session_def Let_def sum.case prod.case option.case if_False)
qed

text \<open>C9: without a key press, the program of \<open>main.c\<close> started with good options on a disk refines
  the state machine of \<open>DosSender\<close>: given the same received bytes and expired waits it sends
  \<open>INFO\<close> and then exactly the bytes of the machine; it still waits when the machine waits, and
  when it ends, the machine has stopped in the same way with the same totals, and the exit
  status is 3 exactly for a lost link.
\<close>

theorem program_refines_device:
  assumes "parse_args argv 1 9600 = Inr (port, baud)" "1 \<le> port" "port \<le> 4"
    and "tx_events (disk_of_geometry geo bios) evs tx_init = (x, sent)"
    and "tx_main argv (Some geo) bios (\<lambda>_. None) evs = (out, res)"
  shows "out = send_info (disk_of_geometry geo bios) @ sent \<and>
    (case res of
       None \<Rightarrow> waiting (tx_phase x)
     | Some (r, evs') \<Rightarrow> sender_ended r x \<and> exit_code r = (if tx_phase x = TxLinkLost then 3 else 0))"
proof -
  let ?d = "disk_of_geometry geo bios"
  have "drives ?d (send_info ?d) evs tx_init (out, res) ended_now"
    using tx_session_drives [of ?d evs] assms(5) tx_main_session [OF assms(1-3)] by simp
  moreover have "tx_events ?d evs' y = (y, [])" "exit_code r = (if tx_phase y = TxLinkLost then 3 else 0)"
    if "sender_ended r y" for r y evs'
    using that by (cases r; auto intro!: tx_events_ended)+
  ultimately show ?thesis
    using assms(4) by (fastforce simp: drives_def ended_now_def split: option.splits)
qed

section \<open>The end of the range loop\<close>

definition sectors_in :: "(32 word \<times> 32 word) list \<Rightarrow> nat" where
  "sectors_in rs = sum_list (map (\<lambda>(a, b). unat b - unat a) rs)"

lemma send_tries_ends:
  "n \<le> length evs \<Longrightarrow> \<exists>out r evs'. send_tries n fr evs = (out, Some (r, evs')) \<and> length evs \<le> length evs' + n"
proof (induction n arbitrary: evs)
  case (Suc n)
  then obtain e evs1 where evs: "evs = e # evs1" "n \<le> length evs1" by (cases evs) auto
  from Suc.IH [OF evs(2)] show ?case
    by (auto simp: evs(1) tx_bind_def [of "tx_send _"] tx_send_def tx_return_def)
qed (auto simp: tx_return_def)

lemma tx_bind_ends:
  assumes "m evs = (out, Some (a, evs1))" "\<exists>out r evs'. k a evs1 = (out, Some (r, evs')) \<and> length evs1 \<le> length evs' + l"
    and "length evs \<le> length evs1 + n"
  shows "\<exists>out r evs'. tx_bind m k evs = (out, Some (r, evs')) \<and> length evs \<le> length evs' + (n + l)"
  using assms by (fastforce simp: tx_bind_def)

lemma sector_ends:
  assumes "lba < stop" "\<not> abort_key (kb i)" "TX_LINK_TRIES \<le> length evs"
    and rest: "\<And>st buf good' bad' evs1. (case read_with_retries (d_bios d)
          (chs_of (unat (d_heads d)) (unat (d_spt d)) (unat lba)) of
        None \<Rightarrow> (STATUS_BAD, replicate BPS BAD_FILL, good, bad + 1)
      | Some buf \<Rightarrow> (STATUS_GOOD, buf, good + 1, bad)) = (st, buf, good', bad') \<Longrightarrow>
      length evs \<le> length evs1 + TX_LINK_TRIES \<Longrightarrow>
      \<exists>out r evs'. range_loop d kb (i + 1) good' bad' ((lba + 1, stop) # rs) evs1 = (out, Some (r, evs')) \<and>
        length evs1 \<le> length evs' + l"
  shows "\<exists>out r evs'. range_loop d kb i good bad ((lba, stop) # rs) evs = (out, Some (r, evs')) \<and>
    length evs \<le> length evs' + (TX_LINK_TRIES + l)"
proof -
  obtain st buf good' bad' where sector: "(case read_with_retries (d_bios d)
        (chs_of (unat (d_heads d)) (unat (d_spt d)) (unat lba)) of
      None \<Rightarrow> (STATUS_BAD, replicate BPS BAD_FILL, good, bad + 1)
    | Some buf \<Rightarrow> (STATUS_GOOD, buf, good + 1, bad)) = (st, buf, good', bad')"
    and loop: "range_loop d kb i good bad ((lba, stop) # rs) = tx_bind (send_data lba st buf) (\<lambda>sent.
      if \<not> sent then tx_return (TxLostAt lba)
      else range_loop d kb (i + 1) good' bad' ((lba + 1, stop) # rs))"
    by (rule range_loop_sector [of lba stop kb i, OF assms(1,2)])
  let ?k = "\<lambda>sent. if \<not> sent then tx_return (TxLostAt lba)
      else range_loop d kb (i + 1) good' bad' ((lba + 1, stop) # rs)"
  obtain out sent evs1 where send: "send_data lba st buf evs = (out, Some (sent, evs1))"
    "length evs \<le> length evs1 + TX_LINK_TRIES"
    using send_tries_ends [OF assms(3)] unfolding send_data_def by blast
  have "\<exists>out r evs'. ?k sent evs1 = (out, Some (r, evs')) \<and> length evs1 \<le> length evs' + l"
    using rest [OF sector send(2)] by (cases sent) (simp_all add: tx_return_def)
  from tx_bind_ends [of "send_data lba st buf", OF send(1), of ?k l TX_LINK_TRIES, OF this send(2)]
  show ?thesis by (simp add: loop)
qed

lemma eot_ends:
  assumes "TX_LINK_TRIES \<le> length evs"
  shows "\<exists>out r evs'. tx_bind (send_eot good bad) (\<lambda>_. tx_return x) evs = (out, Some (r, evs')) \<and>
    length evs \<le> length evs' + TX_LINK_TRIES"
  using send_tries_ends [OF assms, of "eot_frame good bad"] by (fastforce simp: send_eot_def tx_return_def tx_bind_def)

text \<open>C19: once it has its worklist, the sender always ends, whatever is received, whatever the
  disk and the keyboard do: after at most eight answers or expired waits for each sector of
  the worklist and for the final \<open>EOT\<close>.
\<close>

theorem range_loop_ends:
  assumes "TX_LINK_TRIES * (sectors_in rs + 1) \<le> length evs"
  shows "\<exists>out r evs'. range_loop d kb i good bad rs evs = (out, Some (r, evs')) \<and>
    length evs \<le> length evs' + TX_LINK_TRIES * (sectors_in rs + 1)"
  using assms
proof (induction d kb i good bad rs arbitrary: evs rule: range_loop.induct)
  case (1 d kb i good bad)
  then show ?case by (simp add: range_loop.simps sectors_in_def eot_ends)
next
  case (2 d kb i good bad lba stop rs)
  show ?case
  proof (cases "lba < stop")
    case False
    then have "sectors_in ((lba, stop) # rs) = sectors_in rs"
      by (simp add: sectors_in_def word_le_nat_alt not_less)
    with 2(2) [OF False] 2(3) False show ?thesis by (simp add: range_loop.simps)
  next
    case True
    have count: "sectors_in ((lba, stop) # rs) = Suc (sectors_in ((lba + 1, stop) # rs))"
      using True by (simp add: sectors_in_def unat_suc_below word_less_nat_alt)
    show ?thesis
    proof (cases "abort_key (kb i)")
      case key: True
      have "TX_LINK_TRIES \<le> length evs" using 2(3) by simp
      from eot_ends [OF this, of good bad "TxAborted good bad"] key True show ?thesis
        by (fastforce simp: range_loop.simps)
    next
      case no_key: False
      have "\<exists>out r evs'. range_loop d kb i good bad ((lba, stop) # rs) evs = (out, Some (r, evs')) \<and>
          length evs \<le> length evs' + (TX_LINK_TRIES + TX_LINK_TRIES * (sectors_in ((lba + 1, stop) # rs) + 1))"
      proof (rule sector_ends [of lba stop kb i, OF True no_key], goal_cases)
        case (2 st buf good' bad' evs1)
        then show ?case
          using "2.IH"(1) [OF True no_key refl refl 2(1) [symmetric] refl refl, of True evs1] "2.prems" by (simp add: count)
      qed (use 2(3) in simp)
      then show ?thesis by (simp add: count)
    qed
  qed
qed

section \<open>A small session\<close>

text \<open>
  A disk of two sectors whose second one is bad, and what a host sends to it: noise, the
  command for both sectors, a lost answer, \<open>ACK\<close>, \<open>NAK\<close> and \<open>ACK\<close>s.
\<close>

definition small_bios :: bios where
  "small_bios c t = (case c of (cyl, head, sec) \<Rightarrow> if sec = 1 then Some (replicate 512 0xE5) else None)"

definition small_payload :: "byte list" where
  "small_payload = le_bytes 2 1 @ le_bytes 4 0 @ le_bytes 4 2"

definition small_events :: events where
  "small_events = map Some (0x41 # frame TYPE_CMD small_payload) @
     [None, Some ACK, Some NAK, Some ACK, Some ACK]"

abbreviation small_disk :: tx_disk where
  "small_disk \<equiv> disk_of_geometry (0, 0, 2) small_bios"

lemma tx_events_append:
  "tx_events d (evs @ evs') x =
     (let (x', out) = tx_events d evs x; (x'', out') = tx_events d evs' x' in (x'', out @ out'))"
  by (induction evs arbitrary: x) (simp_all add: case_prod_unfold Let_def)

lemma tx_events_bytes: "tx_events d (map Some bs) x = tx_bytes d bs x"
  by (induction bs arbitrary: x) simp_all

lemma small_command: "cmd_payload [(0, 2)] = Inr small_payload"
  by (simp add: cmd_payload_def to_bytes_le_def small_payload_def)

lemma small_command_heard:
  "\<exists>x. tx_bytes small_disk (0x41 # frame TYPE_CMD small_payload) tx_init =
      next_sector small_disk x \<and> tx_ranges x = [(0, 2)] \<and> tx_good x = 0 \<and> tx_bad x = 0"
proof -
  let ?bs = "tl (frame TYPE_CMD small_payload)"
  let ?x = "tx_init\<lparr>tx_phase := TxHunt 1\<rparr>"
  note parsed = parse_cmd_frame [OF _ _ small_command refl]
  have ws: "\<forall>(a, b)\<in>set [(0, 2)]. a < (2 :: nat) ^ 32 \<and> b < (2 :: nat) ^ 32" "length [(0 :: nat, 2 :: nat)] \<le> MAXR"
    by (simp_all add: MAXR_def)
  have "tx_bytes small_disk (SOH # ?bs) ?x = next_sector small_disk
      (?x\<lparr>tx_phase := TxCmd (butlast ?bs), tx_ranges := range_words [(0, 2)]\<rparr>)"
    by (rule tx_bytes_command [OF parsed(1) [OF ws] parsed(2) [OF ws]]) simp_all
  moreover have "tx_bytes small_disk (0x41 # SOH # ?bs) tx_init = tx_bytes small_disk (SOH # ?bs) ?x"
    by (simp add: tx_byte_def tx_init_def SOH_def)
  ultimately show ?thesis by (fastforce simp: frame_simp tx_init_def)
qed

lemma small_read: "read_with_retries small_bios (cyl, head, sec) = (if sec = 1 then Some (replicate 512 0xE5) else None)"
proof -
  have "read_from small_bios (cyl, head, sec) t n =
      (if sec = 1 \<and> n \<noteq> 0 then Some (replicate 512 0xE5) else None)" for t n
    by (induction n arbitrary: t) (simp_all add: small_bios_def)
  then show ?thesis by (simp add: read_with_retries_def READ_TRIES_def)
qed

lemma small_finished:
  "(case tx_events small_disk small_events tx_init of (x, sent) \<Rightarrow>
      tx_phase x = TxDone \<and> tx_good x = 1 \<and> tx_bad x = 1)"
proof -
  obtain x where "tx_bytes small_disk (0x41 # frame TYPE_CMD small_payload) tx_init =
      next_sector small_disk x" "tx_ranges x = [(0, 2)]" "tx_good x = 0" "tx_bad x = 0"
    using small_command_heard by blast
  then show ?thesis
    unfolding small_events_def tx_events_append tx_events_bytes
    by (simp add: tx_byte_def tx_timeout_def next_sector.simps advance_def resend_data_def TX_LINK_TRIES_def
        ACK_def NAK_def case_prod_unfold Let_def small_read disk_of_geometry_def chs_of_def)
qed

lemma range_loop_ends_witness:
  "\<exists>out r evs'. range_loop (small_disk) (\<lambda>i. if i = 1 then Some 0x1B else None) 0 0 0
      [(0, 2)] (replicate 24 None) = (out, Some (r, evs')) \<and> 24 \<le> length evs' + 24"
  using range_loop_ends [of "[(0, 2)]" "replicate 24 None" "small_disk"
      "\<lambda>i. if i = 1 then Some 0x1B else None" 0 0 0]
  by (simp add: sectors_in_def TX_LINK_TRIES_def)

lemma program_refines_device_witness:
  "\<exists>evs'. tx_main [''/p2''] (Some (0, 0, 2)) small_bios (\<lambda>_. None) small_events =
     (send_info small_disk @ snd (tx_events small_disk small_events tx_init), Some (TxFinished 1 1, evs'))"
proof -
  let ?x = "fst (tx_events small_disk small_events tx_init)" and ?out = "snd (tx_events small_disk small_events tx_init)"
  obtain out res where run: "tx_main [''/p2''] (Some (0, 0, 2)) small_bios (\<lambda>_. None) small_events = (out, res)"
    by fastforce
  have "parse_args [''/p2''] 1 9600 = Inr (2, 9600)" by (simp add: c_atoi_def)
  from program_refines_device [OF this _ _ _ run, of ?x ?out]
  have "out = send_info small_disk @ ?out"
    "case res of None \<Rightarrow> waiting (tx_phase ?x) | Some (r, evs') \<Rightarrow> sender_ended r ?x" by (auto split: option.splits)
  moreover have "tx_phase ?x = TxDone \<and> tx_good ?x = 1 \<and> tx_bad ?x = 1"
    using small_finished by (simp add: case_prod_unfold)
  moreover have "r = TxFinished 1 1" if "sender_ended r x" "tx_phase x = TxDone" "tx_good x = 1" "tx_bad x = 1" for r x
    using that by (cases r) simp_all
  ultimately show ?thesis using run by (auto split: option.splits)
qed

end
