(* ===== verification/ComSender.thy ===== *)
theory ComSender
  imports AsmRoutines DosEquiv
begin

text \<open>
  \<open>TX.COM\<close>, the sender in assembly (\<open>tx-msdos/src/tx.S\<close>), as a program over received bytes and
  expired waits, and what it shares with \<open>WR.COM\<close>: framing, handshake and the retries of a
  frame. INT 13h is a parameter, the outcome of each attempt for the registers of the call
  (\<open>None\<close>: carry flag set); \<open>kb i\<close> is the key \<open>check_abort\<close> finds the \<open>i\<close>-th time. The marks
  on the screen are left out.
\<close>

section \<open>Framing\<close>

text \<open>The 32-bit numbers are pairs of words in memory (\<open>pair32_less\<close>, \<open>pair32_inc\<close>).\<close>

definition lo16 :: "32 word \<Rightarrow> 16 word" where "lo16 w = ucast w"
definition hi16 :: "32 word \<Rightarrow> 16 word" where "hi16 w = ucast (drop_bit 16 w)"

definition put_word :: "16 word \<Rightarrow> byte list" where
  "put_word ax = [ucast ax, ucast (drop_bit 8 ax)]"

text \<open>\<open>SOH\<close>, the body with \<open>put\<close> and the checksum with \<open>send_word_raw\<close>.\<close>

definition com_frame :: "byte list \<Rightarrow> byte list" where
  "com_frame body = [SOH] @ body @ put_word (foldl asm_crc_byte 0xFFFF body)"

definition com_info :: "asm_geometry \<Rightarrow> byte list" where
  "com_info g = com_frame ([TYPE_INFO] @ put_word (ag_total_lo g) @ put_word (ag_total_hi g) @
     put_word (ag_cyls g) @ put_word (ag_heads g) @ put_word (ag_spt g) @ put_word (word_of_nat BPS))"

definition com_data :: "32 word \<Rightarrow> byte \<Rightarrow> byte list \<Rightarrow> byte list" where
  "com_data lba st buf = com_frame ([TYPE_DATA] @ put_word (lo16 lba) @ put_word (hi16 lba) @ [st] @ buf)"

definition com_eot :: "32 word \<Rightarrow> 32 word \<Rightarrow> byte list" where
  "com_eot good bad = com_frame ([TYPE_EOT] @ put_word (lo16 good) @ put_word (hi16 good) @
     put_word (lo16 bad) @ put_word (hi16 bad))"

section \<open>The handshake\<close>

text \<open>
  \<open>recv_command\<close>: the bytes of the ranges are read in one loop. For what is received the checksum
  is written as \<open>crc16_update\<close> (\<open>asm_crc_byte_eq\<close>).
\<close>

definition com_command :: "(32 word \<times> 32 word) list option tx_io" where
  "com_command = tx_bind (hunt_command 300) (\<lambda>found.
     if \<not> found then tx_return None
     else tx_bind tx_wait (\<lambda>t.
       if t \<noteq> Some TYPE_CMD then tx_return None
       else tx_bind (recv_bytes 2 (crc16_update 0xFFFF TYPE_CMD)) (\<lambda>res.
         case res of
           None \<Rightarrow> tx_return None
         | Some (p, crc) \<Rightarrow>
             (let count = unat (word16_at 0 p) in
              if count > MAXR then tx_return None
              else tx_bind (recv_bytes (8 * count) crc) (\<lambda>res.
                case res of
                  None \<Rightarrow> tx_return None
                | Some (q, crc') \<Rightarrow> tx_bind (recv_bytes 2 crc') (\<lambda>res.
                    case res of
                      None \<Rightarrow> tx_return None
                    | Some (c, _) \<Rightarrow>
                        tx_return (if word16_at 0 c \<noteq> crc' then None
                          else Some (map (\<lambda>i. (word32_at (8 * i) q, word32_at (8 * i + 4) q)) [0..<count]))))))))"

lemma com_command_eq: "com_command = recv_command"
proof -
  have sum: "(\<lambda>res. case res of None \<Rightarrow> tx_return None
      | Some (c, _) \<Rightarrow> tx_return (if word16_at 0 c \<noteq> crc' then None
          else Some (map (\<lambda>i. (word32_at (8 * i) q, word32_at (8 * i + 4) q)) [0..<count]))) = check_sum count q crc'"
    for crc' q count
    by (rule ext) (simp add: check_sum_def ranges_at_def split: option.split)
  have ranges: "(\<lambda>res. case res of None \<Rightarrow> tx_return None
      | Some (q, crc') \<Rightarrow> tx_bind (recv_bytes 2 crc') (\<lambda>res. case res of None \<Rightarrow> tx_return None
          | Some (c, _) \<Rightarrow> tx_return (if word16_at 0 c \<noteq> crc' then None
              else Some (map (\<lambda>i. (word32_at (8 * i) q, word32_at (8 * i + 4) q)) [0..<count])))) = check_ranges count"
    for count
    unfolding sum by (rule ext) (simp add: check_ranges_def split: option.split)
  show ?thesis
    unfolding com_command_def recv_command_alt Let_def ranges
    by (simp only: check_count_def [abs_def])
qed

function com_handshake :: "asm_geometry \<Rightarrow> (32 word \<times> 32 word) list tx_io" where
  "com_handshake g evs =
     (case com_command evs of
        (out, None) \<Rightarrow> (com_info g @ out, None)
      | (out, Some (Some rs, evs')) \<Rightarrow> (com_info g @ out, Some (rs, evs'))
      | (out, Some (None, evs')) \<Rightarrow>
          (let (out', res) = com_handshake g evs' in (com_info g @ out @ out', res)))"
  by pat_completeness auto
termination
  by (relation "measure (\<lambda>(g, evs). length evs)")
     (auto simp: com_command_eq dest: recv_command_shorter [OF sym])

declare com_handshake.simps [simp del]

section \<open>The sectors\<close>

definition COM_LINK_TRIES :: nat where "COM_LINK_TRIES = 16"

definition com_send_data :: "32 word \<Rightarrow> byte \<Rightarrow> byte list \<Rightarrow> bool tx_io" where
  "com_send_data lba st buf = send_tries COM_LINK_TRIES (com_data lba st buf)"

definition com_send_eot :: "32 word \<Rightarrow> 32 word \<Rightarrow> bool tx_io" where
  "com_send_eot good bad = send_tries COM_LINK_TRIES (com_eot good bad)"

type_synonym int13_reads = "chs_regs \<Rightarrow> nat \<Rightarrow> byte list option"

text \<open>\<open>read_sector\<close>: status and buffer.\<close>

definition com_read_sector :: "int13_reads \<Rightarrow> chs \<Rightarrow> byte \<times> byte list" where
  "com_read_sector rd cur =
     (case read_from (\<lambda>a t. rd (sector_regs a) t) cur 0 READ_TRIES of
        None \<Rightarrow> (1, replicate BPS 0)
      | Some buf \<Rightarrow> (0, buf))"

datatype com_end =
    ComNoDisk
  | ComDivideError
  | ComLost
  | ComAborted "32 word" "32 word"
  | ComDone "32 word" "32 word"

fun com_exit :: "com_end \<Rightarrow> nat option" where
  "com_exit ComNoDisk = Some 1"
| "com_exit ComDivideError = None"
| "com_exit ComLost = Some 2"
| "com_exit (ComAborted good bad) = Some 3"
| "com_exit (ComDone good bad) = Some 0"

text \<open>\<open>next_range\<close>, \<open>range_loop\<close> and \<open>do_sector\<close>.\<close>

function com_loop ::
  "asm_geometry \<Rightarrow> int13_reads \<Rightarrow> (nat \<Rightarrow> nat option) \<Rightarrow> nat \<Rightarrow> 32 word \<Rightarrow> 32 word \<Rightarrow>
    (32 word \<times> 32 word) list \<Rightarrow> com_end tx_io" where
  "com_loop g rd kb i good bad [] =
     tx_bind (com_send_eot good bad) (\<lambda>_. tx_return (ComDone good bad))"
| "com_loop g rd kb i good bad ((lba, stop) # rs) =
     (if lba < stop
      then (if abort_key (kb i)
            then tx_bind (com_send_eot good bad) (\<lambda>_. tx_return (ComAborted good bad))
            else (case lba_to_chs (ag_heads g) (ag_spt g) (hi16 lba, lo16 lba) of
                    None \<Rightarrow> tx_return ComDivideError
                  | Some cur \<Rightarrow>
                      (let (st, buf) = com_read_sector rd cur;
                           (good', bad') = (if st \<noteq> 0 then (good, bad + 1) else (good + 1, bad))
                       in tx_bind (com_send_data lba st buf) (\<lambda>sent.
                            if \<not> sent then tx_return ComLost
                            else com_loop g rd kb (i + 1) good' bad' ((lba + 1, stop) # rs)))))
      else com_loop g rd kb i good bad rs)"
  by pat_completeness auto

termination
proof (relation "measure (\<lambda>(g, rd, kb, i, good, bad, rs). sum_list (map (\<lambda>(a, b). Suc (unat b - unat a)) rs))", goal_cases)
  case (2 g rd kb i good bad lba stop rs)
  then have "unat lba < unat stop" "unat (lba + 1) = Suc (unat lba)"
    by (simp_all add: word_less_nat_alt unat_suc_below)
  then show ?case by simp
qed simp_all

declare com_loop.simps [simp del]

text \<open>The port writes that set the UART up, and the program after them.\<close>

definition com_main ::
  "byte list \<Rightarrow> bool \<times> chs_regs \<Rightarrow> int13_reads \<Rightarrow> (nat \<Rightarrow> nat option) \<Rightarrow>
    (16 word \<times> 8 word) list \<times> com_end tx_io" where
  "com_main tail geo rd kb =
     (let (portbase, divisor) = parse_tail tail in
      (uart_init portbase divisor,
       case get_geom geo of
         None \<Rightarrow> tx_return ComNoDisk
       | Some g \<Rightarrow> tx_bind (com_handshake g) (\<lambda>ranges. com_loop g rd kb 0 0 0 ranges)))"

section \<open>The frames are those of the C program\<close>

lemma pair32_split [simp]: "pair32 (hi16 w) (lo16 w) = w"
proof (rule bit_word_eqI)
  fix n :: nat
  assume "n < LENGTH(32)"
  then show "bit (pair32 (hi16 w) (lo16 w)) n = bit w n"
    by (cases "n < 16") (auto simp: pair32_def hi16_def lo16_def bit_simps)
qed

lemma put_pair: "put_word (lo16 w) @ put_word (hi16 w) = bytes32 w"
proof -
  have "ucast (lo16 w) = (ucast (w AND 0xFF) :: byte)" "ucast (drop_bit 8 (lo16 w)) = (ucast (drop_bit 8 w AND 0xFF) :: byte)"
    "ucast (hi16 w) = (ucast (drop_bit 16 w AND 0xFF) :: byte)"
    "ucast (drop_bit 8 (hi16 w)) = (ucast (drop_bit 24 w AND 0xFF) :: byte)"
    unfolding ucast_and_FF by (rule bit_word_eqI, simp add: lo16_def hi16_def bit_simps)+
  then show ?thesis by (simp add: put_word_def bytes32_def)
qed

lemma lo16_pair [simp]: "lo16 (pair32 hi lo) = lo"
  by (rule bit_word_eqI) (auto simp: lo16_def pair32_def bit_simps)

lemma hi16_pair [simp]: "hi16 (pair32 hi lo) = hi"
  by (rule bit_word_eqI) (auto simp: hi16_def pair32_def bit_simps dest: bit_imp_le_length)

lemma put_word_eq: "put_word w = bytes16 w"
  by (simp add: put_word_def bytes16_def ucast_and_FF)

lemma com_frame_eq: "com_frame = tx_frame"
  by (rule ext) (simp add: com_frame_def tx_frame_def put_word_def ucast_and_FF asm_crc_byte_eq [abs_def] Let_def)

lemma com_data_eq: "com_data lba st buf = data_frame lba st buf"
  using put_pair [of lba] by (simp add: com_data_def com_frame_eq data_frame_def) (metis append_assoc)

lemma com_eot_eq: "com_eot good bad = eot_frame good bad"
  using put_pair [of good] put_pair [of bad] by (simp add: com_eot_def com_frame_eq eot_frame_def) (metis append_assoc)

text \<open>The disk of the C program for the same registers and reads.\<close>

definition com_disk :: "chs_regs \<Rightarrow> int13_reads \<Rightarrow> tx_disk" where
  "com_disk regs rd = disk_of_geometry (unpack_geometry regs) (\<lambda>a t. rd (pack_chs a) t)"

lemma d_bios_com [simp]: "d_bios (com_disk regs rd) = (\<lambda>a t. rd (pack_chs a) t)"
  by (simp add: com_disk_def disk_of_geometry_def Let_def case_prod_unfold)

lemma com_geometry:
  obtains g where "get_geom (False, regs) = Some g"
    "ag_heads g = d_heads (com_disk regs rd)" "ag_spt g = d_spt (com_disk regs rd)"
    "com_info g = send_info (com_disk regs rd)" "com_handshake g = handshake (com_disk regs rd)"
proof -
  obtain ch cl dh where regs: "regs = (ch, cl, dh)" by (cases regs)
  let ?d = "com_disk regs rd"
  obtain g where g: "get_geom (False, ch, cl, dh) = Some g" "ag_cyls g = d_cyls ?d" "ag_heads g = d_heads ?d"
    "ag_spt g = d_spt ?d" "pair32 (ag_total_hi g) (ag_total_lo g) = d_total ?d"
    by (rule get_geom_eq [OF com_disk_def [of regs rd, unfolded regs]]) (simp only: regs)
  have "put_word (ag_total_lo g) @ put_word (ag_total_hi g) = bytes32 (d_total ?d)"
    using put_pair [of "d_total ?d"] by (simp add: g(5) [symmetric])
  then have info: "com_info g = send_info ?d"
    by (simp add: com_info_def com_frame_eq send_info_def tx_info_def put_word_eq g) (metis append_assoc)
  have "com_handshake g evs = handshake ?d evs" for evs
  proof (induction evs rule: measure_induct_rule [of length])
    case (less evs)
    then show ?case
      by (auto simp: com_handshake.simps [of g evs] handshake.simps [of ?d evs] info com_command_eq
          split: prod.split option.split dest: recv_command_shorter)
  qed
  with g info that show thesis by (auto simp: regs)
qed

lemma com_read_sector_eq:
  "com_read_sector rd cur =
    (case read_with_retries (\<lambda>a t. rd (pack_chs a) t) cur of
       None \<Rightarrow> (STATUS_BAD, replicate BPS BAD_FILL) | Some buf \<Rightarrow> (STATUS_GOOD, buf))"
  by (simp add: com_read_sector_def read_with_retries_def sector_regs_eq proto_defs BAD_FILL_def
      split: option.split)

text \<open>A round of the loop on the disk as \<open>com_disk\<close> has it.\<close>

lemma com_loop_sector:
  assumes "lba < stop" "\<not> abort_key (kb i)"
    and "ag_heads g = d_heads (com_disk regs rd)" "ag_spt g = d_spt (com_disk regs rd)" "d_spt (com_disk regs rd) \<noteq> 0"
  shows "com_loop g rd kb i good bad ((lba, stop) # rs) =
    (let (st, buf, good', bad') =
       (case read_with_retries (d_bios (com_disk regs rd)) (chs_of (unat (ag_heads g)) (unat (ag_spt g)) (unat lba)) of
          None \<Rightarrow> (STATUS_BAD, replicate BPS BAD_FILL, good, bad + 1)
        | Some buf \<Rightarrow> (STATUS_GOOD, buf, good + 1, bad))
     in tx_bind (send_tries COM_LINK_TRIES (data_frame lba st buf)) (\<lambda>sent.
          if \<not> sent then tx_return ComLost
          else com_loop g rd kb (i + 1) good' bad' ((lba + 1, stop) # rs)))"
proof -
  obtain ch cl dh where regs: "regs = (ch, cl, dh)" by (cases regs)
  have "d_heads (com_disk regs rd) \<noteq> 0"
    using geometry_nonzero(1) [OF com_disk_def [of regs rd, unfolded regs]] by (simp add: regs)
  then have "lba_to_chs (ag_heads g) (ag_spt g) (hi16 lba, lo16 lba) =
      Some (chs_of (unat (ag_heads g)) (unat (ag_spt g)) (unat lba))"
    using assms by (simp add: lba_to_chs_eq)
  then show ?thesis
    using assms(1,2)
    by (simp add: com_loop.simps com_read_sector_eq com_send_data_def com_data_eq proto_defs Let_def split: option.split)
qed

section \<open>More tries\<close>

text \<open>The second run goes on as the first one, at least as long as that one does.\<close>

definition runs_on :: "byte list \<times> ('a \<times> events) option \<Rightarrow> byte list \<times> ('b \<times> events) option \<Rightarrow> bool" where
  "runs_on r r' \<longleftrightarrow> (snd r = None \<longrightarrow> r' = (fst r, None)) \<and> (\<exists>more. fst r' = fst r @ more)"

lemma send_tries_more:
  assumes "send_tries n fr evs = (out, r)"
  shows "(r = None \<longrightarrow> send_tries (n + m) fr evs = (out, None))
    \<and> (\<forall>e. r = Some (True, e) \<longrightarrow> send_tries (n + m) fr evs = (out, Some (True, e)))
    \<and> (\<forall>e. r = Some (False, e) \<longrightarrow> (\<exists>more. fst (send_tries (n + m) fr evs) = out @ more))"
  using assms
proof (induction n arbitrary: evs out r)
  case 0
  then show ?case by (auto simp: tx_return_def)
next
  case (Suc n)
  show ?case
  proof (cases evs)
    case Nil
    with Suc.prems show ?thesis by (simp add: tx_bind_def [of "tx_send _"] tx_send_def)
  next
    case (Cons e evs1)
    show ?thesis
    proof (cases "e = Some ACK")
      case True
      with Cons Suc.prems show ?thesis by (auto simp: tx_bind_def [of "tx_send _"] tx_send_def tx_return_def)
    next
      case False
      obtain o1 where o1: "send_tries n fr evs1 = (o1, r)" "out = fr @ o1"
        using Suc.prems Cons False by (auto simp: tx_bind_def [of "tx_send _"] tx_send_def Let_def split: prod.splits)
      from Suc.IH [OF o1(1)] show ?thesis
        using Cons False o1(2) by (auto simp: tx_bind_def [of "tx_send _"] tx_send_def case_prod_unfold)
    qed
  qed
qed

lemma runs_on_tries:
  assumes "\<And>evs'. runs_on (k True evs') (k' True evs')"
    and "\<And>evs'. fst (k False evs') = [] \<and> snd (k False evs') \<noteq> None"
  shows "runs_on (tx_bind (send_tries n fr) k evs) (tx_bind (send_tries (n + m) fr) k' evs)"
proof -
  obtain out r where run: "send_tries n fr evs = (out, r)" by fastforce
  note more = send_tries_more [OF run, of m]
  show ?thesis
  proof (cases r)
    case None
    with more run show ?thesis by (simp add: runs_on_def tx_bind_def)
  next
    case (Some q)
    obtain sent evs' where q: "q = (sent, evs')" by (cases q)
    show ?thesis
    proof (cases sent)
      case True
      with more run Some q assms(1) [of evs'] show ?thesis
        by (auto simp: runs_on_def tx_bind_def case_prod_unfold Let_def prod_eq_iff)
    next
      case False
      then obtain rest where "fst (send_tries (n + m) fr evs) = out @ rest" using more Some q by auto
      then show ?thesis
        using run Some q False assms(2) [of evs']
        by (auto simp: runs_on_def tx_bind_def case_prod_unfold Let_def split: option.split)
    qed
  qed
qed

section \<open>One sender for both programs\<close>

text \<open>
  The loop over the ranges with the number of tries of a frame left open. The C program gives a
  frame \<open>TX_LINK_TRIES\<close> tries, \<open>TX.COM\<close> gives it \<open>COM_LINK_TRIES\<close>; how \<open>TX.COM\<close> ends tells less than
  the message of the C program.
\<close>

function sender ::
  "nat \<Rightarrow> tx_disk \<Rightarrow> (nat \<Rightarrow> nat option) \<Rightarrow> nat \<Rightarrow> 32 word \<Rightarrow> 32 word \<Rightarrow> (32 word \<times> 32 word) list \<Rightarrow>
    tx_end tx_io" where
  "sender n d kb i good bad [] =
     tx_bind (send_tries n (eot_frame good bad)) (\<lambda>_. tx_return (TxFinished good bad))"
| "sender n d kb i good bad ((lba, stop) # rs) =
     (if \<not> lba < stop then sender n d kb i good bad rs
      else if abort_key (kb i)
      then tx_bind (send_tries n (eot_frame good bad)) (\<lambda>_. tx_return (TxAborted good bad))
      else (let (st, buf, good', bad') =
              (case read_with_retries (d_bios d) (chs_of (unat (d_heads d)) (unat (d_spt d)) (unat lba)) of
                 None \<Rightarrow> (STATUS_BAD, replicate BPS BAD_FILL, good, bad + 1)
               | Some buf \<Rightarrow> (STATUS_GOOD, buf, good + 1, bad))
            in tx_bind (send_tries n (data_frame lba st buf)) (\<lambda>sent.
                 if \<not> sent then tx_return (TxLostAt lba)
                 else sender n d kb (i + 1) good' bad' ((lba + 1, stop) # rs))))"
  by pat_completeness auto

termination
proof (relation "measure (\<lambda>(n, d, kb, i, good, bad, rs). sum_list (map (\<lambda>(a, b). Suc (unat b - unat a)) rs))", goal_cases)
  case (3 n d kb i good bad lba stop rs)
  then have "unat lba < unat stop" "unat (lba + 1) = Suc (unat lba)"
    by (simp_all add: word_less_nat_alt unat_suc_below)
  then show ?case by simp
qed simp_all

declare sender.simps [simp del]

definition sender_run :: "nat \<Rightarrow> tx_disk \<Rightarrow> (nat \<Rightarrow> nat option) \<Rightarrow> tx_end tx_io" where
  "sender_run n d kb = tx_bind (handshake d) (sender n d kb 0 0 0)"

fun com_end_of :: "tx_end \<Rightarrow> com_end" where
  "com_end_of (TxFinished good bad) = ComDone good bad"
| "com_end_of (TxAborted good bad) = ComAborted good bad"
| "com_end_of (TxLostAt lba) = ComLost"
| "com_end_of _ = ComNoDisk"

lemma sender_sector:
  assumes "lba < stop" "\<not> abort_key (kb i)"
    and "(case read_with_retries (d_bios d) (chs_of (unat (d_heads d)) (unat (d_spt d)) (unat lba)) of
        None \<Rightarrow> (STATUS_BAD, replicate BPS BAD_FILL, good, bad + 1)
      | Some buf \<Rightarrow> (STATUS_GOOD, buf, good + 1, bad)) = (st, buf, good', bad')"
  shows "sender n d kb i good bad ((lba, stop) # rs) = tx_bind (send_tries n (data_frame lba st buf)) (\<lambda>sent.
      if \<not> sent then tx_return (TxLostAt lba)
      else sender n d kb (i + 1) good' bad' ((lba + 1, stop) # rs))"
  by (rule ext) (use assms in \<open>simp add: sender.simps\<close>)

lemma range_loop_sender: "range_loop d kb i good bad rs = sender TX_LINK_TRIES d kb i good bad rs"
proof (induction d kb i good bad rs rule: range_loop.induct)
  case (2 d kb i good bad lba stop rs)
  consider "\<not> lba < stop" | "lba < stop" "abort_key (kb i)" | "lba < stop" "\<not> abort_key (kb i)" by blast
  then show ?case
  proof cases
    case 3
    obtain st buf good' bad' where sector: "(case read_with_retries (d_bios d)
        (chs_of (unat (d_heads d)) (unat (d_spt d)) (unat lba)) of
        None \<Rightarrow> (STATUS_BAD, replicate BPS BAD_FILL, good, bad + 1)
      | Some buf \<Rightarrow> (STATUS_GOOD, buf, good + 1, bad)) = (st, buf, good', bad')"
      and c: "range_loop d kb i good bad ((lba, stop) # rs) =
        tx_bind (send_data lba st buf) (\<lambda>sent. if \<not> sent then tx_return (TxLostAt lba)
          else range_loop d kb (i + 1) good' bad' ((lba + 1, stop) # rs))"
      by (rule range_loop_sector [of lba stop kb i, OF 3])
    have "range_loop d kb (i + 1) good' bad' ((lba + 1, stop) # rs) =
        sender TX_LINK_TRIES d kb (i + 1) good' bad' ((lba + 1, stop) # rs)"
      using 2(1) [OF 3 refl sector [symmetric] refl refl] by simp
    then show ?thesis unfolding c sender_sector [of lba stop kb i, OF 3 sector] send_data_def by (simp only:)
  qed (use 2(2) in \<open>simp_all add: range_loop.simps sender.simps send_eot_def\<close>)
qed (simp add: range_loop.simps sender.simps send_eot_def)

lemma com_loop_sender:
  assumes "ag_heads g = d_heads (com_disk regs rd)" "ag_spt g = d_spt (com_disk regs rd)" "d_spt (com_disk regs rd) \<noteq> 0"
  shows "com_loop g rd kb i good bad rs =
    tx_bind (sender COM_LINK_TRIES (com_disk regs rd) kb i good bad rs) (\<lambda>e. tx_return (com_end_of e))"
proof (induction COM_LINK_TRIES "com_disk regs rd" kb i good bad rs rule: sender.induct)
  case (1 kb i good bad)
  show ?case by (simp add: com_loop.simps sender.simps com_send_eot_def com_eot_eq tx_bind_assoc)
next
  case (2 kb i good bad lba stop rs)
  let ?d = "com_disk regs rd"
  consider "\<not> lba < stop" | "lba < stop" "abort_key (kb i)" | "lba < stop" "\<not> abort_key (kb i)" by blast
  then show ?case
  proof cases
    case 3
    obtain st buf good' bad' where sector: "(case read_with_retries (d_bios ?d)
        (chs_of (unat (d_heads ?d)) (unat (d_spt ?d)) (unat lba)) of
        None \<Rightarrow> (STATUS_BAD, replicate BPS BAD_FILL, good, bad + 1)
      | Some buf \<Rightarrow> (STATUS_GOOD, buf, good + 1, bad)) = (st, buf, good', bad')"
      by (metis prod_cases4)
    have com: "com_loop g rd kb i good bad ((lba, stop) # rs) =
        tx_bind (send_tries COM_LINK_TRIES (data_frame lba st buf)) (\<lambda>sent. if \<not> sent then tx_return ComLost
          else com_loop g rd kb (i + 1) good' bad' ((lba + 1, stop) # rs))"
      unfolding com_loop_sector [of lba stop kb i, OF 3 assms]
      unfolding assms(1,2) sector Let_def prod.case ..
    have rest: "com_loop g rd kb (i + 1) good' bad' ((lba + 1, stop) # rs) =
        tx_bind (sender COM_LINK_TRIES ?d kb (i + 1) good' bad' ((lba + 1, stop) # rs)) (\<lambda>e. tx_return (com_end_of e))"
      using 2(2) 3 sector by simp
    show ?thesis
      unfolding com sender_sector [of lba stop kb i, OF 3 sector] tx_bind_assoc rest
      by (rule tx_bind_ext) simp
  qed (use 2(1) in \<open>simp_all add: com_loop.simps sender.simps com_send_eot_def com_eot_eq tx_bind_assoc\<close>)
qed

text \<open>More tries only make a difference once the frame is given up.\<close>

lemma sender_more: "runs_on (sender n d kb i good bad rs evs) (sender (n + m) d kb i good bad rs evs)"
proof (induction n d kb i good bad rs arbitrary: evs rule: sender.induct)
  case (1 n d kb i good bad)
  show ?case unfolding sender.simps by (rule runs_on_tries) (simp_all add: runs_on_def tx_return_def)
next
  case (2 n d kb i good bad lba stop rs)
  consider "\<not> lba < stop" | "lba < stop" "abort_key (kb i)" | "lba < stop" "\<not> abort_key (kb i)" by blast
  then show ?case
  proof cases
    case 1
    with 2(1) show ?thesis by (simp add: sender.simps)
  next
    case 2
    then have "sender l d kb i good bad ((lba, stop) # rs) =
        tx_bind (send_tries l (eot_frame good bad)) (\<lambda>_. tx_return (TxAborted good bad))" for l
      by (simp add: sender.simps)
    then show ?thesis
      by (simp only:) (rule runs_on_tries, simp_all add: runs_on_def tx_return_def)
  next
    case 3
    obtain st buf good' bad' where sector: "(case read_with_retries (d_bios d)
        (chs_of (unat (d_heads d)) (unat (d_spt d)) (unat lba)) of
        None \<Rightarrow> (STATUS_BAD, replicate BPS BAD_FILL, good, bad + 1)
      | Some buf \<Rightarrow> (STATUS_GOOD, buf, good + 1, bad)) = (st, buf, good', bad')"
      by (metis prod_cases4)
    have rest: "runs_on (sender n d kb (i + 1) good' bad' ((lba + 1, stop) # rs) evs')
        (sender (n + m) d kb (i + 1) good' bad' ((lba + 1, stop) # rs) evs')" for evs'
      using 2(2) 3 sector by simp
    show ?thesis
      unfolding sender_sector [of lba stop kb i, OF 3 sector]
      by (rule runs_on_tries) (use rest in \<open>simp_all add: tx_return_def\<close>)
  qed
qed

lemma com_tries: "COM_LINK_TRIES = TX_LINK_TRIES + 8"
  by (simp add: COM_LINK_TRIES_def TX_LINK_TRIES_def)

lemma sender_run_more:
  assumes "sender_run n d kb evs = (out, None)"
  shows "sender_run (n + m) d kb evs = (out, None)"
proof -
  obtain o1 r where h: "handshake d evs = (o1, r)" by fastforce
  show ?thesis
  proof (cases r)
    case None
    with assms h show ?thesis by (simp add: sender_run_def tx_bind_def)
  next
    case (Some x)
    obtain rs evs1 where x: "x = (rs, evs1)" by (cases x)
    show ?thesis
      using assms h sender_more [of n d kb 0 0 0 rs evs1 m]
      by (simp add: sender_run_def tx_bind_def Some x runs_on_def case_prod_unfold Let_def prod_eq_iff)
  qed
qed

section \<open>Properties\<close>

lemma com_disk_spt: "d_spt (com_disk (ch, cl, dh) rd) = 0 \<longleftrightarrow> cl AND 0x3F = 0"
  by (rule geometry_nonzero(2)) (simp only: com_disk_def)

lemma tx_main_sender:
  assumes "1 \<le> port" "port \<le> 4" "parse_args argv 1 9600 = Inr (port, baud)"
  shows "tx_main argv (Some (unpack_geometry regs)) (\<lambda>a t. rd (pack_chs a) t) kb =
    sender_run TX_LINK_TRIES (com_disk regs rd) kb"
proof -
  have "range_loop d kb 0 0 0 = sender TX_LINK_TRIES d kb 0 0 0" for d by (rule ext) (rule range_loop_sender)
  then show ?thesis
    using assms by (simp add: tx_main_def com_disk_def sender_run_def Let_def linorder_not_less [symmetric])
qed

lemma com_main_sender:
  assumes "cl AND 0x3F \<noteq> 0"
  shows "snd (com_main tail (False, ch, cl, dh) rd kb) =
    tx_bind (sender_run COM_LINK_TRIES (com_disk (ch, cl, dh) rd) kb) (\<lambda>e. tx_return (com_end_of e))"
proof -
  let ?d = "com_disk (ch, cl, dh) rd"
  obtain g where g: "get_geom (False, ch, cl, dh) = Some g" "ag_heads g = d_heads ?d" "ag_spt g = d_spt ?d"
    "com_handshake g = handshake ?d"
    by (rule com_geometry [of "(ch, cl, dh)" rd])
  have "d_spt ?d \<noteq> 0" using com_disk_spt assms by simp
  note loop = com_loop_sender [OF g(2,3) this]
  show ?thesis
    by (simp add: com_main_def g(1,4) case_prod_unfold Let_def sender_run_def tx_bind_assoc loop [abs_def])
qed

text \<open>C10: \<open>TX.COM\<close> and the C program with the same port and rate set the UART up with the same
  writes (the C program turns its interrupts off before), and on the same disk and keyboard
  they are the same sender, but for the number of tries: for every sequence of received bytes
  and expired waits the C program does exactly what the sender does that gives a frame
  \<open>TX_LINK_TRIES\<close> tries, \<open>TX.COM\<close> exactly what it does with \<open>COM_LINK_TRIES\<close> of them: the same
  bytes sent, the same events consumed, the corresponding end with the same totals. As long as
  the C program has not ended the number makes no difference: \<open>TX.COM\<close> has sent the same bytes
  and waits at the same place. (The sequences without expired waits are those \<open>TX.COM\<close> meets on
  the machine.)\<close>

theorem tx_com_as_c:
  assumes "p < 4" "b < 7" "tail = [0x20, word_of_nat (49 + p), 0x20, word_of_nat (49 + b)]"
    and "parse_args argv 1 9600 = Inr (word_of_nat (p + 1), rates ! b)" "cl AND 0x3F \<noteq> 0"
    and c: "tx_main argv (Some (unpack_geometry (ch, cl, dh))) (\<lambda>a t. rd (pack_chs a) t) kb = c_prog"
    and com: "com_main tail (False, ch, cl, dh) rd kb = (writes, com_prog)"
  shows "serial_init (com_base (word_of_nat (p + 1))) (rates ! b) =
      (com_base (word_of_nat (p + 1)) + 1, 0) # writes
    \<and> c_prog = sender_run TX_LINK_TRIES (com_disk (ch, cl, dh) rd) kb
    \<and> com_prog = tx_bind (sender_run COM_LINK_TRIES (com_disk (ch, cl, dh) rd) kb) (\<lambda>e. tx_return (com_end_of e))
    \<and> (\<forall>evs out. c_prog evs = (out, None) \<longrightarrow> com_prog evs = (out, None))"
proof -
  have "p \<in> {0, 1, 2, 3}" using assms(1) by auto
  then have port: "1 \<le> (word_of_nat (p + 1) :: 16 word)" "(word_of_nat (p + 1) :: 16 word) \<le> 4" by auto
  have "writes = uart_init (com_base (word_of_nat (p + 1))) (uart_divisor (rates ! b))"
    using com tail_options [OF assms(1,2)] by (simp add: com_main_def assms(3))
  moreover have c': "c_prog = sender_run TX_LINK_TRIES (com_disk (ch, cl, dh) rd) kb"
    using tx_main_sender [OF port assms(4)] c by simp
  moreover have com': "com_prog = tx_bind (sender_run COM_LINK_TRIES (com_disk (ch, cl, dh) rd) kb) (\<lambda>e. tx_return (com_end_of e))"
    using com_main_sender [OF assms(5), of tail ch dh rd kb] com by simp
  moreover have "com_prog evs = (out, None)" if "c_prog evs = (out, None)" for evs out
    using sender_run_more [OF that [unfolded c'], of 8] by (simp add: com' com_tries tx_bind_def)
  ultimately show ?thesis by (simp add: uart_init_eq)
qed

theorem tx_com_as_c_witness:
  "snd (com_main [0x20, 0x32, 0x20, 0x35] (False, 0, 2, 0) (\<lambda>_ _. None) (\<lambda>_. None)) [Some 0x41, Some 0x42] =
    (send_info (com_disk (0, 2, 0) (\<lambda>_ _. None)), None)"
proof -
  let ?rd = "\<lambda>_ _. None" and ?kb = "\<lambda>_. None" and ?evs = "[Some 0x41, Some 0x42]"
  have p: "parse_args [''-p2'', ''/b115200''] 1 9600 = Inr (word_of_nat (1 + 1), rates ! 4)"
    by (simp add: c_atoi_def rates_def)
  have hunt: "hunt_command 300 ?evs = ([], None)"
    using hunt_command.simps(2) [of 299] hunt_command.simps(2) [of 298] hunt_command.simps(2) [of 297]
    by (simp add: SOH_def)
  have "handshake d ?evs = (send_info d, None)" for d
    by (simp add: handshake.simps recv_command_def tx_bind_def [of "hunt_command _"] hunt)
  then have c: "tx_main [''-p2'', ''/b115200''] (Some (unpack_geometry (0, 2, 0))) (\<lambda>a t. ?rd (pack_chs a) t) ?kb ?evs =
      (send_info (com_disk (0, 2, 0) ?rd), None)"
    using p by (simp add: tx_main_def tx_bind_def [of "handshake _"] com_disk_def Let_def)
  obtain writes prog where com: "com_main [0x20, 0x32, 0x20, 0x35] (False, 0, 2, 0) ?rd ?kb = (writes, prog)" by fastforce
  have "(1 :: nat) < 4" "(4 :: nat) < 7" "[0x20, 0x32, 0x20, 0x35] = [0x20, word_of_nat (49 + 1), 0x20, word_of_nat (49 + 4 :: nat) :: byte]"
    "(2 :: 8 word) AND 0x3F \<noteq> 0" by simp_all
  note as_c = tx_com_as_c [OF this(1-3) p this(4) refl com, THEN conjunct2, THEN conjunct2, THEN conjunct2, rule_format]
  show ?thesis using as_c [OF c] by (simp add: com)
qed

end
