(* ===== verification/ComWriter.thy ===== *)
theory ComWriter
  imports ComSender
begin

text \<open>
  \<open>WR.COM\<close>, the writer of the restore (\<open>tx-msdos/src/wr.S\<close>), as a program over received bytes
  and expired waits. What it does is a list of actions: bytes sent and calls of INT 13h that
  write a sector. Whether a call succeeds is a parameter of registers, buffer and attempt.
\<close>

section \<open>Actions\<close>

datatype wr_action =
    Sent byte
  | WriteCall chs_regs "byte list" bool

type_synonym 'a wr_io = "(wr_action, 'a) dos_io"

text \<open>A part of the program that only sends.\<close>

definition sending :: "'a tx_io \<Rightarrow> 'a wr_io" where
  "sending m evs = (case m evs of (out, r) \<Rightarrow> (map Sent out, r))"

section \<open>Receiving a sector\<close>

text \<open>
  \<open>recv_data\<close> from the type byte on; \<open>None\<close> is a jump to \<open>rd_nak\<close>. The frame's sector number
  is \<open>rlba\<close>; its status byte only goes into the checksum.
\<close>

definition wr_frame :: "(32 word \<times> byte list) option tx_io" where
  "wr_frame = tx_bind tx_wait (\<lambda>t.
     if t \<noteq> Some TYPE_DATA then tx_return None
     else tx_bind (recv_bytes 4 (crc16_update 0xFFFF TYPE_DATA)) (\<lambda>res.
       case res of
         None \<Rightarrow> tx_return None
       | Some (rlba, crc) \<Rightarrow> tx_bind (recv_bytes 1 crc) (\<lambda>res.
           case res of
             None \<Rightarrow> tx_return None
           | Some (_, crc) \<Rightarrow> tx_bind (recv_bytes BPS crc) (\<lambda>res.
               case res of
                 None \<Rightarrow> tx_return None
               | Some (buf, crc) \<Rightarrow> tx_bind (recv_bytes 2 crc) (\<lambda>res.
                   case res of
                     None \<Rightarrow> tx_return None
                   | Some (q, _) \<Rightarrow>
                       tx_return (if word16_at 0 q \<noteq> crc then None else Some (word32_at 0 rlba, buf)))))))"

lemma tx_bind_split:
  assumes "tx_bind m k evs = (out, Some (r, evs'))"
  obtains out1 a evs1 out2 where "m evs = (out1, Some (a, evs1))" "k a evs1 = (out2, Some (r, evs'))" "out = out1 @ out2"
  using assms by (auto simp: tx_bind_def split: prod.splits option.splits)

lemma tx_wait_shorter: "tx_wait evs = (out, Some (r, evs')) \<Longrightarrow> length evs' \<le> length evs"
  by (cases evs) simp_all

lemma wr_frame_shorter:
  assumes "wr_frame evs = (out, Some (r, evs'))"
  shows "length evs' < length evs"
proof (cases evs)
  case Nil
  with assms show ?thesis by (simp add: wr_frame_def)
next
  case (Cons e evs1)
  show ?thesis
  proof (cases "e = Some TYPE_DATA")
    case False
    with Cons assms show ?thesis by (simp add: wr_frame_def tx_return_def)
  next
    case True
    from assms have "length evs' \<le> length evs1"
      unfolding wr_frame_def Cons True
      by (auto elim!: tx_bind_split dest!: recv_bytes_shorter tx_wait_shorter simp: tx_return_def split: option.splits)
    with Cons show ?thesis by simp
  qed
qed

text \<open>
  The hunt and the answers to frames that are no good. The result is the sector, or \<open>None\<close> if
  \<open>check_abort\<close>, called for the \<open>i\<close>-th time, found an abort key while waiting; and the number
  of calls so far.
\<close>

function wr_recv :: "(nat \<Rightarrow> nat option) \<Rightarrow> nat \<Rightarrow> ((32 word \<times> byte list) option \<times> nat) tx_io" where
  "wr_recv kb i evs =
     (case evs of
        [] \<Rightarrow> ([], None)
      | None # evs1 \<Rightarrow> if abort_key (kb i) then ([], Some ((None, i + 1), evs1)) else wr_recv kb (i + 1) evs1
      | Some al # evs1 \<Rightarrow>
          if al \<noteq> SOH then wr_recv kb i evs1
          else (case wr_frame evs1 of
                  (out, None) \<Rightarrow> (out, None)
                | (out, Some (Some x, evs2)) \<Rightarrow> (out, Some ((Some x, i), evs2))
                | (out, Some (None, evs2)) \<Rightarrow>
                    (let (out', r) = wr_recv kb i evs2 in (out @ [NAK] @ out', r))))"
  by pat_completeness auto
termination
  by (relation "measure (\<lambda>(kb, i, evs). length evs)") (auto dest: wr_frame_shorter [OF sym])

declare wr_recv.simps [simp del]

lemma wr_recv_steps [simp]:
  "wr_recv kb i [] = ([], None)"
  "wr_recv kb i (None # evs) = (if abort_key (kb i) then ([], Some ((None, i + 1), evs)) else wr_recv kb (i + 1) evs)"
  "al \<noteq> SOH \<Longrightarrow> wr_recv kb i (Some al # evs) = wr_recv kb i evs"
  "wr_recv kb i (Some SOH # evs) =
    (case wr_frame evs of
       (out, None) \<Rightarrow> (out, None)
     | (out, Some (Some x, evs2)) \<Rightarrow> (out, Some ((Some x, i), evs2))
     | (out, Some (None, evs2)) \<Rightarrow> (let (out', r) = wr_recv kb i evs2 in (out @ [NAK] @ out', r)))"
  by (simp_all add: wr_recv.simps)

section \<open>Writing a sector\<close>

type_synonym int13_writes = "chs_regs \<Rightarrow> byte list \<Rightarrow> nat \<Rightarrow> bool"

text \<open>\<open>write_sector\<close>: the calls from attempt \<open>t\<close> on, and whether one succeeds.\<close>

fun write_from :: "int13_writes \<Rightarrow> chs \<Rightarrow> byte list \<Rightarrow> nat \<Rightarrow> nat \<Rightarrow> wr_action list \<times> bool" where
  "write_from wr cur buf t 0 = ([], False)"
| "write_from wr cur buf t (Suc n) =
     (if wr (sector_regs cur) buf t then ([WriteCall (sector_regs cur) buf True], True)
      else (let (calls, ok) = write_from wr cur buf (t + 1) n
            in (WriteCall (sector_regs cur) buf False # calls, ok)))"

definition write_sector :: "int13_writes \<Rightarrow> chs \<Rightarrow> byte list \<Rightarrow> wr_action list \<times> bool" where
  "write_sector wr cur buf = write_from wr cur buf 0 READ_TRIES"

section \<open>The range loop\<close>

datatype wr_end =
    WrNoDisk
  | WrDeclined
  | WrDivideError
  | WrAborted "32 word" "32 word"
  | WrDone "32 word" "32 word"

fun wr_exit :: "wr_end \<Rightarrow> nat option" where
  "wr_exit WrNoDisk = Some 1"
| "wr_exit WrDeclined = Some 0"
| "wr_exit WrDivideError = None"
| "wr_exit (WrAborted good bad) = Some 3"
| "wr_exit (WrDone good bad) = Some 0"

definition wr_stop :: "32 word \<Rightarrow> 32 word \<Rightarrow> wr_end \<Rightarrow> wr_end wr_io" where
  "wr_stop good bad e = tx_bind (sending (com_send_eot good bad)) (\<lambda>_. tx_return e)"

lemma wr_recv_shorter: "wr_recv kb i evs = (out, Some (r, evs')) \<Longrightarrow> length evs' < length evs"
proof (induction kb i evs arbitrary: out rule: wr_recv.induct)
  case (1 kb i evs)
  show ?case
  proof (cases evs)
    case Nil
    with "1.prems" show ?thesis by (simp add: wr_recv.simps)
  next
    case (Cons e evs1)
    show ?thesis
    proof (cases e)
      case None
      show ?thesis
      proof (cases "abort_key (kb i)")
        case False
        with "1.prems" Cons None have "wr_recv kb (i + 1) evs1 = (out, Some (r, evs'))"
          by simp
        from "1.IH"(1) [OF Cons None False this] Cons show ?thesis by simp
      qed (use "1.prems" Cons None in \<open>simp\<close>)
    next
      case (Some al)
      show ?thesis
      proof (cases "al = SOH")
        case False
        with "1.prems" Cons Some have "wr_recv kb i evs1 = (out, Some (r, evs'))"
          by simp
        from "1.IH"(2) [OF Cons Some False this] Cons show ?thesis by simp
      next
        case True
        obtain o1 x where frame: "wr_frame evs1 = (o1, x)" by fastforce
        show ?thesis
        proof (cases x)
          case None
          with "1.prems" Cons Some True frame show ?thesis by simp
        next
          case x: (Some y)
          obtain f evs2 where y: "y = (f, evs2)" by (cases y)
          with frame x have shorter: "length evs2 < length evs1" using wr_frame_shorter by blast
          show ?thesis
          proof (cases f)
            case None
            obtain o2 z where "wr_recv kb i evs2 = (o2, z)" by fastforce
            with "1.prems" Cons Some True frame x y None have "wr_recv kb i evs2 = (o2, Some (r, evs'))"
              by simp
            with "1.IH"(3) [of "Some al" evs1 al o1 x y f evs2] Cons Some True frame x y None
            have "length evs' < length evs2" by auto
            with shorter Cons show ?thesis by simp
          qed (use "1.prems" Cons Some True frame x y shorter in \<open>simp\<close>)
        qed
      qed
    qed
  qed
qed

text \<open>
  \<open>next_range\<close>, \<open>range_loop\<close>, \<open>do_sector\<close> and \<open>ds_dup\<close>; \<open>i\<close> counts the calls of
  \<open>check_abort\<close>.
\<close>

function wr_loop ::
  "asm_geometry \<Rightarrow> int13_writes \<Rightarrow> (nat \<Rightarrow> nat option) \<Rightarrow> nat \<Rightarrow> 32 word \<Rightarrow> 32 word \<Rightarrow>
    (32 word \<times> 32 word) list \<Rightarrow> wr_end wr_io" where
  "wr_loop g wr kb i good bad [] evs = wr_stop good bad (WrDone good bad) evs"
| "wr_loop g wr kb i good bad ((lba, stop) # rs) evs =
     (if lba < stop
      then (if abort_key (kb i) then wr_stop good bad (WrAborted good bad) evs
            else (case wr_recv kb (i + 1) evs of
                    (out, None) \<Rightarrow> (map Sent out, None)
                  | (out, Some ((None, j), evs1)) \<Rightarrow>
                      (let (out', r) = wr_stop good bad (WrAborted good bad) evs1 in (map Sent out @ out', r))
                  | (out, Some ((Some (rlba, buf), j), evs1)) \<Rightarrow>
                      if rlba \<noteq> lba
                      then (let (out', r) = wr_loop g wr kb j good bad ((lba, stop) # rs) evs1
                            in (map Sent out @ [Sent ACK] @ out', r))
                      else (case lba_to_chs (ag_heads g) (ag_spt g) (hi16 lba, lo16 lba) of
                              None \<Rightarrow> (map Sent out, Some (WrDivideError, evs1))
                            | Some cur \<Rightarrow>
                                (let (calls, ok) = write_sector wr cur buf;
                                     (good', bad') = (if ok then (good + 1, bad) else (good, bad + 1));
                                     (out', r) = wr_loop g wr kb j good' bad' ((lba + 1, stop) # rs) evs1
                                 in (map Sent out @ calls @ [Sent ACK] @ out', r)))))
      else wr_loop g wr kb i good bad rs evs)"
  by pat_completeness auto

termination
proof (relation "measures [\<lambda>(g, wr, kb, i, good, bad, rs, evs). length evs, \<lambda>(g, wr, kb, i, good, bad, rs, evs). length rs]", goal_cases)
  case (2 g wr kb i good bad lba stop rs evs)
  then show ?case by (auto dest!: wr_recv_shorter [OF sym])
next
  case (3 g wr kb i good bad lba stop rs evs)
  then show ?case by (auto dest!: wr_recv_shorter [OF sym])
qed auto

declare wr_loop.simps [simp del]

text \<open>The program: geometry, the capital Y, handshake, range loop.\<close>

definition wr_main ::
  "byte list \<Rightarrow> bool \<times> chs_regs \<Rightarrow> byte \<Rightarrow> int13_writes \<Rightarrow> (nat \<Rightarrow> nat option) \<Rightarrow>
    (16 word \<times> 8 word) list \<times> wr_end wr_io" where
  "wr_main tail geo key wr kb =
     (let (portbase, divisor) = parse_tail tail in
      (uart_init portbase divisor,
       case get_geom geo of
         None \<Rightarrow> tx_return WrNoDisk
       | Some g \<Rightarrow>
           if key \<noteq> 0x59 then tx_return WrDeclined
           else tx_bind (sending (com_handshake g)) (\<lambda>ranges. wr_loop g wr kb 0 0 0 ranges)))"

lemma wr_main_confirmed:
  assumes "cl AND 0x3F \<noteq> 0" "d = com_disk (ch, cl, dh) rd"
  obtains g where "snd (wr_main tail (False, ch, cl, dh) 0x59 wr kb) =
      tx_bind (sending (handshake d)) (wr_loop g wr kb 0 0 0)"
    "ag_heads g = d_heads d" "ag_spt g = d_spt d" "d_heads d \<noteq> 0" "d_spt d \<noteq> 0"
proof -
  obtain g where g: "get_geom (False, ch, cl, dh) = Some g" "ag_heads g = d_heads d" "ag_spt g = d_spt d"
    "com_handshake g = handshake d"
    unfolding assms(2) by (rule com_geometry [of "(ch, cl, dh)" rd])
  have "snd (wr_main tail (False, ch, cl, dh) 0x59 wr kb) = tx_bind (sending (handshake d)) (wr_loop g wr kb 0 0 0)"
    by (simp add: wr_main_def g(1,4) case_prod_unfold Let_def)
  moreover have "d_heads d \<noteq> 0" "d_spt d \<noteq> 0"
    using geometry_nonzero [OF com_disk_def] assms by auto
  ultimately show thesis using g that by blast
qed

end
