(* ===== verification/ProgramLine.thy ===== *)
theory ProgramLine
  imports ComWriter Session
begin

text \<open>
  A program over events as the device at the other end of a line: its state is the rest of the
  program, with the actions taken so far. On a line that loses nothing a program steps through
  the bytes it is sent (\<open>consumes\<close>); the steps of \<open>TX.COM\<close> and \<open>WR.COM\<close>.
\<close>

section \<open>Programs as devices\<close>

type_synonym ('o, 'a) running = "('o, 'a) dos_io \<times> 'o list"

definition after_bytes :: "('o, 'a) dos_io \<Rightarrow> byte list \<Rightarrow> ('o, 'a) dos_io" where
  "after_bytes m bs evs =
     (case m (map Some bs @ evs) of (out, r) \<Rightarrow> (drop (length (fst (m (map Some bs)))) out, r))"

definition prog_react ::
  "('o list \<Rightarrow> byte list) \<Rightarrow> byte list \<Rightarrow> ('o, 'a) running \<Rightarrow> ('o, 'a) running \<times> byte list" where
  "prog_react wire bs x =
     (case x of (m, acts) \<Rightarrow>
        (let out = fst (m (map Some bs)) in ((after_bytes m bs, acts @ out), wire out)))"

text \<open>A program that has ended.\<close>

definition prog_end :: "('o, 'a) dos_io \<Rightarrow> 'a option" where
  "prog_end m = map_option fst (snd (m []))"

section \<open>Steps\<close>

text \<open>The bytes take the program to \<open>m'\<close>, with the given actions.\<close>

definition consumes :: "('o, 'a) dos_io \<Rightarrow> byte list \<Rightarrow> 'o list \<Rightarrow> ('o, 'a) dos_io \<Rightarrow> bool" where
  "consumes m bs acts m' \<longleftrightarrow> (\<forall>evs. m (map Some bs @ evs) = (let (out, r) = m' evs in (acts @ out, r)))"

lemma prog_react_consumes:
  assumes "consumes m bs acts m'" "fst (m' []) = []"
  shows "prog_react wire bs (m, past) = ((m', past @ acts), wire acts)"
proof -
  have now: "fst (m (map Some bs)) = acts"
    using assms by (auto simp: consumes_def case_prod_unfold Let_def dest: spec [of _ "[]"])
  have "after_bytes m bs = m'"
    using assms(1) now by (intro ext) (simp add: after_bytes_def consumes_def case_prod_unfold Let_def)
  with now show ?thesis by (simp add: prog_react_def)
qed

text \<open>A program as it starts: what it does before its first wait is done.\<close>

lemma after_start:
  assumes "consumes m bs (fst (m []) @ acts) m'"
  shows "consumes (after_bytes m []) bs acts m'"
  using assms by (simp add: consumes_def after_bytes_def case_prod_unfold Let_def)

lemma after_start_waits [simp]: "fst (after_bytes m [] []) = []"
  by (simp add: after_bytes_def case_prod_unfold Let_def)

lemma consumes_refl [simp]: "consumes m [] [] m"
  by (simp add: consumes_def)

lemma consumes_trans:
  "consumes m bs1 acts1 m1 \<Longrightarrow> consumes m1 bs2 acts2 m2 \<Longrightarrow> consumes m (bs1 @ bs2) (acts1 @ acts2) m2"
  by (simp add: consumes_def case_prod_unfold Let_def)

lemma consumes_wait:
  "consumes (k (Some b)) bs acts m \<Longrightarrow> consumes (tx_bind tx_wait k) (b # bs) acts m"
  by (simp add: consumes_def)

lemma consumes_send: "consumes (tx_bind (tx_send fr) k) [] fr (k ())"
  by (simp add: consumes_def tx_bind_def [of "tx_send _"] tx_send_def)

lemma consumes_bind: "consumes m bs acts m' \<Longrightarrow> consumes (tx_bind m k) bs acts (tx_bind m' k)"
  by (simp add: consumes_def tx_bind_def case_prod_unfold Let_def split: option.split)

lemma consumes_bind_return:
  "consumes m bs1 acts1 (tx_return a) \<Longrightarrow> consumes (k a) bs2 acts2 m' \<Longrightarrow>
     consumes (tx_bind m k) (bs1 @ bs2) (acts1 @ acts2) m'"
  using consumes_trans [OF consumes_bind] by fastforce

lemma consumes_sending:
  "consumes m bs acts m' \<Longrightarrow> consumes (sending m) bs (map Sent acts) (sending m')"
  by (simp add: consumes_def sending_def case_prod_unfold Let_def)

lemma sending_return [simp]: "sending (tx_return a) = tx_return a"
  by (rule ext) (simp add: sending_def tx_return_def)

section \<open>What both programs receive\<close>

lemma recv_bytes_consumes:
  "length bs = n \<Longrightarrow> consumes (recv_bytes n crc) bs [] (tx_return (Some (bs, foldl crc16_update crc bs)))"
proof (induction bs arbitrary: n crc)
  case (Cons b bs)
  then obtain m where n: "n = Suc m" "length bs = m" by auto
  have "consumes (tx_bind (recv_bytes m (crc16_update crc b)) (\<lambda>res.
         tx_return (case res of None \<Rightarrow> None | Some (bs, crc') \<Rightarrow> Some (b # bs, crc')))) (bs @ []) ([] @ [])
       (tx_return (Some (b # bs, foldl crc16_update crc (b # bs))))"
    by (rule consumes_bind_return [OF Cons.IH [OF n(2)]]) simp
  then show ?case by (simp add: n consumes_wait)
qed simp

lemma recv_then:
  assumes "length bs = n" "consumes (k (Some (bs, foldl crc16_update crc bs))) bs' acts m"
  shows "consumes (tx_bind (recv_bytes n crc) k) (bs @ bs') acts m"
  using consumes_bind_return [where k = k, OF recv_bytes_consumes [OF assms(1), of crc] assms(2)] by simp

lemma command_consumes:
  assumes "\<forall>(a, b)\<in>set wl. a < 2 ^ 32 \<and> b < 2 ^ 32" "length wl \<le> MAXR" "cmd_payload wl = Inr p"
  shows "consumes recv_command (frame TYPE_CMD p) [] (tx_return (Some (range_words wl)))"
proof -
  let ?n = "length wl" and ?q = "range_bytes wl"
  let ?crc = "crc16 (TYPE_CMD # p)"
  have p: "p = le_bytes 2 ?n @ ?q" using cmd_payload_Inr [OF assms(1)] assms(2,3) by (simp add: MAXR_def)
  have fr: "frame TYPE_CMD p = SOH # TYPE_CMD # le_bytes 2 ?n @ ?q @ le_bytes 2 ?crc"
    by (simp add: frame_simp p)
  have count: "unat (word16_at 0 (le_bytes 2 ?n)) = ?n"
    using word16_at_le [of 0 "le_bytes 2 ?n"] assms(2) by (simp add: MAXR_def)
  have parsed: "parse_cmd (TYPE_CMD # le_bytes 2 ?n @ ?q @ le_bytes 2 ?crc) = CmdRanges (range_words wl)"
    using parse_cmd_frame(1) [OF assms refl] by (simp add: fr)
  define l where "l = le_bytes 2 ?n"
  define q where "q = ?q"
  define c where "c = le_bytes 2 ?crc"
  have len: "length l = 2" "length q = 8 * ?n" "length c = 2" by (simp_all add: l_def q_def c_def)
  have count: "unat (word16_at 0 l) = ?n" using count by (simp add: l_def)
  note parsed = parsed [folded l_def q_def c_def]
  have split: "word16_at (8 * ?n) (q @ c) = word16_at 0 c" "ranges_at ?n (q @ c) = ranges_at ?n q"
    using word16_at_shift [of q 0 c] len
    by (auto simp: ranges_at_def intro!: word32_at_append)
  have sum: "word16_at 0 c = foldl crc16_update (foldl crc16_update (crc16_update 0xFFFF TYPE_CMD) l) q"
    "ranges_at ?n q = range_words wl"
    using parsed parse_cmd_ranges [OF len(1), of "q @ c"] assms(2) len
    by (auto simp: count split split: if_splits)
  have end_sum: "consumes (tx_bind (recv_bytes 2 crc) (check_sum ?n q (word16_at 0 c))) (c @ []) []
      (tx_return (Some (range_words wl)))" for crc
    by (rule recv_then [OF len(3)]) (simp add: check_sum_def sum(2))
  have ranges: "consumes (tx_bind (recv_bytes (8 * ?n) crc) (check_ranges ?n)) (q @ c @ []) []
      (tx_return (Some (range_words wl)))" if "foldl crc16_update crc q = word16_at 0 c" for crc
    by (rule recv_then [OF len(2)]) (use end_sum that in \<open>simp add: check_ranges_def\<close>)
  have "consumes (tx_bind (recv_bytes 2 (crc16_update 0xFFFF TYPE_CMD)) check_count) (l @ q @ c @ []) []
      (tx_return (Some (range_words wl)))"
    by (rule recv_then [OF len(1)])
       (use ranges [OF sum(1) [symmetric]] assms(2) in \<open>simp add: check_count_def count\<close>)
  then have body: "consumes (tx_bind tx_wait (\<lambda>t. if t \<noteq> Some TYPE_CMD then tx_return None
      else tx_bind (recv_bytes 2 (crc16_update 0xFFFF TYPE_CMD)) check_count)) (TYPE_CMD # l @ q @ c) []
      (tx_return (Some (range_words wl)))"
    by (intro consumes_wait) simp
  have "consumes (hunt_command (Suc 299)) [SOH] [] (tx_return True)"
    unfolding hunt_command.simps by (rule consumes_wait) simp
  then have hunt: "consumes (hunt_command 300) [SOH] [] (tx_return True)" by simp
  have "consumes recv_command ([SOH] @ TYPE_CMD # l @ q @ c) ([] @ []) (tx_return (Some (range_words wl)))"
    unfolding recv_command_alt by (rule consumes_bind_return [OF hunt]) (use body in simp)
  then show ?thesis by (simp add: fr l_def q_def c_def)
qed

text \<open>The handshake: \<open>INFO\<close>, then the wait for the command.\<close>

lemma handshake_start: "handshake d [] = (send_info d, None)"
proof -
  have "hunt_command 300 [] = ([], None)" using hunt_command.simps(2) [of 299] by simp
  then show ?thesis by (simp add: handshake.simps recv_command_def tx_bind_def [of "hunt_command _"])
qed

lemma handshake_consumes:
  assumes "\<forall>(a, b)\<in>set wl. a < 2 ^ 32 \<and> b < 2 ^ 32" "length wl \<le> MAXR" "cmd_payload wl = Inr p"
  shows "consumes (handshake d) (frame TYPE_CMD p) (send_info d) (tx_return (range_words wl))"
  using command_consumes [OF assms]
  by (auto simp: consumes_def handshake.simps [of d "map Some _ @ _"] tx_return_def)

section \<open>A frame and its answer\<close>

text \<open>The rest of the program after a frame was sent, with \<open>n\<close> tries left.\<close>

definition answer_to :: "nat \<Rightarrow> byte list \<Rightarrow> bool tx_io" where
  "answer_to n fr = tx_bind tx_wait (\<lambda>r. if r = Some ACK then tx_return True else send_tries n fr)"

lemma send_tries_waits: "0 < n \<Longrightarrow> consumes (send_tries n fr) [] fr (answer_to (n - 1) fr)"
  using consumes_send [of fr "\<lambda>_. answer_to (n - 1) fr"] by (cases n) (simp_all add: answer_to_def)

lemma answer_acked: "consumes (answer_to n fr) [ACK] [] (tx_return True)"
  unfolding answer_to_def by (rule consumes_wait) simp

lemma answer_waits [simp]: "answer_to n fr [] = ([], None)"
  by (simp add: answer_to_def)

section \<open>The sender\<close>

text \<open>\<open>TX.COM\<close> waiting for the answer to its frame for a sector, or to its totals.\<close>

definition com_data_wait ::
  "asm_geometry \<Rightarrow> int13_reads \<Rightarrow> (nat \<Rightarrow> nat option) \<Rightarrow> nat \<Rightarrow> 32 word \<Rightarrow> 32 word \<Rightarrow> byte list \<Rightarrow>
    (32 word \<times> 32 word) list \<Rightarrow> com_end tx_io" where
  "com_data_wait g rd kb i good bad fr rs =
     tx_bind (answer_to (COM_LINK_TRIES - 1) fr) (\<lambda>sent. if \<not> sent then tx_return ComLost else com_loop g rd kb i good bad rs)"

definition com_eot_wait :: "32 word \<Rightarrow> 32 word \<Rightarrow> com_end tx_io" where
  "com_eot_wait good bad = tx_bind (answer_to (COM_LINK_TRIES - 1) (eot_frame good bad)) (\<lambda>_. tx_return (ComDone good bad))"

lemma com_loop_end:
  "tx_lbas rs = [] \<Longrightarrow> consumes (com_loop g rd kb i good bad rs) [] (eot_frame good bad) (com_eot_wait good bad)"
proof (induction rs)
  case Nil
  show ?case
    unfolding com_loop.simps com_send_eot_def com_eot_eq com_eot_wait_def
    by (rule consumes_bind, rule send_tries_waits) (simp add: COM_LINK_TRIES_def)
next
  case (Cons r rs)
  obtain lba stop where r: "r = (lba, stop)" by (cases r)
  have "\<not> lba < stop" using Cons.prems r by (auto simp: tx_lbas_def word_less_nat_alt)
  with Cons r show ?case by (simp add: com_loop.simps tx_lbas_def)
qed

lemma com_loop_next:
  assumes "tx_lbas rs = k # ks" "d = com_disk regs rd" "\<And>i. \<not> abort_key (kb i)"
    and "ag_heads g = d_heads d" "ag_spt g = d_spt d" "d_spt d \<noteq> 0"
  shows "\<exists>rs'. tx_lbas rs' = ks \<and>
    consumes (com_loop g rd kb i good bad rs) [] (data_frame (word_of_nat k) (disk_status d k) (disk_bytes d k))
      (com_data_wait g rd kb (i + 1) (good + of_bool (disk_read d k \<noteq> None)) (bad + of_bool (disk_read d k = None))
        (data_frame (word_of_nat k) (disk_status d k) (disk_bytes d k)) rs')"
  using assms(1)
proof (induction rs)
  case (Cons r rs)
  obtain lba stop where r: "r = (lba, stop)" by (cases r)
  show ?case
  proof (cases "lba < stop")
    case False
    with Cons r show ?thesis by (simp add: com_loop.simps tx_lbas_def word_less_nat_alt)
  next
    case True
    let ?fr = "data_frame (word_of_nat k) (disk_status d k) (disk_bytes d k)"
    have k: "unat lba = k" "tx_lbas ((lba + 1, stop) # rs) = ks" "lba = word_of_nat k"
      using Cons.prems r True by (auto simp: tx_lbas_def word_less_nat_alt upt_conv_Cons unat_suc_below)
    have read: "disk_read d k = read_with_retries (d_bios d) (chs_of (unat (ag_heads g)) (unat (ag_spt g)) (unat lba))"
      by (simp add: disk_read_def k(1) assms(4,5))
    note loop = com_loop_sector [of lba stop kb i g regs rd, OF True assms(3) assms(4-6) [unfolded assms(2)],
        folded assms(2), folded read]
    have step: "com_loop g rd kb i good bad ((lba, stop) # rs) =
      tx_bind (send_tries COM_LINK_TRIES ?fr) (\<lambda>sent. if \<not> sent then tx_return ComLost
        else com_loop g rd kb (i + 1) (good + of_bool (disk_read d k \<noteq> None)) (bad + of_bool (disk_read d k = None))
          ((lba + 1, stop) # rs))"
      unfolding loop
      by (cases "disk_read d k") (simp_all add: disk_status_def disk_bytes_def k(3) [symmetric] cong del: if_weak_cong)
    have "consumes (com_loop g rd kb i good bad ((lba, stop) # rs)) [] ?fr
      (com_data_wait g rd kb (i + 1) (good + of_bool (disk_read d k \<noteq> None)) (bad + of_bool (disk_read d k = None)) ?fr
        ((lba + 1, stop) # rs))"
      unfolding step com_data_wait_def
      by (rule consumes_bind, rule send_tries_waits) (simp add: COM_LINK_TRIES_def)
    with k(2) show ?thesis unfolding r by blast
  qed
qed (simp add: tx_lbas_def)

lemma com_eot_acked: "consumes (com_eot_wait good bad) [ACK] [] (tx_return (ComDone good bad))"
  unfolding com_eot_wait_def
  using consumes_bind_return [OF answer_acked, of "\<lambda>_. tx_return (ComDone good bad)" "[]" "[]"] by simp

lemma com_data_acked:
  "consumes (com_loop g rd kb i good bad rs) [] out m \<Longrightarrow> consumes (com_data_wait g rd kb i good bad fr rs) [ACK] out m"
  unfolding com_data_wait_def
  using consumes_bind_return [OF answer_acked, of "\<lambda>sent. if \<not> sent then tx_return ComLost else com_loop g rd kb i good bad rs" "[]" out]
  by simp

section \<open>The writer\<close>

lemma wr_frame_consumes:
  assumes "k < 2 ^ 32" "length buf = BPS"
  shows "consumes wr_frame (tl (frame TYPE_DATA (le_bytes 4 k @ [st] @ buf))) [] (tx_return (Some (word_of_nat k, buf)))"
proof -
  define body where "body = TYPE_DATA # le_bytes 4 k @ [st] @ buf"
  define l c where "l = le_bytes 4 k" and "c = le_bytes 2 (crc16 body)"
  have len: "length l = 4" "length [st] = 1" "length c = 2" by (simp_all add: l_def c_def)
  have fr: "tl (frame TYPE_DATA (le_bytes 4 k @ [st] @ buf)) = TYPE_DATA # l @ [st] @ buf @ c"
    by (simp add: frame_simp l_def c_def body_def)
  have "unat (word32_at 0 l) = k" using word32_at_le [of 0 l] assms(1) by (simp add: l_def)
  then have lba: "word32_at 0 l = word_of_nat k" by (metis of_nat_unat ucast_id)
  have "unat (word16_at 0 c) = crc16 body" using word16_at_le [of 0 c] by (simp add: c_def)
  then have "word16_at 0 c = foldl crc16_update 0xFFFF body" by (simp only: crc16_word word_unat_eq_iff)
  then have crc: "word16_at 0 c =
      foldl crc16_update (foldl crc16_update (foldl crc16_update (crc16_update 0xFFFF TYPE_DATA) l) [st]) buf"
    by (simp add: body_def l_def)
  have "consumes wr_frame (TYPE_DATA # l @ [st] @ buf @ c @ []) [] (tx_return (Some (word_of_nat k, buf)))"
    unfolding wr_frame_def
    by (rule consumes_wait, simp only: simp_thms if_False option.inject,
        rule recv_then [OF len(1)], simp only: option.case prod.case,
        rule recv_then [OF len(2)], simp only: option.case prod.case,
        rule recv_then [OF assms(2)], simp only: option.case prod.case,
        rule recv_then [OF len(3)]) (simp add: crc lba)
  then show ?thesis unfolding fr by (simp only: append_Nil2)
qed

lemma wr_recv_frame:
  assumes "k < 2 ^ 32" "length buf = BPS"
  shows "wr_recv kb i (map Some (frame TYPE_DATA (le_bytes 4 k @ [st] @ buf)) @ evs) =
    ([], Some ((Some (word_of_nat k, buf), i), evs))"
proof -
  have "frame TYPE_DATA (le_bytes 4 k @ [st] @ buf) = SOH # tl (frame TYPE_DATA (le_bytes 4 k @ [st] @ buf))"
    by (simp add: frame_simp)
  moreover have "wr_frame (map Some (tl (frame TYPE_DATA (le_bytes 4 k @ [st] @ buf))) @ evs) =
      ([], Some (Some (word_of_nat k, buf), evs))"
    using wr_frame_consumes [OF assms] by (simp add: consumes_def tx_return_def)
  ultimately show ?thesis by (metis (no_types, lifting) append_Cons list.simps(9) option.case prod.case wr_recv_steps(4))
qed

text \<open>The state in which the writer waits for the answer to its totals.\<close>

definition wr_eot_wait :: "32 word \<Rightarrow> 32 word \<Rightarrow> wr_end wr_io" where
  "wr_eot_wait good bad =
     tx_bind (sending (answer_to (COM_LINK_TRIES - 1) (eot_frame good bad))) (\<lambda>_. tx_return (WrDone good bad))"

lemma wr_eot_acked: "consumes (wr_eot_wait good bad) [ACK] [] (tx_return (WrDone good bad))"
  unfolding wr_eot_wait_def
  using consumes_bind_return [OF consumes_sending [OF answer_acked, simplified], of "\<lambda>_. tx_return (WrDone good bad)" "[]" "[]"]
  by simp

lemma wr_loop_end:
  "tx_lbas rs = [] \<Longrightarrow>
     consumes (wr_loop g wr kb i good bad rs) [] (map Sent (eot_frame good bad)) (wr_eot_wait good bad)"
proof (induction rs)
  case Nil
  have "consumes (wr_stop good bad (WrDone good bad)) [] (map Sent (eot_frame good bad)) (wr_eot_wait good bad)"
    unfolding wr_stop_def wr_eot_wait_def com_send_eot_def com_eot_eq
    by (rule consumes_bind, rule consumes_sending, rule send_tries_waits) (simp add: COM_LINK_TRIES_def)
  then show ?case by (simp add: consumes_def wr_loop.simps)
next
  case (Cons r rs)
  obtain lba stop where r: "r = (lba, stop)" by (cases r)
  have "\<not> lba < stop" using Cons.prems r by (auto simp: tx_lbas_def word_less_nat_alt)
  with Cons r show ?case by (simp add: consumes_def wr_loop.simps tx_lbas_def)
qed

text \<open>Empty ranges at the head of the worklist are passed over.\<close>

lemma wr_loop_head:
  assumes "tx_lbas rs = k # ks"
  obtains lba stop rs1 where "lba < stop" "tx_lbas ((lba, stop) # rs1) = k # ks"
    "\<And>i good bad. wr_loop g wr kb i good bad rs = wr_loop g wr kb i good bad ((lba, stop) # rs1)"
proof -
  have "\<exists>lba stop rs1. lba < stop \<and> tx_lbas ((lba, stop) # rs1) = k # ks \<and>
      (\<forall>i good bad. wr_loop g wr kb i good bad rs = wr_loop g wr kb i good bad ((lba, stop) # rs1))"
    using assms
  proof (induction rs)
    case (Cons r rs)
    obtain lba stop where r: "r = (lba, stop)" by (cases r)
    show ?case
    proof (cases "lba < stop")
      case False
      then have "wr_loop g wr kb i good bad (r # rs) = wr_loop g wr kb i good bad rs" for i good bad
        by (intro ext) (simp add: r wr_loop.simps)
      with Cons r False show ?thesis by (simp add: tx_lbas_def word_less_nat_alt)
    qed (use Cons r in blast)
  qed (simp add: tx_lbas_def)
  then show thesis using that by blast
qed

lemma wr_loop_next:
  assumes "tx_lbas rs = k # ks" "\<And>i. \<not> abort_key (kb i)"
    and "ag_heads g = d_heads d" "ag_spt g = d_spt d" "d_heads d \<noteq> 0" "d_spt d \<noteq> 0"
  obtains rs' where "tx_lbas rs' = ks" "k < 2 ^ 32"
    "\<And>i good bad. fst (wr_loop g wr kb i good bad rs []) = []"
    "\<And>i good bad st buf. length buf = BPS \<Longrightarrow>
      consumes (wr_loop g wr kb i good bad rs) (frame TYPE_DATA (le_bytes 4 k @ [st] @ buf))
        (fst (write_sector wr (chs_of (unat (d_heads d)) (unat (d_spt d)) k) buf) @ [Sent ACK])
        (wr_loop g wr kb (i + 1)
          (good + of_bool (snd (write_sector wr (chs_of (unat (d_heads d)) (unat (d_spt d)) k) buf)))
          (bad + of_bool (\<not> snd (write_sector wr (chs_of (unat (d_heads d)) (unat (d_spt d)) k) buf))) rs')"
proof -
  obtain lba stop rs1 where rs1: "lba < stop" "tx_lbas ((lba, stop) # rs1) = k # ks"
    "\<And>i good bad. wr_loop g wr kb i good bad rs = wr_loop g wr kb i good bad ((lba, stop) # rs1)"
    using wr_loop_head [OF assms(1), of g wr kb] by blast
  have k: "unat lba = k" "tx_lbas ((lba + 1, stop) # rs1) = ks" "lba = word_of_nat k"
    using rs1(1,2) by (auto simp: tx_lbas_def word_less_nat_alt upt_conv_Cons unat_suc_below)
  have k32: "k < 2 ^ 32" unfolding k(1) [symmetric] using unsigned_less [of lba, where 'a = nat] by simp
  let ?cur = "chs_of (unat (d_heads d)) (unat (d_spt d)) k"
  have cur: "lba_to_chs (ag_heads g) (ag_spt g) (hi16 lba, lo16 lba) = Some ?cur"
    using lba_to_chs_eq assms(3-6) by (simp add: k(1))
  have step: "consumes (wr_loop g wr kb i good bad rs) (frame TYPE_DATA (le_bytes 4 k @ [st] @ buf))
      (fst (write_sector wr ?cur buf) @ [Sent ACK])
      (wr_loop g wr kb (i + 1) (good + of_bool (snd (write_sector wr ?cur buf)))
        (bad + of_bool (\<not> snd (write_sector wr ?cur buf))) ((lba + 1, stop) # rs1))"
    if "length buf = BPS" for i good bad st buf
  proof -
    have "wr_loop g wr kb i good bad ((lba, stop) # rs1) (map Some (frame TYPE_DATA (le_bytes 4 k @ [st] @ buf)) @ evs) =
      (let (out', r) = wr_loop g wr kb (i + 1) (good + of_bool (snd (write_sector wr ?cur buf)))
          (bad + of_bool (\<not> snd (write_sector wr ?cur buf))) ((lba + 1, stop) # rs1) evs
       in ((fst (write_sector wr ?cur buf) @ [Sent ACK]) @ out', r))" for evs
      using wr_loop.simps(2) [of g wr kb i good bad lba stop rs1 "map Some (frame TYPE_DATA (le_bytes 4 k @ [st] @ buf)) @ evs"]
        rs1(1) assms(2) cur k(3) wr_recv_frame [OF k32 that, of kb "i + 1" st evs]
      by (simp add: case_prod_unfold Let_def)
    then show ?thesis by (simp add: consumes_def rs1(3))
  qed
  show thesis
    by (rule that [OF k(2) k32 _ step]) (use rs1(1,3) assms(2) in \<open>simp add: wr_loop.simps\<close>)
qed

text \<open>The same for one sector.\<close>

lemma wr_loop_take:
  assumes "tx_lbas rs = k # ks" "length buf = BPS" "\<And>i. \<not> abort_key (kb i)"
    and "ag_heads g = d_heads d" "ag_spt g = d_spt d" "d_heads d \<noteq> 0" "d_spt d \<noteq> 0"
    and "write_sector wr (chs_of (unat (d_heads d)) (unat (d_spt d)) k) buf = (calls, ok)"
  shows "\<exists>rs'. tx_lbas rs' = ks \<and> k < 2 ^ 32 \<and> fst (wr_loop g wr kb i good bad rs []) = [] \<and>
    consumes (wr_loop g wr kb i good bad rs) (frame TYPE_DATA (le_bytes 4 k @ [st] @ buf)) (calls @ [Sent ACK])
      (wr_loop g wr kb (i + 1) (good + of_bool ok) (bad + of_bool (\<not> ok)) rs')"
proof (rule wr_loop_next [where kb = kb and wr = wr, OF assms(1,3-7)])
  fix rs'
  assume rs': "tx_lbas rs' = ks" "k < 2 ^ 32" "\<And>i good bad. fst (wr_loop g wr kb i good bad rs []) = []"
    and step: "\<And>i good bad st buf. length buf = BPS \<Longrightarrow>
      consumes (wr_loop g wr kb i good bad rs) (frame TYPE_DATA (le_bytes 4 k @ [st] @ buf))
        (fst (write_sector wr (chs_of (unat (d_heads d)) (unat (d_spt d)) k) buf) @ [Sent ACK])
        (wr_loop g wr kb (i + 1)
          (good + of_bool (snd (write_sector wr (chs_of (unat (d_heads d)) (unat (d_spt d)) k) buf)))
          (bad + of_bool (\<not> snd (write_sector wr (chs_of (unat (d_heads d)) (unat (d_spt d)) k) buf))) rs')"
  from step [OF assms(2), unfolded assms(8) fst_conv snd_conv] rs' show ?thesis by blast
qed

lemma wr_loop_waits:
  assumes "tx_lbas rs = k # ks" "\<And>i. \<not> abort_key (kb i)"
  shows "fst (wr_loop g wr kb i good bad rs []) = []"
proof -
  obtain lba stop rs1 where rs1: "lba < stop" "tx_lbas ((lba, stop) # rs1) = k # ks"
    "\<And>i good bad. wr_loop g wr kb i good bad rs = wr_loop g wr kb i good bad ((lba, stop) # rs1)"
    using wr_loop_head [OF assms(1), of g wr kb] by blast
  have "wr_loop g wr kb i good bad ((lba, stop) # rs1) [] = ([], None)"
    using wr_loop.simps(2) [of g wr kb i good bad lba stop rs1 "[]"] rs1(1) assms(2) by simp
  then show ?thesis by (simp add: rs1(3))
qed

text \<open>A frame of another sector than the expected one is only acknowledged.\<close>

lemma wr_loop_dup:
  assumes "tx_lbas rs = k # ks" "\<And>i. \<not> abort_key (kb i)" "j < 2 ^ 32" "j \<noteq> k" "length buf = BPS"
  shows "consumes (wr_loop g wr kb i good bad rs) (frame TYPE_DATA (le_bytes 4 j @ [st] @ buf)) [Sent ACK]
    (wr_loop g wr kb (i + 1) good bad rs)"
proof -
  obtain lba stop rs1 where rs1: "lba < stop" "tx_lbas ((lba, stop) # rs1) = k # ks"
    "\<And>i good bad. wr_loop g wr kb i good bad rs = wr_loop g wr kb i good bad ((lba, stop) # rs1)"
    using wr_loop_head [OF assms(1), of g wr kb] by blast
  have "unat lba = k" using rs1(1,2) by (simp add: tx_lbas_def word_less_nat_alt upt_conv_Cons)
  moreover have "unat (word_of_nat j :: 32 word) = j" using assms(3) by (simp add: unat_of_nat take_bit_nat_eq_self)
  ultimately have other: "word_of_nat j \<noteq> lba" using assms(4) by auto
  have "wr_loop g wr kb i good bad ((lba, stop) # rs1) (map Some (frame TYPE_DATA (le_bytes 4 j @ [st] @ buf)) @ evs) =
    (let (out', r) = wr_loop g wr kb (i + 1) good bad ((lba, stop) # rs1) evs in ([Sent ACK] @ out', r))" for evs
    using wr_loop.simps(2) [of g wr kb i good bad lba stop rs1 "map Some (frame TYPE_DATA (le_bytes 4 j @ [st] @ buf)) @ evs"]
      rs1(1) assms(2) other wr_recv_frame [OF assms(3,5), of kb "i + 1" st evs]
    by simp
  then show ?thesis by (simp add: consumes_def rs1(3))
qed

lemma wr_main_consumes:
  assumes "cl AND 0x3F \<noteq> 0" "d = com_disk (ch, cl, dh) rd"
    and wl: "\<forall>(a, b)\<in>set wl. a < 2 ^ 32 \<and> b < 2 ^ 32" "length wl \<le> MAXR" "cmd_payload wl = Inr p"
  obtains g where "ag_heads g = d_heads d" "ag_spt g = d_spt d" "d_heads d \<noteq> 0" "d_spt d \<noteq> 0"
    "fst (snd (wr_main tail (False, ch, cl, dh) 0x59 wr kb) []) = map Sent (send_info d)"
    "consumes (after_bytes (snd (wr_main tail (False, ch, cl, dh) 0x59 wr kb)) []) (frame TYPE_CMD p) []
       (wr_loop g wr kb 0 0 0 (range_words wl))"
proof -
  obtain g where g: "snd (wr_main tail (False, ch, cl, dh) 0x59 wr kb) =
      tx_bind (sending (handshake d)) (wr_loop g wr kb 0 0 0)"
    "ag_heads g = d_heads d" "ag_spt g = d_spt d" "d_heads d \<noteq> 0" "d_spt d \<noteq> 0"
    using assms(1,2) by (rule wr_main_confirmed)
  have start: "fst (snd (wr_main tail (False, ch, cl, dh) 0x59 wr kb) []) = map Sent (send_info d)"
    by (simp add: g(1) tx_bind_def sending_def handshake_start)
  have "consumes (sending (handshake d)) (frame TYPE_CMD p) (map Sent (send_info d)) (tx_return (range_words wl))"
    using consumes_sending [OF handshake_consumes [OF wl]] by simp
  from consumes_bind_return [OF this, of "wr_loop g wr kb 0 0 0" "[]" "[]"]
  have "consumes (snd (wr_main tail (False, ch, cl, dh) 0x59 wr kb)) (frame TYPE_CMD p) (map Sent (send_info d))
      (wr_loop g wr kb 0 0 0 (range_words wl))"
    by (simp add: g(1))
  then have "consumes (after_bytes (snd (wr_main tail (False, ch, cl, dh) 0x59 wr kb)) []) (frame TYPE_CMD p) []
      (wr_loop g wr kb 0 0 0 (range_words wl))"
    by (intro after_start) (simp add: start)
  with g start that show thesis by blast
qed

end
