(* ===== verification/ComSessions.thy ===== *)
theory ComSessions
  imports ProgramLine
begin

text \<open>
  Whole sessions with the assembly programs on a line that loses nothing: a capture by
  \<open>rx.py\<close> from \<open>TX.COM\<close>. The waits of the program do not expire (\<open>asm_wait_never_expires\<close>).
\<close>

section \<open>A program on the line\<close>

text \<open>A line on which a read of nothing changes nothing: the device sends on its own account only.\<close>

locale quiet_line =
  serial_line P inq peer react for P :: "'s port" and inq and peer :: "'s \<Rightarrow> 'p" and react +
  assumes silent_read: "inq s = [] \<Longrightarrow> 0 < n \<Longrightarrow> fst (ser_read P n s) = Inr []"
    and silent_inq: "inq s = [] \<Longrightarrow> 0 < n \<Longrightarrow> inq (snd (ser_read P n s)) = []"
    and silent_peer: "inq s = [] \<Longrightarrow> 0 < n \<Longrightarrow> peer (snd (ser_read P n s)) = peer s"
begin

lemma no_reply:
  assumes "inq s = []"
  obtains s' where "read_reply P t s = (Inr None, s')" "inq s' = []" "peer s' = peer s"
proof -
  let ?s = "ser_set_timeout P t s"
  have "inq ?s = []" using assms by (simp add: timeout_inq)
  then obtain s1 where "ser_read P 1 ?s = (Inr [], s1)" "inq s1 = []" "peer s1 = peer ?s"
    using silent_read [of ?s 1] silent_inq [of ?s 1] silent_peer [of ?s 1] by (metis prod.collapse zero_less_one)
  then show thesis
    by (intro that [of "ser_set_timeout P (ser_timeout P s) s1"])
       (simp_all add: read_reply_def Let_def timeout_inq timeout_peer)
qed

end

definition prog_port :: "('o list \<Rightarrow> byte list) \<Rightarrow> ('o, 'a) running line port" where
  "prog_port wire = line_port (prog_react wire) (\<lambda>x. (x, []))"

interpretation silent: quiet_line "line_port react (\<lambda>x. (x, []))" line_queue line_peer react
  for react :: "byte list \<Rightarrow> 'p \<Rightarrow> 'p \<times> byte list"
  by unfold_locales (auto simp: line_port_def line_queue_def line_peer_def)

interpretation prog: quiet_line "prog_port wire" line_queue line_peer "prog_react wire" for wire
  unfolding prog_port_def by (rule silent.quiet_line_axioms)

text \<open>The program has been started and waits for its first byte.\<close>

definition prog_start :: "('o list \<Rightarrow> byte list) \<Rightarrow> ('o, 'a) dos_io \<Rightarrow> rat \<Rightarrow> ('o, 'a) running line" where
  "prog_start wire m timeout = (timeout, (after_bytes m [], fst (m [])), wire (fst (m [])))"

lemma prog_start_simps [simp]:
  "line_queue (prog_start wire m timeout) = wire (fst (m []))"
  "line_peer (prog_start wire m timeout) = (after_bytes m [], fst (m []))"
  by (simp_all add: prog_start_def line_queue_def line_peer_def)

section \<open>A capture from \<open>TX.COM\<close>\<close>

abbreviation com_react :: "byte list \<Rightarrow> (byte, com_end) running \<Rightarrow> (byte, com_end) running \<times> byte list" where
  "com_react \<equiv> prog_react (\<lambda>bs. bs)"

abbreviation com_port :: "(byte, com_end) running line port" where
  "com_port \<equiv> prog_port (\<lambda>bs. bs)"

abbreviation com_start :: "com_end tx_io \<Rightarrow> rat \<Rightarrow> (byte, com_end) running line" where
  "com_start \<equiv> prog_start (\<lambda>bs. bs)"

definition com_finished :: "(byte, com_end) running \<Rightarrow> bool" where
  "com_finished x \<longleftrightarrow> (\<exists>good bad. prog_end (fst x) = Some (ComDone good bad))"

lemma com_waits: "fst (com_eot_wait good bad []) = []" "fst (com_data_wait g rd kb i good bad fr rs []) = []"
  by (simp_all add: com_eot_wait_def com_data_wait_def tx_bind_def)

lemma com_offers:
  assumes "d = com_disk regs rd" "\<And>i. \<not> abort_key (kb i)"
    and "ag_heads g = d_heads d" "ag_spt g = d_spt d" "d_spt d \<noteq> 0"
  shows "tx_lbas rs = ks \<Longrightarrow> consumes m bs [] (com_loop g rd kb i good bad rs) \<Longrightarrow>
    offers com_react com_finished d ks good bad (com_react bs (m, past))"
proof (induction ks arbitrary: rs m bs i good bad past)
  case Nil
  have "consumes m bs (eot_frame good bad) (com_eot_wait good bad)"
    using consumes_trans [OF Nil(2) com_loop_end [OF Nil(1)]] by simp
  note eot = prog_react_consumes [OF this com_waits(1)]
  have "fst (tx_return (ComDone good bad) []) = ([] :: byte list)" by (simp add: tx_return_def)
  note ended = prog_react_consumes [OF com_eot_acked this]
  show ?case by (simp add: eot ended com_finished_def prog_end_def tx_return_def)
next
  case (Cons k ks)
  let ?fr = "data_frame (word_of_nat k) (disk_status d k) (disk_bytes d k)"
  let ?good = "good + of_bool (disk_read d k \<noteq> None)" and ?bad = "bad + of_bool (disk_read d k = None)"
  obtain rs' where rs': "tx_lbas rs' = ks"
    "consumes (com_loop g rd kb i good bad rs) [] ?fr (com_data_wait g rd kb (i + 1) ?good ?bad ?fr rs')"
    using com_loop_next [where kb = kb, OF Cons.prems(1) assms] by blast
  have "consumes m bs ?fr (com_data_wait g rd kb (i + 1) ?good ?bad ?fr rs')"
    using consumes_trans [OF Cons.prems(2) rs'(2)] by simp
  note sent = prog_react_consumes [OF this com_waits(2)]
  have "consumes (com_data_wait g rd kb (i + 1) ?good ?bad ?fr rs') [ACK] [] (com_loop g rd kb (i + 1) ?good ?bad rs')"
    by (rule com_data_acked) simp
  from Cons.IH [OF rs'(1) this] show ?case by (simp add: sent del: of_bool_eq)
qed

lemma com_main_consumes:
  assumes "cl AND 0x3F \<noteq> 0" "d = com_disk (ch, cl, dh) rd"
    and wl: "\<forall>(a, b)\<in>set wl. a < 2 ^ 32 \<and> b < 2 ^ 32" "length wl \<le> MAXR" "cmd_payload wl = Inr p"
  obtains g where "ag_heads g = d_heads d" "ag_spt g = d_spt d"
    "fst (snd (com_main tail (False, ch, cl, dh) rd kb) []) = send_info d"
    "consumes (after_bytes (snd (com_main tail (False, ch, cl, dh) rd kb)) []) (frame TYPE_CMD p) []
       (com_loop g rd kb 0 0 0 (range_words wl))"
proof -
  obtain g where g: "get_geom (False, ch, cl, dh) = Some g" "ag_heads g = d_heads d" "ag_spt g = d_spt d"
    "com_handshake g = handshake d"
    unfolding assms(2) by (rule com_geometry [of "(ch, cl, dh)" rd])
  have main: "snd (com_main tail (False, ch, cl, dh) rd kb) = tx_bind (handshake d) (com_loop g rd kb 0 0 0)"
    by (simp add: com_main_def g(1,4) case_prod_unfold Let_def)
  have start: "fst (snd (com_main tail (False, ch, cl, dh) rd kb) []) = send_info d"
    by (simp add: main tx_bind_def handshake_start)
  have "consumes (snd (com_main tail (False, ch, cl, dh) rd kb)) (frame TYPE_CMD p @ []) (send_info d @ [])
      (com_loop g rd kb 0 0 0 (range_words wl))"
    unfolding main by (rule consumes_bind_return [OF handshake_consumes [OF wl]]) simp
  then have "consumes (after_bytes (snd (com_main tail (False, ch, cl, dh) rd kb)) []) (frame TYPE_CMD p) []
      (com_loop g rd kb 0 0 0 (range_words wl))"
    by (intro after_start) (simp add: start)
  with g start that show thesis by blast
qed

lemma com_capture_run:
  assumes "cl AND 0x3F \<noteq> 0" "d = com_disk (ch, cl, dh) rd" "bios_sized d" "\<And>i. \<not> abort_key (kb i)"
    and "open_image opts fs (unat (d_total d)) BPS = Inr (f, sm)"
    and "unat (d_total d) * BPS \<le> length f" "length sm = unat (d_total d)"
    and "choose_worklist opts sm (unat (d_total d)) = Inr wl"
  shows "\<exists>out s'. capture com_port opts fs (com_start (snd (com_main tail (False, ch, cl, dh) rd kb)) timeout) =
        Some (Captured out, s')
    \<and> com_finished (line_peer s')
    \<and> cap_end out = Inr (length (filter (\<lambda>k. disk_read d k \<noteq> None) (lbas_of wl)) mod 2 ^ 32,
                       length (filter (\<lambda>k. disk_read d k = None) (lbas_of wl)) mod 2 ^ 32)
    \<and> cap_mapfile out = write_mapfile (rx_map (cap_state out)) BPS (unat (d_total d))
    \<and> length (rx_map (cap_state out)) = unat (d_total d)
    \<and> length (rx_image (cap_state out)) = length f
    \<and> (\<forall>k<unat (d_total d).
         file_read_at (k * BPS) BPS (rx_image (cap_state out)) =
           (if k \<in> covered wl then disk_bytes d k else file_read_at (k * BPS) BPS f)
         \<and> rx_map (cap_state out) ! k =
           (if k \<in> covered wl then (if disk_read d k = None then BAD else GOOD) else sm ! k))"
proof (rule prog.offered_run [OF _ assms(3,5-8)])
  let ?m = "snd (com_main tail (False, ch, cl, dh) rd kb)"
  obtain g where "get_geom (False, ch, cl, dh) = Some g" "com_handshake g = handshake d"
    unfolding assms(2) by (rule com_geometry [of "(ch, cl, dh)" rd])
  then have "fst (?m []) = send_info d"
    by (simp add: com_main_def case_prod_unfold Let_def tx_bind_def handshake_start)
  then show "line_queue (com_start ?m timeout) = send_info d" by simp
  fix p
  assume p: "cmd_payload wl = Inr p" "length wl \<le> MAXR" "\<forall>(a, b)\<in>set wl. a < 2 ^ 32 \<and> b < 2 ^ 32"
  obtain g where g: "ag_heads g = d_heads d" "ag_spt g = d_spt d"
    "consumes (after_bytes ?m []) (frame TYPE_CMD p) [] (com_loop g rd kb 0 0 0 (range_words wl))"
    by (rule com_main_consumes [OF assms(1,2) p(3,2,1)])
  have "d_spt d \<noteq> 0" using assms(1,2) com_disk_spt by simp
  from com_offers [OF assms(2,4) g(1,2) this tx_lbas_words [OF p(3)] g(3), of "fst (?m [])"]
  show "offers com_react com_finished d (lbas_of wl) 0 0
      (com_react (frame TYPE_CMD p) (line_peer (com_start ?m timeout)))" by simp
qed

section \<open>Properties\<close>

text \<open>A drive of two sectors, the second of which cannot be read.\<close>

definition half_reads :: int13_reads where
  "half_reads regs t = (if regs = (0, 1, 0) \<and> 1 \<le> t then Some (replicate BPS 9) else None)"

lemma half_disk:
  "d_total (com_disk (0, 2, 0) half_reads) = 2" "bios_sized (com_disk (0, 2, 0) half_reads)"
  "disk_read (com_disk (0, 2, 0) half_reads) 0 = Some (replicate BPS 9)"
  "disk_read (com_disk (0, 2, 0) half_reads) 1 = None"
proof -
  have d: "d_total (com_disk (0, 2, 0) half_reads) = 2" "d_heads (com_disk (0, 2, 0) half_reads) = 1"
    "d_spt (com_disk (0, 2, 0) half_reads) = 2"
    by (simp_all add: com_disk_def unpack_geometry_def disk_of_geometry_def Let_def)
  then show "d_total (com_disk (0, 2, 0) half_reads) = 2" by simp
  show "bios_sized (com_disk (0, 2, 0) half_reads)" by (simp add: bios_sized_def half_reads_def)
  have tries: "read_from r c 0 READ_TRIES =
      (case r c 0 of Some b \<Rightarrow> Some b | None \<Rightarrow> case r c 1 of Some b \<Rightarrow> Some b | None \<Rightarrow>
       case r c 2 of Some b \<Rightarrow> Some b | None \<Rightarrow> case r c 3 of Some b \<Rightarrow> Some b | None \<Rightarrow> r c 4)" for r c
    by (simp add: READ_TRIES_def eval_nat_numeral split: option.split)
  have "pack_chs (0, 0, 1) = (0, 1, 0)" "pack_chs (0, 0, 2) = (0, 2, 0)" by (simp_all add: pack_chs_def)
  then show "disk_read (com_disk (0, 2, 0) half_reads) 0 = Some (replicate BPS 9)"
    "disk_read (com_disk (0, 2, 0) half_reads) 1 = None"
    by (simp_all add: disk_read_def read_with_retries_def tries d chs_of_def half_reads_def)
qed

text \<open>C25: A capture from \<open>TX.COM\<close> on a line that loses nothing, with no key pressed, comes to its
  end, though the program's waits never expire: \<open>TX.COM\<close> finishes, the totals count the
  readable and the unreadable sectors of the worklist, each of these sectors has its bytes in
  the image (zeros where the disk could not be read) and its status in the map, and no other
  sector of image or map has changed.\<close>

theorem com_capture:
  assumes "cl AND 0x3F \<noteq> 0" "d = com_disk (ch, cl, dh) rd" "bios_sized d" "\<And>i. \<not> abort_key (kb i)"
    and "open_image opts fs (unat (d_total d)) BPS = Inr (f, sm)"
    and "unat (d_total d) * BPS \<le> length f" "length sm = unat (d_total d)"
    and "choose_worklist opts sm (unat (d_total d)) = Inr wl"
  shows "\<exists>out s'. capture com_port opts fs (com_start (snd (com_main tail (False, ch, cl, dh) rd kb)) timeout) =
        Some (Captured out, s')
    \<and> com_finished (line_peer s')
    \<and> cap_end out = Inr (length (filter (\<lambda>k. disk_read d k \<noteq> None) (lbas_of wl)) mod 2 ^ 32,
                       length (filter (\<lambda>k. disk_read d k = None) (lbas_of wl)) mod 2 ^ 32)
    \<and> cap_mapfile out = write_mapfile (rx_map (cap_state out)) BPS (unat (d_total d))
    \<and> length (rx_map (cap_state out)) = unat (d_total d)
    \<and> length (rx_image (cap_state out)) = length f
    \<and> (\<forall>k<unat (d_total d).
         file_read_at (k * BPS) BPS (rx_image (cap_state out)) =
           (if k \<in> covered wl then disk_bytes d k else file_read_at (k * BPS) BPS f)
         \<and> rx_map (cap_state out) ! k =
           (if k \<in> covered wl then (if disk_read d k = None then BAD else GOOD) else sm ! k))"
  by (rule com_capture_run [OF assms])

theorem com_capture_witness:
  "\<exists>out s'. capture com_port fresh_opts no_files
      (com_start (snd (com_main [] (False, 0, 2, 0) half_reads (\<lambda>_. None))) 30) = Some (Captured out, s')
    \<and> cap_end out = Inr (1, 1) \<and> com_finished (line_peer s')
    \<and> file_read_at 0 BPS (rx_image (cap_state out)) = replicate BPS 9"
proof -
  let ?d = "com_disk (0, 2, 0) half_reads"
  have opts: "\<not> opt_resume fresh_opts" "opt_range fresh_opts = []" by (simp_all add: fresh_opts_def)
  have t: "unat (d_total ?d) = 2" by (simp add: half_disk)
  have "replicate 2 UNTRIED = [UNTRIED, UNTRIED]" by (simp add: numeral_2_eq_2)
  then have image: "open_image fresh_opts no_files (unat (d_total ?d)) BPS =
      Inr (file_truncate (2 * BPS) [], [UNTRIED, UNTRIED])"
    by (simp add: fresh_image opts t)
  have wl: "choose_worklist fresh_opts [UNTRIED, UNTRIED] (unat (d_total ?d)) = Inr [(0, 2)]"
    by (simp add: fresh_worklist opts t)
  have two: "[0..<2] = [0, Suc 0]" by (simp add: numeral_2_eq_2)
  have quiet: "\<not> abort_key ((\<lambda>_. None) i)" for i :: nat by (simp add: abort_key_def)
  show ?thesis
    using com_capture [OF _ refl half_disk(2) quiet image _ _ wl, of "[]" 30] half_disk
    by (fastforce simp: two disk_bytes_def covered_def)
qed

end
