(* ===== verification/WriterProps.thy ===== *)
theory WriterProps
  imports ProgramLine
begin

text \<open>
  What \<open>WR.COM\<close> does to the drive, whatever arrives on the line: only sectors of its worklist
  are written, in its order, each with the contents of a frame of its own that was received
  whole and with the right checksum.
\<close>

section \<open>What was received\<close>

lemma recv_bytes_events:
  "recv_bytes n crc evs = (out, res) \<Longrightarrow> out = [] \<and>
    (\<forall>bs c evs'. res = Some (Some (bs, c), evs') \<longrightarrow>
       evs = map Some bs @ evs' \<and> length bs = n \<and> c = foldl crc16_update crc bs)"
proof (induction n arbitrary: crc evs out res)
  case (Suc n)
  show ?case
  proof (cases evs)
    case (Cons e evs1)
    show ?thesis
    proof (cases e)
      case (Some b)
      obtain o1 r1 where run: "recv_bytes n (crc16_update crc b) evs1 = (o1, r1)" by fastforce
      from Suc.IH [OF this] Suc.prems show ?thesis
        by (auto simp: Cons Some run tx_bind_def [of "recv_bytes _ _"] tx_return_def split: option.splits)
    qed (use Suc.prems Cons in \<open>auto simp: tx_return_def\<close>)
  qed (use Suc.prems in simp)
qed (simp add: tx_return_def)

lemma recv_bytes_taken:
  assumes "tx_bind (recv_bytes n crc) (\<lambda>res. case res of None \<Rightarrow> tx_return None | Some (bs, c) \<Rightarrow> k bs c) evs =
    (out, Some (Some r, evs'))"
  obtains bs evs1 where "evs = map Some bs @ evs1" "length bs = n"
    "k bs (foldl crc16_update crc bs) evs1 = (out, Some (Some r, evs'))"
proof -
  obtain out1 a evs1 out2 where run: "recv_bytes n crc evs = (out1, Some (a, evs1))"
    "(case a of None \<Rightarrow> tx_return None | Some (bs, c) \<Rightarrow> k bs c) evs1 = (out2, Some (Some r, evs'))" "out = out1 @ out2"
    by (rule tx_bind_split [OF assms])
  from run(2) obtain bs c where "a = Some (bs, c)" by (cases a) (auto simp: tx_return_def)
  with run recv_bytes_events [OF run(1)] that show thesis by simp
qed

text \<open>A frame that is taken.\<close>

abbreviation sector_events :: "nat \<Rightarrow> byte \<Rightarrow> byte list \<Rightarrow> events" where
  "sector_events k st buf \<equiv> map Some (frame TYPE_DATA (le_bytes 4 k @ [st] @ buf))"

lemma wr_frame_taken:
  assumes "wr_frame evs = (out, Some (Some (rlba, buf), evs'))"
  shows "\<exists>st. Some SOH # evs = sector_events (unat rlba) st buf @ evs'" "length buf = BPS" "out = []"
proof -
  from assms obtain evs1 where evs: "evs = Some TYPE_DATA # evs1"
    by (cases evs) (auto simp: wr_frame_def tx_return_def split: if_splits)
  obtain l evs2 where l: "evs1 = map Some l @ evs2" "length l = 4"
    and run: "tx_bind (recv_bytes 1 (foldl crc16_update (crc16_update 0xFFFF TYPE_DATA) l)) (\<lambda>res.
       case res of None \<Rightarrow> tx_return None | Some (_, crc) \<Rightarrow> tx_bind (recv_bytes BPS crc) (\<lambda>res.
         case res of None \<Rightarrow> tx_return None | Some (buf, crc) \<Rightarrow> tx_bind (recv_bytes 2 crc) (\<lambda>res.
           case res of None \<Rightarrow> tx_return None
           | Some (q, _) \<Rightarrow> tx_return (if word16_at 0 q \<noteq> crc then None else Some (word32_at 0 l, buf))))) evs2 =
      (out, Some (Some (rlba, buf), evs'))"
    using assms unfolding wr_frame_def evs tx_bind_wait by (auto elim: recv_bytes_taken simp del: One_nat_def recv_bytes.simps)
  from run obtain s evs3 where s: "evs2 = map Some s @ evs3" "length s = 1"
    and run: "tx_bind (recv_bytes BPS (foldl crc16_update (foldl crc16_update (crc16_update 0xFFFF TYPE_DATA) l) s)) (\<lambda>res.
         case res of None \<Rightarrow> tx_return None | Some (buf, crc) \<Rightarrow> tx_bind (recv_bytes 2 crc) (\<lambda>res.
           case res of None \<Rightarrow> tx_return None
           | Some (q, _) \<Rightarrow> tx_return (if word16_at 0 q \<noteq> crc then None else Some (word32_at 0 l, buf)))) evs3 =
      (out, Some (Some (rlba, buf), evs'))"
    by (rule recv_bytes_taken)
  from run obtain b evs4 where b: "evs3 = map Some b @ evs4" "length b = BPS"
    and run: "tx_bind (recv_bytes 2 (foldl crc16_update (foldl crc16_update (foldl crc16_update (crc16_update 0xFFFF TYPE_DATA) l) s) b)) (\<lambda>res.
           case res of None \<Rightarrow> tx_return None
           | Some (q, _) \<Rightarrow> tx_return (if word16_at 0 q \<noteq> foldl crc16_update (foldl crc16_update (foldl crc16_update (crc16_update 0xFFFF TYPE_DATA) l) s) b
               then None else Some (word32_at 0 l, b))) evs4 =
      (out, Some (Some (rlba, buf), evs'))"
    by (rule recv_bytes_taken)
  from run obtain q evs5 where q: "evs4 = map Some q @ evs5" "length q = 2"
    and run: "tx_return (if word16_at 0 q \<noteq> foldl crc16_update (foldl crc16_update (foldl crc16_update (crc16_update 0xFFFF TYPE_DATA) l) s) b
               then None else Some (word32_at 0 l, b)) evs5 = (out, Some (Some (rlba, buf), evs'))"
    by (rule recv_bytes_taken)
  let ?body = "TYPE_DATA # l @ s @ b"
  have res: "evs5 = evs'" "b = buf" "rlba = word32_at 0 l" "out = []"
    and crc: "word16_at 0 q = foldl crc16_update 0xFFFF ?body"
    using run by (auto simp: tx_return_def split: if_splits)
  have "l = le_bytes 4 (unat rlba)" using word32_at_le [of 0 l] l(2) by (simp add: res)
  moreover have "q = le_bytes 2 (crc16 ?body)"
    using word16_at_le [of 0 q] q(2) crc crc16_word [of ?body] by simp
  moreover obtain st where "s = [st]" using s(2) by (cases s) auto
  ultimately show "\<exists>st. Some SOH # evs = sector_events (unat rlba) st buf @ evs'"
    using evs l(1) s(1) b(1) q(1) res by (intro exI [of _ st]) (simp add: frame_simp)
  show "length buf = BPS" "out = []" using b(2) res by simp_all
qed

text \<open>Reading takes events from the front.\<close>

definition reads_on :: "('o, 'a) dos_io \<Rightarrow> bool" where
  "reads_on m \<longleftrightarrow> (\<forall>evs out r evs'. m evs = (out, Some (r, evs')) \<longrightarrow> (\<exists>read. evs = read @ evs'))"

lemma reads_on_return [simp]: "reads_on (tx_return a)"
  by (simp add: reads_on_def tx_return_def)

lemma reads_on_wait [simp]: "reads_on tx_wait"
proof -
  have "\<exists>read. evs = read @ evs'" if "tx_wait evs = (out, Some (r, evs'))" for evs r evs' and out :: "'a list"
    using that by (cases evs) simp_all
  then show ?thesis by (auto simp: reads_on_def)
qed

lemma reads_on_bind:
  assumes "reads_on m" "\<And>a. reads_on (k a)"
  shows "reads_on (tx_bind m k)"
  unfolding reads_on_def
proof (intro allI impI)
  fix evs out r evs'
  assume "tx_bind m k evs = (out, Some (r, evs'))"
  then show "\<exists>read. evs = read @ evs'"
    using assms by (elim tx_bind_split) (fastforce simp: reads_on_def)
qed

lemma reads_on_bytes [simp]: "reads_on (recv_bytes n crc)"
  by (induction n arbitrary: crc) (auto intro!: reads_on_bind split: option.split)

lemma wr_frame_suffix: "wr_frame evs = (out, Some (r, evs')) \<Longrightarrow> \<exists>read. evs = read @ evs'"
proof -
  have "reads_on wr_frame"
    unfolding wr_frame_def
    by (auto intro!: reads_on_bind split: option.split simp del: One_nat_def recv_bytes.simps)
  then show "wr_frame evs = (out, Some (r, evs')) \<Longrightarrow> \<exists>read. evs = read @ evs'" by (auto simp: reads_on_def)
qed

lemma wr_recv_taken:
  assumes "wr_recv kb i evs = (out, Some ((Some (rlba, buf), j), evs'))"
  shows "\<exists>pre st. evs = pre @ sector_events (unat rlba) st buf @ evs' \<and> length buf = BPS"
  using assms
proof (induction kb i evs arbitrary: out rule: wr_recv.induct)
  case (1 kb i evs)
  have more: ?case if "evs = pre @ evs1" "\<exists>pre st. evs1 = pre @ sector_events (unat rlba) st buf @ evs' \<and> length buf = BPS"
    for pre evs1
    using that by (metis append_assoc)
  show ?case
  proof (cases evs)
    case Nil
    with "1.prems" show ?thesis by simp
  next
    case (Cons e evs1)
    show ?thesis
    proof (cases e)
      case None
      with "1.prems" Cons have "\<not> abort_key (kb i)" "wr_recv kb (i + 1) evs1 = (out, Some ((Some (rlba, buf), j), evs'))"
        by (auto split: if_splits)
      from more [OF _ "1.IH"(1) [OF Cons None this], of "[None]"] show ?thesis by (simp add: Cons None)
    next
      case (Some al)
      show ?thesis
      proof (cases "al = SOH")
        case False
        with "1.prems" Cons Some have "wr_recv kb i evs1 = (out, Some ((Some (rlba, buf), j), evs'))" by simp
        from more [OF _ "1.IH"(2) [OF Cons Some False this], of "[e]"] show ?thesis by (simp add: Cons)
      next
        case True
        obtain o1 x where frame: "wr_frame evs1 = (o1, x)" by fastforce
        show ?thesis
        proof (cases x)
          case None
          with "1.prems" Cons Some True frame show ?thesis by simp
        next
          case x: (Some y)
          obtain f evs2 where y: "y = (f, evs2)" by (cases y)
          show ?thesis
          proof (cases f)
            case None
            obtain o2 z where "wr_recv kb i evs2 = (o2, z)" by fastforce
            with "1.prems" Cons Some True frame x y None have "wr_recv kb i evs2 = (o2, Some ((Some (rlba, buf), j), evs'))"
              by simp
            with "1.IH"(3) [of "Some al" evs1 al o1 x y f evs2] Cons Some True frame x y None
            have "\<exists>pre st. evs2 = pre @ sector_events (unat rlba) st buf @ evs' \<and> length buf = BPS" by auto
            moreover obtain read where "evs1 = read @ evs2"
              using wr_frame_suffix [OF frame [unfolded x y]] by blast
            ultimately show ?thesis using more [of "e # read" evs2] by (simp add: Cons)
          next
            case f: (Some q)
            then have "q = (rlba, buf)" "evs2 = evs'" using "1.prems" Cons Some True frame x y by simp_all
            with wr_frame_taken [of evs1 o1 rlba buf evs'] frame x y f obtain st where
              "Some SOH # evs1 = sector_events (unat rlba) st buf @ evs'" "length buf = BPS" by auto
            then show ?thesis using Cons Some True by (intro exI [of _ "[]"] exI [of _ st]) simp
          qed
        qed
      qed
    qed
  qed
qed

section \<open>What is written\<close>

definition disk_calls :: "wr_action list \<Rightarrow> (chs_regs \<times> byte list \<times> bool) list" where
  "disk_calls acts = concat (map (\<lambda>a. case a of Sent b \<Rightarrow> [] | WriteCall r buf ok \<Rightarrow> [(r, buf, ok)]) acts)"

definition sent_bytes :: "wr_action list \<Rightarrow> byte list" where
  "sent_bytes acts = concat (map (\<lambda>a. case a of Sent b \<Rightarrow> [b] | WriteCall r buf ok \<Rightarrow> []) acts)"

lemma disk_calls_simps [simp]:
  "disk_calls [] = []" "disk_calls (as @ bs) = disk_calls as @ disk_calls bs" "disk_calls (Sent b # as) = disk_calls as"
  "disk_calls (WriteCall r buf ok # as) = (r, buf, ok) # disk_calls as" "disk_calls (map Sent out) = []"
  by (simp_all add: disk_calls_def comp_def)

lemma sent_bytes_simps [simp]:
  "sent_bytes [] = []" "sent_bytes (as @ bs) = sent_bytes as @ sent_bytes bs" "sent_bytes (Sent b # as) = b # sent_bytes as"
  "sent_bytes (WriteCall r buf ok # as) = sent_bytes as" "sent_bytes (map Sent out) = out"
  by (simp_all add: sent_bytes_def comp_def)

text \<open>The calls for one sector, and whether it was written.\<close>

definition sector_calls :: "tx_disk \<Rightarrow> int13_writes \<Rightarrow> nat \<Rightarrow> byte list \<Rightarrow> (chs_regs \<times> byte list \<times> bool) list" where
  "sector_calls d wr k buf =
     disk_calls (fst (write_sector wr (chs_of (unat (d_heads d)) (unat (d_spt d)) k) buf))"

definition sector_ok :: "tx_disk \<Rightarrow> int13_writes \<Rightarrow> nat \<Rightarrow> byte list \<Rightarrow> bool" where
  "sector_ok d wr k buf = snd (write_sector wr (chs_of (unat (d_heads d)) (unat (d_spt d)) k) buf)"

lemma write_sector_quiet [simp]: "sent_bytes (fst (write_sector wr cur buf)) = []"
proof -
  have "sent_bytes (fst (write_from wr cur buf t n)) = []" for t n
    by (induction n arbitrary: t) (simp_all add: case_prod_unfold Let_def)
  then show ?thesis by (simp add: write_sector_def)
qed

text \<open>Sectors that arrived one after the other, each in a whole frame with the right checksum.\<close>

fun delivered :: "(nat \<times> byte list) list \<Rightarrow> events \<Rightarrow> bool" where
  "delivered [] evs = True"
| "delivered ((k, buf) # ws) evs =
     (\<exists>pre st post. evs = pre @ sector_events k st buf @ post \<and> length buf = BPS \<and> delivered ws post)"

lemma delivered_later: "delivered ws evs \<Longrightarrow> delivered ws (pre @ evs)"
  by (cases ws) (auto, metis append_assoc)

lemma tx_lbas_Cons: "lba < stop \<Longrightarrow> tx_lbas ((lba, stop) # rs) = unat lba # tx_lbas ((lba + 1, stop) # rs)"
  by (simp add: tx_lbas_def word_less_nat_alt upt_conv_Cons unat_suc_below)

lemma tx_lbas_empty: "\<not> lba < stop \<Longrightarrow> tx_lbas ((lba, stop) # rs) = tx_lbas rs"
  by (simp add: tx_lbas_def word_less_nat_alt)

lemma wr_stop_sends: "\<exists>bs. fst (wr_stop good bad e evs) = map Sent bs"
  by (auto simp: wr_stop_def tx_bind_def sending_def tx_return_def split: prod.split option.split)

lemma wr_stop_end: "snd (wr_stop good bad e evs) = Some (e', evs') \<Longrightarrow> e' = e"
  by (auto simp: wr_stop_def tx_bind_def sending_def tx_return_def split: prod.splits option.splits)

text \<open>The part of the worklist that a run has handled, and what it leaves to do.\<close>

definition wrote ::
  "tx_disk \<Rightarrow> int13_writes \<Rightarrow> nat list \<Rightarrow> 32 word \<Rightarrow> 32 word \<Rightarrow> events \<Rightarrow>
    wr_action list \<times> (wr_end \<times> events) option \<Rightarrow> (nat \<times> byte list) list \<Rightarrow> nat list \<Rightarrow> bool" where
  "wrote d wr ks good bad evs run ws left \<longleftrightarrow>
     ks = map fst ws @ left \<and> delivered ws evs \<and>
     disk_calls (fst run) = concat (map (\<lambda>(k, buf). sector_calls d wr k buf) ws) \<and>
     (\<forall>g b e. snd run = Some (WrDone g b, e) \<longrightarrow> left = [] \<and>
        g = good + of_nat (length (filter (\<lambda>(k, buf). sector_ok d wr k buf) ws)) \<and>
        b = bad + of_nat (length (filter (\<lambda>(k, buf). \<not> sector_ok d wr k buf) ws)))"

lemma wrote_nothing:
  assumes "disk_calls (fst run) = []" "\<And>g b e. snd run = Some (WrDone g b, e) \<Longrightarrow> ks = [] \<and> g = good \<and> b = bad"
  shows "wrote d wr ks good bad evs run [] ks"
  using assms by (simp add: wrote_def)

lemma wrote_later:
  assumes "wrote d wr ks good bad evs1 run ws left" "evs = pre @ evs1" "disk_calls acts = []"
  shows "wrote d wr ks good bad evs (let (out', r) = run in (acts @ out', r)) ws left"
  using assms delivered_later by (auto simp: wrote_def case_prod_unfold)

lemma wrote_sector:
  assumes "wrote d wr ks good' bad' evs1 run ws left"
    and "evs = pre @ sector_events k st buf @ evs1" "length buf = BPS"
    and "disk_calls acts = sector_calls d wr k buf"
    and "(good', bad') = (if sector_ok d wr k buf then (good + 1, bad) else (good, bad + 1))"
  shows "wrote d wr (k # ks) good bad evs (let (out', r) = run in (acts @ out', r)) ((k, buf) # ws) left"
  using assms by (auto simp: wrote_def case_prod_unfold split: if_splits)

lemma wr_loop_wrote:
  assumes "ag_heads g = d_heads d" "ag_spt g = d_spt d" "d_heads d \<noteq> 0" "d_spt d \<noteq> 0"
  shows "\<exists>ws left. wrote d wr (tx_lbas rs) good bad evs (wr_loop g wr kb i good bad rs evs) ws left"
  using assms
proof (induction g wr kb i good bad rs evs rule: wr_loop.induct)
  case (1 g wr kb i good bad evs)
  have "disk_calls (fst (wr_stop good bad (WrDone good bad) evs)) = []"
    using wr_stop_sends [of good bad "WrDone good bad" evs] by auto
  then show ?case
    using wr_stop_end [of good bad "WrDone good bad" evs]
    by (intro exI [of _ "[]"] exI) (auto intro!: wrote_nothing simp: wr_loop.simps tx_lbas_def)
next
  case (2 g wr kb i good bad lba stop rs evs)
  have stop: "\<exists>ws left. wrote d wr ks good bad evs' (let (out', r) = wr_stop good bad (WrAborted good bad) evs1
      in (map Sent out @ out', r)) ws left" for ks evs' evs1 out
    using wr_stop_sends [of good bad "WrAborted good bad" evs1] wr_stop_end [of good bad "WrAborted good bad" evs1]
    by (intro exI [of _ "[]"] exI) (auto intro!: wrote_nothing simp: case_prod_unfold)
  show ?case
  proof (cases "lba < stop")
    case False
    with 2(3) [OF False 2(4-)] show ?thesis by (simp add: wr_loop.simps tx_lbas_empty)
  next
    case True
    note loop = wr_loop.simps(2) [of g wr kb i good bad lba stop rs evs, unfolded if_P [OF True]]
    show ?thesis
    proof (cases "abort_key (kb i)")
      case abort: True
      then show ?thesis using stop [of _ _ evs "[]"] loop by (simp add: case_prod_unfold)
    next
      case key: False
      note loop = loop [unfolded if_not_P [OF key]]
      obtain out res where recv: "wr_recv kb (i + 1) evs = (out, res)" by fastforce
      show ?thesis
      proof (cases res)
        case None
        then show ?thesis using loop recv
          by (intro exI [of _ "[]"] exI) (auto intro!: wrote_nothing)
      next
        case (Some q)
        obtain f j evs1 where q: "q = ((f, j), evs1)" by (metis prod.exhaust)
        show ?thesis
        proof (cases f)
          case None
          then show ?thesis using stop [of _ evs evs1 out] loop recv Some q by (simp del: disk_calls_simps)
        next
          case f: (Some x)
          obtain rlba buf where x: "x = (rlba, buf)" by (cases x)
          obtain pre st where evs: "evs = pre @ sector_events (unat rlba) st buf @ evs1" "length buf = BPS"
            using wr_recv_taken recv Some q f x by blast
          show ?thesis
          proof (cases "rlba = lba")
            case False
            have "evs = (pre @ sector_events (unat rlba) st buf) @ evs1" using evs by simp
            note evs = this
            obtain ws left where rest:
              "wrote d wr (tx_lbas ((lba, stop) # rs)) good bad evs1 (wr_loop g wr kb j good bad ((lba, stop) # rs) evs1) ws left"
              using 2(1) [OF True key recv [symmetric] Some q [symmetric] refl f x [symmetric] False] 2(4-) by blast
            from wrote_later [OF rest evs, of "map Sent out @ [Sent ACK]"] show ?thesis
              using loop recv Some q f x False by auto
          next
            case same: True
            let ?cur = "chs_of (unat (d_heads d)) (unat (d_spt d)) (unat lba)"
            have cur: "lba_to_chs (ag_heads g) (ag_spt g) (hi16 lba, lo16 lba) = Some ?cur"
              using lba_to_chs_eq 2(4-) by simp
            obtain calls ok where w: "write_sector wr ?cur buf = (calls, ok)" by fastforce
            obtain good' bad' where tally: "(if ok then (good + 1, bad) else (good, bad + 1)) = (good', bad')" by fastforce
            obtain ws left where rest:
              "wrote d wr (tx_lbas ((lba + 1, stop) # rs)) good' bad' evs1 (wr_loop g wr kb j good' bad' ((lba + 1, stop) # rs) evs1) ws left"
              using 2(2) [OF True key recv [symmetric] Some q [symmetric] refl f x [symmetric] _ cur refl w [symmetric] refl tally [symmetric]] same 2(4-) by blast
            have calls: "disk_calls (map Sent out @ calls @ [Sent ACK]) = sector_calls d wr (unat lba) buf"
              by (simp add: sector_calls_def w)
            have "(good', bad') = (if sector_ok d wr (unat lba) buf then (good + 1, bad) else (good, bad + 1))"
              using tally by (simp add: sector_ok_def w)
            from wrote_sector [OF rest evs [unfolded same] calls this] show ?thesis
              using loop recv Some q f x same cur w tally by (auto simp: tx_lbas_Cons [OF True])
          qed
        qed
      qed
    qed
  qed
qed

section \<open>Properties\<close>

text \<open>C7: Whatever bytes arrive on the line, damaged, lost or made up, and whatever the drive and
  the keyboard do: without a capital Y \<open>WR.COM\<close> takes no action at all; otherwise the calls
  of INT 13h that write are those for the sectors of the worklist it took in the handshake, in
  the order of the worklist, none skipped and none twice, each at the registers of its sector
  and with the contents of a frame for that sector that arrived whole with the right checksum,
  after the frames of the sectors before. When the program ends regularly every sector of the
  worklist was handled, and its totals count those that could be written and the others.\<close>

theorem writer_only_worklist:
  assumes "snd (wr_main tail (False, ch, cl, dh) key wr kb) evs = (acts, res)"
    and "cl AND 0x3F \<noteq> 0" "d = com_disk (ch, cl, dh) rd"
  shows "(key \<noteq> 0x59 \<longrightarrow> acts = [] \<and> res = Some (WrDeclined, evs))
    \<and> (disk_calls acts = [] \<or>
       (\<exists>out rs evs1 ws left. handshake d evs = (out, Some (rs, evs1)) \<and> tx_lbas rs = map fst ws @ left \<and>
          delivered ws evs1 \<and> disk_calls acts = concat (map (\<lambda>(k, buf). sector_calls d wr k buf) ws)))
    \<and> (\<forall>g b e. res = Some (WrDone g b, e) \<longrightarrow>
       (\<exists>out rs evs1 ws. handshake d evs = (out, Some (rs, evs1)) \<and> tx_lbas rs = map fst ws \<and> delivered ws evs1 \<and>
          disk_calls acts = concat (map (\<lambda>(k, buf). sector_calls d wr k buf) ws) \<and>
          g = of_nat (length (filter (\<lambda>(k, buf). sector_ok d wr k buf) ws)) \<and>
          b = of_nat (length (filter (\<lambda>(k, buf). \<not> sector_ok d wr k buf) ws))))"
proof (cases "key = 0x59")
  case False
  obtain g where "get_geom (False, ch, cl, dh) = Some g"
    by (rule com_geometry [of "(ch, cl, dh)" rd])
  then have "acts = []" "res = Some (WrDeclined, evs)"
    using assms(1) False by (simp_all add: wr_main_def case_prod_unfold Let_def tx_return_def)
  then show ?thesis by simp
next
  case True
  obtain g where g: "snd (wr_main tail (False, ch, cl, dh) 0x59 wr kb) =
      tx_bind (sending (handshake d)) (wr_loop g wr kb 0 0 0)"
    "ag_heads g = d_heads d" "ag_spt g = d_spt d" "d_heads d \<noteq> 0" "d_spt d \<noteq> 0"
    using assms(2,3) by (rule wr_main_confirmed)
  obtain out r where hs: "handshake d evs = (out, r)" by fastforce
  show ?thesis
  proof (cases r)
    case None
    with assms(1) True g(1) hs show ?thesis by (auto simp: tx_bind_def sending_def)
  next
    case (Some q)
    obtain rs evs1 where q: "q = (rs, evs1)" by (cases q)
    obtain ws left where w: "wrote d wr (tx_lbas rs) 0 0 evs1 (wr_loop g wr kb 0 0 0 rs evs1) ws left"
      using wr_loop_wrote [OF g(2-5)] by blast
    have "acts = map Sent out @ fst (wr_loop g wr kb 0 0 0 rs evs1)" "res = snd (wr_loop g wr kb 0 0 0 rs evs1)"
      using assms(1) True g(1) hs Some q by (auto simp: tx_bind_def sending_def case_prod_unfold Let_def)
    with w True show ?thesis
      by (auto simp: wrote_def hs Some q)
  qed
qed

text \<open>A session: the command for one sector, noise, the sector with a damaged byte, the sector.\<close>

theorem writer_only_worklist_witness:
  "\<exists>acts res. snd (wr_main [] (False, 0, 2, 0) 0x59 (\<lambda>_ _ t. 0 < t) (\<lambda>_. None))
        (map Some (frame TYPE_CMD small_payload) @ sector_events 0 STATUS_GOOD (replicate BPS 7)) = (acts, res)
    \<and> disk_calls acts = [((0, 1, 0), replicate BPS 7, False), ((0, 1, 0), replicate BPS 7, True)]
    \<and> (\<exists>out rs evs1 buf ws. handshake (com_disk (0, 2, 0) (\<lambda>_ _. None))
        (map Some (frame TYPE_CMD small_payload) @ sector_events 0 STATUS_GOOD (replicate BPS 7)) = (out, Some (rs, evs1)) \<and>
        delivered ((0, buf) # ws) evs1)"
proof -
  let ?d = "com_disk (0, 2, 0) (\<lambda>_ _. None)" and ?wr = "\<lambda>_ _ t. (0 :: nat) < t" and ?kb = "\<lambda>_. None"
  let ?m = "snd (wr_main [] (False, 0, 2, 0) 0x59 ?wr ?kb)"
  let ?evs = "map Some (frame TYPE_CMD small_payload) @ sector_events 0 STATUS_GOOD (replicate BPS 7)"
  let ?w = "write_sector ?wr (chs_of (unat (d_heads ?d)) (unat (d_spt ?d)) 0) (replicate BPS 7)"
  have cl: "(2 :: 8 word) AND 0x3F \<noteq> 0" by simp
  have wl: "\<forall>(a, b)\<in>set [(0, 2)]. a < (2 :: nat) ^ 32 \<and> b < (2 :: nat) ^ 32" "length [(0 :: nat, 2 :: nat)] \<le> MAXR" by (simp_all add: MAXR_def)
  obtain g where g: "ag_heads g = d_heads ?d" "ag_spt g = d_spt ?d" "d_heads ?d \<noteq> 0" "d_spt ?d \<noteq> 0"
    "?m = tx_bind (sending (handshake ?d)) (wr_loop g ?wr ?kb 0 0 0)"
    using cl refl by (rule wr_main_confirmed)
  have hs: "consumes (sending (handshake ?d)) (frame TYPE_CMD small_payload) (map Sent (send_info ?d)) (tx_return (range_words [(0, 2)]))"
    using consumes_sending [OF handshake_consumes [OF wl small_command]] by simp
  have lbas: "tx_lbas (range_words [(0, 2)]) = [0, 1]" by (simp add: tx_lbas_def upt_rec)
  have quiet: "\<not> abort_key (?kb i)" for i :: nat by (simp add: abort_key_def)
  obtain calls ok where w: "?w = (calls, ok)" by fastforce
  note take = wr_loop_take [where kb = ?kb and wr = ?wr, OF _ length_replicate quiet g(1-4)]
  obtain rs' where rs': "tx_lbas rs' = [1]"
    "consumes (wr_loop g ?wr ?kb 0 0 0 (range_words [(0, 2)])) (frame TYPE_DATA (le_bytes 4 0 @ [STATUS_GOOD] @ replicate BPS 7))
      (calls @ [Sent ACK]) (wr_loop g ?wr ?kb (0 + 1) (0 + of_bool ok) (0 + of_bool (\<not> ok)) rs')"
    using take [OF lbas w] by blast
  obtain calls' ok' where "write_sector ?wr (chs_of (unat (d_heads ?d)) (unat (d_spt ?d)) 1) (replicate BPS 7) = (calls', ok')"
    by fastforce
  from take [OF rs'(1) this]
  have "fst (wr_loop g ?wr ?kb (0 + 1) (0 + of_bool ok) (0 + of_bool (\<not> ok)) rs' []) = []" by blast
  then obtain res where "?m ?evs = (map Sent (send_info ?d) @ calls @ [Sent ACK], res)"
    using consumes_bind_return [where k = "wr_loop g ?wr ?kb 0 0 0", OF hs rs'(2)]
    by (auto simp: g(5) consumes_def case_prod_unfold dest!: spec [of _ "[]"])
  note run = this
  have "sector_regs (chs_of (unat (d_heads ?d)) (unat (d_spt ?d)) 0) = (0, 1, 0)"
    by (simp add: com_disk_def unpack_geometry_def disk_of_geometry_def Let_def chs_of_def sector_regs_def)
  then have calls: "disk_calls calls = [((0, 1, 0), replicate BPS 7, False), ((0, 1, 0), replicate BPS 7, True)]"
    using w by (auto simp: write_sector_def READ_TRIES_def eval_nat_numeral del: replicate.simps)
  obtain out rs evs1 ws left where hs: "handshake ?d ?evs = (out, Some (rs, evs1))" "tx_lbas rs = map fst ws @ left"
    "delivered ws evs1" "disk_calls calls = concat (map (\<lambda>(k, buf). sector_calls ?d ?wr k buf) ws)"
    using writer_only_worklist [where rd = "\<lambda>_ _. None", OF run cl refl] calls by auto
  then obtain k buf ws' where ws: "ws = (k, buf) # ws'" using calls by (cases ws) auto
  have "handshake ?d ?evs = (send_info ?d, Some (range_words [(0, 2)], sector_events 0 STATUS_GOOD (replicate BPS 7)))"
    using handshake_consumes [OF wl small_command, of ?d] by (simp add: consumes_def tx_return_def)
  with hs(1,2) ws lbas have "k = 0" by auto
  with hs(1,3) ws run calls show ?thesis by fastforce
qed

end
