(* ===== verification/CloneSession.thy ===== *)
theory CloneSession
  imports ComSessions WriterProps Restore
begin

text \<open>
  A whole restore: \<open>rx.py --restore\<close> at one end of the line, \<open>WR.COM\<close> at the other. On a line
  that loses nothing the clone is exact; the answers of the writer and the reads of the host
  also show what a lost last answer does.
\<close>

section \<open>A writer on the line\<close>

text \<open>
  A writer that has its worklist: it answers the frame of each sector, sent \<open>m\<close> times in vain
  before, with \<open>ACK\<close>, and with its totals after the last one; \<open>ok k\<close> says whether sector \<open>k\<close>
  is counted good.
\<close>

fun late ::
  "(byte list \<Rightarrow> 'p \<Rightarrow> 'p \<times> byte list) \<Rightarrow> byte list \<Rightarrow> nat \<Rightarrow> ('p \<times> byte list \<Rightarrow> bool) \<Rightarrow> 'p \<Rightarrow> bool" where
  "late react fr 0 Q p \<longleftrightarrow> (case react fr p of (p', out) \<Rightarrow> \<exists>rest. out = ACK # rest \<and> Q (p', rest))"
| "late react fr (Suc m) Q p \<longleftrightarrow> (case react fr p of (p', out) \<Rightarrow> out = [] \<and> late react fr m Q p')"

fun takes ::
  "(byte list \<Rightarrow> 'p \<Rightarrow> 'p \<times> byte list) \<Rightarrow> ('p \<Rightarrow> bool) \<Rightarrow> byte list \<Rightarrow> (nat \<Rightarrow> bool) \<Rightarrow> (nat \<times> nat) list \<Rightarrow>
    32 word \<Rightarrow> 32 word \<Rightarrow> 'p \<times> byte list \<Rightarrow> bool" where
  "takes react fin f ok [] good bad x \<longleftrightarrow>
     snd x = eot_frame good bad \<and> fin (fst (react [ACK] (fst x)))"
| "takes react fin f ok ((k, m) # kms) good bad x \<longleftrightarrow>
     snd x = [] \<and> k < 2 ^ 32 \<and> m < LINK_TRIES \<and>
     late react (frame TYPE_DATA (sector_payload f k)) m
       (takes react fin f ok kms (good + of_bool (ok k)) (bad + of_bool (\<not> ok k))) (fst x)"

context quiet_line
begin

lemma late_sector:
  assumes "late react (frame TYPE_DATA p) m Q (peer s)" "inq s = []" "m < n"
  shows "\<exists>s'. send_sector P p n s = (Inr True, s') \<and> Q (peer s', inq s')"
  using assms
proof (induction m arbitrary: s n)
  case 0
  obtain l where n: "n = Suc l" using 0 by (cases n) simp_all
  obtain p' rest where p': "react (frame TYPE_DATA p) (peer s) = (p', ACK # rest)" "Q (p', rest)"
    using 0 by (auto split: prod.splits)
  obtain s1 where s1: "ser_write P (frame TYPE_DATA p) s = (None, s1)"
    "(peer s1, inq s1) = (fst (react (frame TYPE_DATA p) (peer s)), inq s @ snd (react (frame TYPE_DATA p) (peer s)))"
    by (rule ser_write_ok)
  then have "inq s1 = ACK # rest" "peer s1 = p'" using 0 p' by simp_all
  then obtain s2 where "read_reply P 8 s1 = (Inr (Some ACK), s2)" "inq s2 = rest" "peer s2 = p'"
    by (metis read_reply_ok)
  then show ?case using s1(1) p'(2) by (intro exI [of _ s2]) (simp add: n send_frame_def)
next
  case (Suc m)
  obtain l where n: "n = Suc l" "m < l" using Suc.prems(3) by (cases n) simp_all
  obtain p' where p': "react (frame TYPE_DATA p) (peer s) = (p', [])" "late react (frame TYPE_DATA p) m Q p'"
    using Suc.prems by (auto split: prod.splits)
  obtain s1 where s1: "ser_write P (frame TYPE_DATA p) s = (None, s1)"
    "(peer s1, inq s1) = (fst (react (frame TYPE_DATA p) (peer s)), inq s @ snd (react (frame TYPE_DATA p) (peer s)))"
    by (rule ser_write_ok)
  then have "inq s1 = []" "peer s1 = p'" using Suc.prems p' by simp_all
  then obtain s2 where s2: "read_reply P 8 s1 = (Inr None, s2)" "inq s2 = []" "peer s2 = p'"
    by (metis no_reply)
  have "send_sector P p n s = send_sector P p l s2" using s1(1) s2(1) by (simp add: n send_frame_def)
  with Suc.IH [of s2 l] s2 p'(2) n(2) show ?case by simp
qed

lemma taken_stream:
  assumes "takes react fin f ok kms good bad (peer s, inq s)"
  shows "\<exists>s'. stream_sectors P f (map fst kms) s = (StreamDone, s') \<and>
    takes react fin f ok [] (good + of_nat (length (filter ok (map fst kms))))
      (bad + of_nat (length (filter (\<lambda>k. \<not> ok k) (map fst kms)))) (peer s', inq s')"
  using assms
proof (induction kms arbitrary: s good bad)
  case (Cons km kms)
  obtain k m where km: "km = (k, m)" by (cases km)
  have k: "to_bytes_le 4 k = Some (le_bytes 4 k)" "inq s = []" "m < LINK_TRIES"
    "late react (frame TYPE_DATA (sector_payload f k)) m
       (takes react fin f ok kms (good + of_bool (ok k)) (bad + of_bool (\<not> ok k))) (peer s)"
    using Cons.prems by (simp_all add: km)
  obtain s2 where s2: "send_sector P (sector_payload f k) LINK_TRIES s = (Inr True, s2)"
    "takes react fin f ok kms (good + of_bool (ok k)) (bad + of_bool (\<not> ok k)) (peer s2, inq s2)"
    using late_sector [OF k(4,2,3)] by blast
  have "stream_sectors P f (map fst (km # kms)) s = stream_sectors P f (map fst kms) s2"
    using k(1) s2(1) by (simp add: km sector_payload_def Let_def)
  with Cons.IH [OF s2(2)] show ?case by (auto simp: km ac_simps)
qed simp

lemma tally_ok:
  assumes "inq s = eot_frame good bad"
  obtains s' where "tally_try P s = Some (Inr (Some (unat good, unat bad)), s')"
    "(peer s', inq s') = react [ACK] (peer s)"
proof -
  let ?p = "le_bytes 4 (unat good) @ le_bytes 4 (unat bad)"
  let ?crc = "le_bytes 2 (crc16 (TYPE_EOT # ?p))"
  have lt: "unat good < 2 ^ 32" "unat bad < 2 ^ 32"
    using unsigned_less [of good, where 'a = nat] unsigned_less [of bad, where 'a = nat] by simp_all
  have "inq s = [] @ raw_frame TYPE_EOT ?p ?crc @ []" using assms unfolding eot_frame_eq frame_raw by simp
  then obtain s0 s1 where s1: "hunt_soh P s = Some (Inr (), s0)" "read_exact P 1 s0 = Some (Inr [TYPE_EOT], s1)"
    "inq s1 = ?p @ ?crc @ []" "peer s1 = peer s"
    by (rule frame_head) simp
  obtain s2 where s2: "read_exact P 8 s1 = Some (Inr ?p, s2)" "inq s2 = ?crc @ []" "peer s2 = peer s1"
    by (rule read_field [of s1 ?p "?crc @ []" 8]) (use s1 in simp_all)
  obtain s3 where s3: "read_exact P 2 s2 = Some (Inr ?crc, s3)" "inq s3 = []" "peer s3 = peer s2"
    by (rule read_field [of s2 ?crc "[]" 2]) (use s2 in simp_all)
  obtain s4 where s4: "ser_write P [ACK] s3 = (None, s4)"
    "(peer s4, inq s4) = (fst (react [ACK] (peer s3)), inq s3 @ snd (react [ACK] (peer s3)))"
    by (rule ser_write_ok)
  have fields: "from_bytes_le (py_slice 0 4 ?p) = unat good" "from_bytes_le (py_slice 4 8 ?p) = unat bad"
    using lt by (simp_all add: py_slice_def)
  show thesis
    by (rule that [of s4])
       (use s4 s1(4) s2(3) s3(2,3) in \<open>simp_all add: tally_try_def s1(1,2) s2(1) s3(1) io_return_def io_bind_def
          io_write_def ack_def fields del: One_nat_def\<close>)
qed

text \<open>The handshake of the restore.\<close>

lemma target_handshake_ok:
  assumes "inq s = send_info d"
  obtains s' where "target_handshake P s = Some (Inr \<lparr>t_total = unat (d_total d), t_cyls = unat (d_cyls d),
      t_heads = unat (d_heads d), t_spt = unat (d_spt d)\<rparr>, s')" "inq s' = []" "peer s' = peer s"
proof -
  have "inq s = [] @ send_info d" "SOH \<notin> set []" using assms by simp_all
  then obtain p s1 where "info_try P s = Some (Inr (Some p), s1)" "inq s1 = []" "peer s1 = peer s"
    "decode_target p = \<lparr>t_total = unat (d_total d), t_cyls = unat (d_cyls d),
      t_heads = unat (d_heads d), t_spt = unat (d_spt d)\<rparr>"
    by (rule info_received) (simp add: decode_target_def)
  then show thesis by (intro that [of s1]) (simp_all add: target_handshake_def retry_first)
qed

text \<open>From the first \<open>INFO\<close> to the first sector.\<close>

lemma restore_start:
  assumes "inq s = send_info d" "restore_ranges spec (length f div 512) (unat (d_total d)) = Inr wl"
    and "length wl \<le> MAXR" "\<forall>(a, b)\<in>set wl. a < 2 ^ 32 \<and> b < 2 ^ 32" "py_strip answer = ''YES''"
  obtains p s2 where "cmd_payload wl = Inr p" "(peer s2, inq s2) = react (frame TYPE_CMD p) (peer s)"
    "restore_run P (Some f) spec (Some answer) s =
      (case stream_sectors P f (lbas_of wl) s2 of
         (StreamRaised KeyboardInterrupt, s3) \<Rightarrow> Some (Interrupted, s3)
       | (StreamRaised SerialException, s3) \<Rightarrow> Some (PortRaised SerialException, s3)
       | (StreamLost lba, s3) \<Rightarrow> Some (LinkLost lba, s3)
       | (StreamOverflow e, s3) \<Rightarrow> Some (Overflowed e, s3)
       | (StreamDone, s3) \<Rightarrow>
           (case retry (tally_try P) s3 of
              None \<Rightarrow> None
            | Some (Inl e, s4) \<Rightarrow> Some (PortRaised e, s4)
            | Some (Inr (good, bad), s4) \<Rightarrow> Some (Cloned good bad, s4)))"
proof -
  obtain s1 where s1: "target_handshake P s = Some (Inr \<lparr>t_total = unat (d_total d), t_cyls = unat (d_cyls d),
      t_heads = unat (d_heads d), t_spt = unat (d_spt d)\<rparr>, s1)" "inq s1 = []" "peer s1 = peer s"
    using assms(1) by (rule target_handshake_ok)
  obtain p where p: "cmd_payload wl = Inr p"
    using cmd_payload_Inr [OF assms(4)] assms(3) by (simp add: MAXR_def)
  obtain s2 where s2: "ser_write P (frame TYPE_CMD p) s1 = (None, s2)"
    "(peer s2, inq s2) = (fst (react (frame TYPE_CMD p) (peer s1)), inq s1 @ snd (react (frame TYPE_CMD p) (peer s1)))"
    by (rule ser_write_ok)
  show thesis
    by (rule that [OF p, of s2])
       (use assms s1 s2 in \<open>simp_all add: restore_run_def Let_def send_command_def p send_frame_def\<close>)
qed

lemma taken_restore:
  assumes "inq s = send_info d" "restore_ranges spec (length f div 512) (unat (d_total d)) = Inr wl"
    and "length wl \<le> MAXR" "\<forall>(a, b)\<in>set wl. a < 2 ^ 32 \<and> b < 2 ^ 32" "py_strip answer = ''YES''"
    and taken: "\<And>p. cmd_payload wl = Inr p \<Longrightarrow>
      takes react fin f ok kms 0 0 (react (frame TYPE_CMD p) (peer s))"
    and kms: "map fst kms = lbas_of wl"
  shows "\<exists>s'. restore_run P (Some f) spec (Some answer) s =
      Some (Cloned (length (filter ok (lbas_of wl)) mod 2 ^ 32) (length (filter (\<lambda>k. \<not> ok k) (lbas_of wl)) mod 2 ^ 32), s')
    \<and> fin (peer s')"
proof -
  obtain p s2 where p: "cmd_payload wl = Inr p" "(peer s2, inq s2) = react (frame TYPE_CMD p) (peer s)"
    and run: "restore_run P (Some f) spec (Some answer) s =
      (case stream_sectors P f (lbas_of wl) s2 of
         (StreamRaised KeyboardInterrupt, s3) \<Rightarrow> Some (Interrupted, s3)
       | (StreamRaised SerialException, s3) \<Rightarrow> Some (PortRaised SerialException, s3)
       | (StreamLost lba, s3) \<Rightarrow> Some (LinkLost lba, s3)
       | (StreamOverflow e, s3) \<Rightarrow> Some (Overflowed e, s3)
       | (StreamDone, s3) \<Rightarrow>
           (case retry (tally_try P) s3 of
              None \<Rightarrow> None
            | Some (Inl e, s4) \<Rightarrow> Some (PortRaised e, s4)
            | Some (Inr (good, bad), s4) \<Rightarrow> Some (Cloned good bad, s4)))"
    using assms(1-5) by (rule restore_start)
  let ?good = "of_nat (length (filter ok (lbas_of wl))) :: 32 word"
    and ?bad = "of_nat (length (filter (\<lambda>k. \<not> ok k) (lbas_of wl))) :: 32 word"
  have "takes react fin f ok kms 0 0 (peer s2, inq s2)" using taken [OF p(1)] by (simp add: p(2))
  then obtain s3 where s3: "stream_sectors P f (lbas_of wl) s2 = (StreamDone, s3)"
    "takes react fin f ok [] ?good ?bad (peer s3, inq s3)"
    using taken_stream [of fin f ok kms 0 0 s2] by (auto simp: kms)
  have "inq s3 = eot_frame ?good ?bad" and fin: "fin (fst (react [ACK] (peer s3)))" using s3(2) by simp_all
  then obtain s4 where s4: "tally_try P s3 = Some (Inr (Some (unat ?good, unat ?bad)), s4)"
    "(peer s4, inq s4) = react [ACK] (peer s3)"
    by (metis tally_ok)
  have "fin (peer s4)" using fin s4(2) by (metis fst_conv)
  with s4(1) run s3(1) show ?thesis
    by (intro exI [of _ s4]) (simp add: retry_first unat_of_nat take_bit_eq_mod)
qed

end

section \<open>\<open>WR.COM\<close> takes the sectors\<close>

abbreviation wr_react :: "byte list \<Rightarrow> (wr_action, wr_end) running \<Rightarrow> (wr_action, wr_end) running \<times> byte list" where
  "wr_react \<equiv> prog_react sent_bytes"

abbreviation wr_port :: "(wr_action, wr_end) running line port" where
  "wr_port \<equiv> prog_port sent_bytes"

abbreviation wr_start :: "wr_end wr_io \<Rightarrow> rat \<Rightarrow> (wr_action, wr_end) running line" where
  "wr_start \<equiv> prog_start sent_bytes"

text \<open>Ended regularly, with the given calls of INT 13h.\<close>

definition wr_finished :: "(chs_regs \<times> byte list \<times> bool) list \<Rightarrow> (wr_action, wr_end) running \<Rightarrow> bool" where
  "wr_finished calls x \<longleftrightarrow> (\<exists>good bad. prog_end (fst x) = Some (WrDone good bad)) \<and> disk_calls (snd x) = calls"

lemma wr_takes:
  assumes "\<And>i. \<not> abort_key (kb i)"
    and "ag_heads g = d_heads d" "ag_spt g = d_spt d" "d_heads d \<noteq> 0" "d_spt d \<noteq> 0"
  shows "tx_lbas rs = ks \<Longrightarrow> consumes m bs acts (wr_loop g wr kb i good bad rs) \<Longrightarrow>
    \<exists>p rest. wr_react bs (m, past) = (p, sent_bytes acts @ rest) \<and>
      takes wr_react
        (wr_finished (disk_calls past @ disk_calls acts @ concat (map (\<lambda>k. sector_calls d wr k (restore_sector f k)) ks)))
        f (\<lambda>k. sector_ok d wr k (restore_sector f k)) (map (\<lambda>k. (k, 0)) ks) good bad (p, rest)"
proof (induction ks arbitrary: rs m bs acts i good bad past)
  case Nil
  have "consumes m bs (acts @ map Sent (eot_frame good bad)) (wr_eot_wait good bad)"
    using consumes_trans [OF Nil(2) wr_loop_end [OF Nil(1)]] by simp
  moreover have "fst (wr_eot_wait good bad []) = []" by (simp add: wr_eot_wait_def tx_bind_def sending_def)
  ultimately have eot: "wr_react bs (m, past) =
      ((wr_eot_wait good bad, past @ acts @ map Sent (eot_frame good bad)), sent_bytes acts @ eot_frame good bad)"
    by (simp add: prog_react_consumes)
  have "fst (tx_return (WrDone good bad) []) = ([] :: wr_action list)" by (simp add: tx_return_def)
  note ended = prog_react_consumes [OF wr_eot_acked this]
  show ?case by (simp add: eot ended wr_finished_def prog_end_def tx_return_def)
next
  case (Cons k ks)
  let ?buf = "restore_sector f k"
  let ?w = "write_sector wr (chs_of (unat (d_heads d)) (unat (d_spt d)) k) ?buf"
  let ?ok = "sector_ok d wr k ?buf"
  obtain rs' where rs': "tx_lbas rs' = ks" "k < 2 ^ 32" "fst (wr_loop g wr kb i good bad rs []) = []"
    "consumes (wr_loop g wr kb i good bad rs) (frame TYPE_DATA (sector_payload f k)) (fst ?w @ [Sent ACK])
      (wr_loop g wr kb (i + 1) (good + of_bool ?ok) (bad + of_bool (\<not> ?ok)) rs')"
    by (rule wr_loop_next [where kb = kb and g = g and wr = wr, OF Cons.prems(1) assms])
       (simp add: sector_payload_def sector_ok_def BPS_def)
  have now: "wr_react bs (m, past) = ((wr_loop g wr kb i good bad rs, past @ acts), sent_bytes acts)"
    by (rule prog_react_consumes [OF Cons.prems(2) rs'(3)])
  have calls: "disk_calls (fst ?w) = sector_calls d wr k ?buf" by (simp add: sector_calls_def)
  have quiet: "sent_bytes (fst ?w) = []" by (rule write_sector_quiet)
  from Cons.IH [OF rs'(1,4), of "past @ acts"] obtain p rest where
    "wr_react (frame TYPE_DATA (sector_payload f k)) (wr_loop g wr kb i good bad rs, past @ acts) = (p, ACK # rest)"
    "takes wr_react (wr_finished (disk_calls past @ disk_calls acts @
        concat (map (\<lambda>k. sector_calls d wr k (restore_sector f k)) (k # ks))))
      f (\<lambda>k. sector_ok d wr k (restore_sector f k)) (map (\<lambda>k. (k, 0)) ks) (good + of_bool ?ok) (bad + of_bool (\<not> ?ok)) (p, rest)"
    by (auto simp: calls quiet)
  then show ?case
    using rs'(2) now by (simp add: LINK_TRIES_def)
qed

section \<open>The drive after the calls\<close>

text \<open>A call that succeeds puts its buffer on the drive.\<close>

definition drive_after ::
  "(chs_regs \<Rightarrow> byte list) \<Rightarrow> (chs_regs \<times> byte list \<times> bool) list \<Rightarrow> chs_regs \<Rightarrow> byte list" where
  "drive_after D calls = foldl (\<lambda>D (r, buf, ok). if ok then D(r := buf) else D) D calls"

definition sector_at :: "tx_disk \<Rightarrow> nat \<Rightarrow> chs_regs" where
  "sector_at d k = pack_chs (chs_of (unat (d_heads d)) (unat (d_spt d)) k)"

lemma drive_after_append [simp]: "drive_after D (as @ bs) = drive_after (drive_after D as) bs"
  by (simp add: drive_after_def)

lemma write_from_calls:
  "drive_after D (disk_calls (fst (write_from wr cur buf t n))) =
    (if snd (write_from wr cur buf t n) then D(sector_regs cur := buf) else D)"
proof (induction n arbitrary: t)
  case (Suc n)
  then show ?case by (simp add: case_prod_unfold Let_def) (simp add: drive_after_def fun_upd_def)
qed (simp add: drive_after_def)

lemma sector_calls_drive:
  "drive_after D (sector_calls d wr k buf) = (if sector_ok d wr k buf then D(sector_at d k := buf) else D)"
  by (simp add: sector_calls_def sector_ok_def write_sector_def write_from_calls sector_at_def sector_regs_eq)

lemma sector_at_inj:
  assumes "d = com_disk regs rd" "j < unat (d_total d)" "k < unat (d_total d)" "sector_at d j = sector_at d k"
  shows "j = k"
proof -
  obtain c h s where geo: "unpack_geometry regs = (c, h, s)" by (metis prod_cases3)
  have d: "d = disk_of_geometry (c, h, s) (\<lambda>a t. rd (pack_chs a) t)" by (simp add: assms(1) com_disk_def geo)
  obtain c1 h1 s1 where a1: "chs_of (unat (d_heads d)) (unat (d_spt d)) j = (c1, h1, s1)" by (metis prod_cases3)
  obtain c2 h2 s2 where a2: "chs_of (unat (d_heads d)) (unat (d_spt d)) k = (c2, h2, s2)" by (metis prod_cases3)
  note j = sector_address(5,6) [OF geo d assms(2) a1] and k = sector_address(5,6) [OF geo d assms(3) a2]
  have "pack_chs (c1, h1, s1) = pack_chs (c2, h2, s2)" using assms(4) by (simp add: sector_at_def a1 a2)
  then have "(c1, h1, s1) = (c2, h2, s2)" using j(2) k(2) by metis
  with j(1) k(1) show "j = k" by simp
qed

lemma clone_drive:
  assumes "d = com_disk regs rd" "\<forall>j\<in>set ks. j < unat (d_total d)" "k < unat (d_total d)"
  shows "drive_after D (concat (map (\<lambda>j. sector_calls d wr j (data j)) ks)) (sector_at d k) =
    (if k \<in> set ks \<and> sector_ok d wr k (data k) then data k else D (sector_at d k))"
  using assms(2)
proof (induction ks arbitrary: D)
  case (Cons j ks)
  have "sector_at d j = sector_at d k \<longleftrightarrow> j = k"
    using sector_at_inj [OF assms(1) _ assms(3), of j] Cons.prems by auto
  with Cons show ?case by (auto simp: sector_calls_drive)
qed (simp add: drive_after_def)

section \<open>Properties\<close>

lemma restore_ranges_ok:
  assumes "restore_ranges spec n t = Inr wl" "t < 2 ^ 32"
  shows "length wl \<le> MAXR" "\<forall>(a, b)\<in>set wl. a < 2 ^ 32 \<and> b < 2 ^ 32" "\<forall>k\<in>set (lbas_of wl). k < t"
proof -
  have "length wl \<le> MAXR \<and> (\<forall>(a, b)\<in>set wl. a \<le> t \<and> b \<le> t)"
  proof (cases "spec = []")
    case True
    with assms(1) show ?thesis by (auto simp: restore_ranges_def MAXR_def)
  next
    case False
    with assms(1) have "parse_ranges_spec spec t = Inr wl" by (simp add: restore_ranges_def)
    from parse_ranges_valid [OF this] show ?thesis by (fastforce simp: list_all_iff valid_range_def)
  qed
  with assms(2) show "length wl \<le> MAXR" "\<forall>(a, b)\<in>set wl. a < 2 ^ 32 \<and> b < 2 ^ 32" "\<forall>k\<in>set (lbas_of wl). k < t"
    by (fastforce simp: covered_def)+
qed

lemma clone_run:
  assumes "cl AND 0x3F \<noteq> 0" "d = com_disk (ch, cl, dh) rd" "\<And>i. \<not> abort_key (kb i)"
    and "restore_ranges spec (length f div 512) (unat (d_total d)) = Inr wl" "py_strip answer = ''YES''"
  shows "\<exists>s'. restore_run wr_port (Some f) spec (Some answer)
        (wr_start (snd (wr_main tail (False, ch, cl, dh) 0x59 wr kb)) timeout) =
      Some (Cloned (length (filter (\<lambda>k. sector_ok d wr k (restore_sector f k)) (lbas_of wl)) mod 2 ^ 32)
        (length (filter (\<lambda>k. \<not> sector_ok d wr k (restore_sector f k)) (lbas_of wl)) mod 2 ^ 32), s')
    \<and> wr_finished (concat (map (\<lambda>k. sector_calls d wr k (restore_sector f k)) (lbas_of wl))) (line_peer s')"
proof -
  let ?m = "snd (wr_main tail (False, ch, cl, dh) 0x59 wr kb)"
  have t: "unat (d_total d) < 2 ^ 32" using unsigned_less [of "d_total d", where 'a = nat] by simp
  note wl = restore_ranges_ok [OF assms(4) t]
  obtain g' where g': "?m = tx_bind (sending (handshake d)) (wr_loop g' wr kb 0 0 0)"
    using assms(1,2) by (rule wr_main_confirmed)
  have start: "fst (?m []) = map Sent (send_info d)"
    by (simp add: g' tx_bind_def sending_def handshake_start)
  show ?thesis
  proof (rule prog.taken_restore [OF _ assms(4) wl(1,2) assms(5)])
    show "line_queue (wr_start ?m timeout) = send_info d" by (simp add: start)
    fix p
    assume p: "cmd_payload wl = Inr p"
    obtain g where g: "ag_heads g = d_heads d" "ag_spt g = d_spt d" "d_heads d \<noteq> 0" "d_spt d \<noteq> 0"
      "consumes (after_bytes ?m []) (frame TYPE_CMD p) [] (wr_loop g wr kb 0 0 0 (range_words wl))"
      by (rule wr_main_consumes [OF assms(1,2) wl(2,1) p])
    from wr_takes [where kb = kb, OF assms(3) g(1-4) tx_lbas_words [OF wl(2)] g(5), of "map Sent (send_info d)" f]
    show "takes wr_react (wr_finished (concat (map (\<lambda>k. sector_calls d wr k (restore_sector f k)) (lbas_of wl)))) f
        (\<lambda>k. sector_ok d wr k (restore_sector f k)) (map (\<lambda>k. (k, 0)) (lbas_of wl)) 0 0
        (wr_react (frame TYPE_CMD p) (line_peer (wr_start ?m timeout)))"
      by (auto simp: start)
  qed (simp add: comp_def)
qed

text \<open>C4: A confirmed restore to \<open>WR.COM\<close> on a line that loses nothing, with no key pressed, comes
  to its end on both sides: the host reports the sectors of the worklist that the drive took
  and the ones it did not, and on the drive every sector of the worklist that could be written
  holds its bytes of the image, and every sector that is not in the worklist what it held.\<close>

theorem clone_exact:
  assumes "cl AND 0x3F \<noteq> 0" "d = com_disk (ch, cl, dh) rd" "\<And>i. \<not> abort_key (kb i)"
    and "restore_ranges spec (length f div 512) (unat (d_total d)) = Inr wl" "py_strip answer = ''YES''"
  shows "\<exists>s'. restore_run wr_port (Some f) spec (Some answer)
        (wr_start (snd (wr_main tail (False, ch, cl, dh) 0x59 wr kb)) timeout) =
      Some (Cloned (length (filter (\<lambda>k. sector_ok d wr k (restore_sector f k)) (lbas_of wl)) mod 2 ^ 32)
        (length (filter (\<lambda>k. \<not> sector_ok d wr k (restore_sector f k)) (lbas_of wl)) mod 2 ^ 32), s')
    \<and> (\<exists>good bad. prog_end (fst (line_peer s')) = Some (WrDone good bad))
    \<and> (\<forall>k<unat (d_total d).
         drive_after D (disk_calls (snd (line_peer s'))) (sector_at d k) =
           (if k \<in> covered wl \<and> sector_ok d wr k (restore_sector f k) then restore_sector f k else D (sector_at d k)))"
proof -
  have t: "unat (d_total d) < 2 ^ 32" using unsigned_less [of "d_total d", where 'a = nat] by simp
  note drive = clone_drive [OF assms(2) restore_ranges_ok(3) [OF assms(4) t]]
  show ?thesis
    using clone_run [where kb = kb, OF assms, of tail wr timeout]
    by (fastforce simp: wr_finished_def drive)
qed

text \<open>Drives that take every sector at once.\<close>

definition good_writes :: int13_writes where
  "good_writes regs buf t = True"

lemma good_writes_ok: "sector_ok d good_writes k buf"
  by (simp add: sector_ok_def write_sector_def READ_TRIES_def eval_nat_numeral good_writes_def)

theorem clone_exact_witness:
  "\<exists>s'. restore_run wr_port (Some (replicate 512 1 @ replicate 512 2)) [] (Some '' YES'')
      (wr_start (snd (wr_main [] (False, 0, 2, 0) 0x59 good_writes (\<lambda>_. None))) 3) = Some (Cloned 2 0, s')
    \<and> drive_after (\<lambda>_. []) (disk_calls (snd (line_peer s'))) (0, 2, 0) = replicate 512 2"
proof -
  let ?f = "replicate 512 1 @ replicate 512 (2 :: byte)"
  let ?d = "com_disk (0, 2, 0) half_reads"
  have quiet: "\<not> abort_key ((\<lambda>_. None) i)" for i :: nat by (simp add: abort_key_def)
  have total: "unat (d_total ?d) = 2" by (simp add: half_disk)
  have ranges: "restore_ranges [] (length ?f div 512) (unat (d_total ?d)) = Inr [(0, 2)]"
    by (simp add: restore_ranges_def total)
  have yes: "py_strip '' YES'' = ''YES''" by code_simp
  have two: "[0..<2] = [0, Suc 0]" by (simp add: numeral_2_eq_2)
  have at: "sector_at ?d (Suc 0) = (0, 2, 0)"
    by (simp add: sector_at_def com_disk_def unpack_geometry_def disk_of_geometry_def Let_def chs_of_def pack_chs_def)
  have second: "restore_sector ?f (Suc 0) = replicate 512 2" by (simp add: restore_sector_def file_read_at_def Let_def)
  obtain s' where run: "restore_run wr_port (Some ?f) [] (Some '' YES'')
      (wr_start (snd (wr_main [] (False, 0, 2, 0) 0x59 good_writes (\<lambda>_. None))) 3) =
      Some (Cloned (length (filter (\<lambda>k. sector_ok ?d good_writes k (restore_sector ?f k)) (lbas_of [(0, 2)])) mod 2 ^ 32)
        (length (filter (\<lambda>k. \<not> sector_ok ?d good_writes k (restore_sector ?f k)) (lbas_of [(0, 2)])) mod 2 ^ 32), s')"
    and drive: "\<forall>k<unat (d_total ?d). drive_after (\<lambda>_. []) (disk_calls (snd (line_peer s'))) (sector_at ?d k) =
      (if k \<in> covered [(0, 2)] \<and> sector_ok ?d good_writes k (restore_sector ?f k) then restore_sector ?f k else [])"
    using clone_exact [OF _ refl quiet ranges yes, of "[]" good_writes 3 "\<lambda>_. []"] by auto
  have "drive_after (\<lambda>_. []) (disk_calls (snd (line_peer s'))) (0, 2, 0) = replicate 512 2"
    using drive [rule_format, of "Suc 0"] by (simp add: total at second good_writes_ok covered_def)
  moreover have "lbas_of [(0, 2)] = [0, Suc 0]" by (simp add: two)
  ultimately show ?thesis using run by (simp add: good_writes_ok)
qed

text \<open>C31: A restore with \<open>--range\<close> of an image smaller than the drive writes past the end of the
  image: of the sectors of the drive that lie wholly beyond it, the ones the ranges name end up
  filled with zeros, as far as the drive takes the write, and the host counts them as cloned.
  Without \<open>--range\<close> none of them is written, and they hold what they held before.\<close>

theorem restore_beyond_image:
  assumes "cl AND 0x3F \<noteq> 0" "d = com_disk (ch, cl, dh) rd" "\<And>i. \<not> abort_key (kb i)"
    and "restore_ranges spec (length f div 512) (unat (d_total d)) = Inr wl" "py_strip answer = ''YES''"
  shows "\<exists>good bad s'. restore_run wr_port (Some f) spec (Some answer)
        (wr_start (snd (wr_main tail (False, ch, cl, dh) 0x59 wr kb)) timeout) = Some (Cloned good bad, s')
    \<and> (\<forall>k<unat (d_total d). length f \<le> k * 512 \<longrightarrow>
         drive_after D (disk_calls (snd (line_peer s'))) (sector_at d k) =
           (if spec \<noteq> [] \<and> k \<in> covered wl \<and> sector_ok d wr k (replicate 512 0)
            then replicate 512 0 else D (sector_at d k)))"
proof -
  have t: "unat (d_total d) < 2 ^ 32" using unsigned_less [of "d_total d", where 'a = nat] by simp
  note drive = clone_drive [OF assms(2) restore_ranges_ok(3) [OF assms(4) t]]
  have "spec \<noteq> []" if "k \<in> covered wl" "length f \<le> k * 512" for k
  proof
    assume "spec = []"
    with assms(4) that(1) have "k < length f div 512" by (auto simp: restore_ranges_def covered_def)
    with that(2) show False by linarith
  qed
  with clone_run [where kb = kb, OF assms, of tail wr timeout] show ?thesis
    by (fastforce simp: wr_finished_def drive restore_sector_beyond)
qed

theorem restore_beyond_image_witness:
  "\<exists>good bad s'. restore_run wr_port (Some (replicate 512 1)) (ranges_text [(1, 2)]) (Some ''YES'')
      (wr_start (snd (wr_main [] (False, 0, 2, 0) 0x59 good_writes (\<lambda>_. None))) 3) = Some (Cloned good bad, s')
    \<and> drive_after (\<lambda>_. [7]) (disk_calls (snd (line_peer s'))) (0, 2, 0) = replicate 512 0"
proof -
  let ?d = "com_disk (0, 2, 0) half_reads"
  have quiet: "\<not> abort_key ((\<lambda>_. None) i)" for i :: nat by (simp add: abort_key_def)
  have total: "unat (d_total ?d) = 2" by (simp add: half_disk)
  have "parse_ranges_spec (ranges_text [(1, 2)]) 2 = Inr [(1, 2)]"
    by (rule parse_ranges_text) (simp_all add: valid_range_def MAXR_def)
  moreover have spec: "ranges_text [(1, 2)] \<noteq> []" by (simp add: range_text_def)
  ultimately have ranges: "restore_ranges (ranges_text [(1, 2)]) (length (replicate 512 (1 :: byte)) div 512)
      (unat (d_total ?d)) = Inr [(1, 2)]"
    by (simp only: restore_ranges_def if_True not_False_eq_True total)
  have yes: "py_strip ''YES'' = ''YES''" by code_simp
  have at: "sector_at ?d (Suc 0) = (0, 2, 0)"
    by (simp add: sector_at_def com_disk_def unpack_geometry_def disk_of_geometry_def Let_def chs_of_def pack_chs_def)
  have cl: "(2 :: 8 word) AND 0x3F \<noteq> 0" by simp
  obtain good bad s' where "restore_run wr_port (Some (replicate 512 1)) (ranges_text [(1, 2)]) (Some ''YES'')
      (wr_start (snd (wr_main [] (False, 0, 2, 0) 0x59 good_writes (\<lambda>_. None))) 3) = Some (Cloned good bad, s')"
    and "\<forall>k<unat (d_total ?d). length (replicate 512 (1 :: byte)) \<le> k * 512 \<longrightarrow>
      drive_after (\<lambda>_. [7]) (disk_calls (snd (line_peer s'))) (sector_at ?d k) =
        (if ranges_text [(1, 2)] \<noteq> [] \<and> k \<in> covered [(1, 2)] \<and> sector_ok ?d good_writes k (replicate 512 0)
         then replicate 512 0 else [7])"
    using restore_beyond_image [OF cl refl quiet ranges yes, of "[]" good_writes 3 "\<lambda>_. [7]"] by blast
  note run = this(1) and drive = this(2) [rule_format, of "Suc 0"]
  have "Suc 0 \<in> covered [(1, 2)]" by (simp add: covered_def)
  then have "drive_after (\<lambda>_. [7]) (disk_calls (snd (line_peer s'))) (0, 2, 0) = replicate 512 0"
    using drive spec by (simp only: total at good_writes_ok length_replicate) simp
  with run show ?thesis by blast
qed

text \<open>C1: A disk survives the way through the image: a fresh capture from \<open>TX.COM\<close> of a disk whose
  sectors can all be read, and a restore of that image to \<open>WR.COM\<close> on a drive of the same
  geometry that takes all sectors, both on lines that lose nothing, leave the drive with the
  contents of the disk, sector for sector, whatever it held before.\<close>

theorem clone_of_capture:
  assumes "cl AND 0x3F \<noteq> 0" "d = com_disk (ch, cl, dh) rd" "bios_sized d" "\<And>i. \<not> abort_key (kb i)"
    and "\<not> opt_resume opts" "opt_range opts = []" "py_strip answer = ''YES''"
    and "\<And>k. k < unat (d_total d) \<Longrightarrow> disk_read d k = Some (contents k)"
    and "\<And>k buf. k < unat (d_total d) \<Longrightarrow> sector_ok d wr k buf"
  shows "\<exists>out s1 s2.
      capture com_port opts fs (com_start (snd (com_main tail (False, ch, cl, dh) rd kb)) timeout) = Some (Captured out, s1) \<and>
      restore_run wr_port (Some (rx_image (cap_state out))) [] (Some answer)
        (wr_start (snd (wr_main tail' (False, ch, cl, dh) 0x59 wr kb)) timeout') = Some (Cloned (unat (d_total d)) 0, s2) \<and>
      (\<forall>k<unat (d_total d). drive_after D (disk_calls (snd (line_peer s2))) (sector_at d k) = contents k)"
proof -
  let ?t = "unat (d_total d)"
  have t: "?t < 2 ^ 32" using unsigned_less [of "d_total d", where 'a = nat] by simp
  have image: "open_image opts fs ?t BPS = Inr (file_truncate (?t * BPS) [], replicate ?t UNTRIED)"
    and wl: "choose_worklist opts (replicate ?t UNTRIED) ?t = Inr [(0, ?t)]"
    using assms(5,6) by (rule fresh_image, rule fresh_worklist)
  have len: "?t * BPS \<le> length (file_truncate (?t * BPS) [])" "length (replicate ?t UNTRIED) = ?t" by simp_all
  obtain out s1 where run: "capture com_port opts fs (com_start (snd (com_main tail (False, ch, cl, dh) rd kb)) timeout) = Some (Captured out, s1)"
    "length (rx_image (cap_state out)) = ?t * BPS"
    "\<forall>k<?t. file_read_at (k * BPS) BPS (rx_image (cap_state out)) = disk_bytes d k"
    using com_capture_run [where kb = kb, OF assms(1-4) image len wl, of tail timeout] by auto
  let ?f = "rx_image (cap_state out)"
  have ranges: "restore_ranges [] (length ?f div 512) ?t = Inr [(0, ?t)]"
    using run(2) by (simp add: restore_ranges_def BPS_def)
  have data: "restore_sector ?f k = contents k" if "k < ?t" for k
  proof -
    have "(k + 1) * 512 \<le> ?t * 512" using that by (intro mult_le_mono1) simp
    then have "restore_sector ?f k = file_read_at (k * 512) 512 ?f"
      using run(2) by (intro restore_sector_whole) (simp add: BPS_def)
    also have "\<dots> = contents k" using run(3) that assms(8) by (simp add: BPS_def disk_bytes_def)
    finally show ?thesis .
  qed
  have lbas: "lbas_of [(0, ?t)] = [0..<?t]" by simp
  have "filter (\<lambda>k. sector_ok d wr k (restore_sector ?f k)) [0..<?t] = [0..<?t]"
    "filter (\<lambda>k. \<not> sector_ok d wr k (restore_sector ?f k)) [0..<?t] = []"
    using assms(9) by (simp_all add: filter_id_conv)
  with clone_run [where kb = kb, OF assms(1,2,4) ranges assms(7), of tail' wr timeout'] t
  obtain s2 where clone: "restore_run wr_port (Some ?f) [] (Some answer)
      (wr_start (snd (wr_main tail' (False, ch, cl, dh) 0x59 wr kb)) timeout') = Some (Cloned ?t 0, s2)"
    "wr_finished (concat (map (\<lambda>k. sector_calls d wr k (restore_sector ?f k)) [0..<?t])) (line_peer s2)"
    by (auto simp: lbas)
  have "\<forall>k<?t. drive_after D (disk_calls (snd (line_peer s2))) (sector_at d k) = contents k"
    using clone(2) data assms(9) clone_drive [OF assms(2), of "[0..<?t]"] by (simp add: wr_finished_def)
  with clone(1) run(1) show ?thesis by blast
qed

text \<open>A drive of two sectors, each holding its number.\<close>

definition full_reads :: int13_reads where
  "full_reads regs t = Some (replicate BPS (fst (snd regs)))"

lemma full_disk:
  "unat (d_total (com_disk (0, 2, 0) full_reads)) = 2" "bios_sized (com_disk (0, 2, 0) full_reads)"
  "k < 2 \<Longrightarrow> disk_read (com_disk (0, 2, 0) full_reads) k = Some (replicate BPS (word_of_nat (k + 1)))"
  "k < 2 \<Longrightarrow> sector_at (com_disk (0, 2, 0) full_reads) k = (0, word_of_nat (k + 1), 0)"
proof -
  have d: "d_total (com_disk (0, 2, 0) full_reads) = 2" "d_heads (com_disk (0, 2, 0) full_reads) = 1"
    "d_spt (com_disk (0, 2, 0) full_reads) = 2"
    by (simp_all add: com_disk_def unpack_geometry_def disk_of_geometry_def Let_def)
  then show "unat (d_total (com_disk (0, 2, 0) full_reads)) = 2" by simp
  show "bios_sized (com_disk (0, 2, 0) full_reads)" by (auto simp: bios_sized_def full_reads_def)
  have first: "read_from rd c 0 READ_TRIES = rd c 0" if "rd c 0 \<noteq> None" for rd :: bios and c
    using that by (auto simp: READ_TRIES_def eval_nat_numeral)
  assume "k < 2"
  then have "k = 0 \<or> k = Suc 0" by auto
  then show "disk_read (com_disk (0, 2, 0) full_reads) k = Some (replicate BPS (word_of_nat (k + 1)))"
    "sector_at (com_disk (0, 2, 0) full_reads) k = (0, word_of_nat (k + 1), 0)"
    by (auto simp: disk_read_def read_with_retries_def first d chs_of_def full_reads_def pack_chs_def sector_at_def)
qed

theorem clone_of_capture_witness:
  "\<exists>out s1 s2.
      capture com_port fresh_opts no_files (com_start (snd (com_main [] (False, 0, 2, 0) full_reads (\<lambda>_. None))) 3) =
        Some (Captured out, s1) \<and>
      restore_run wr_port (Some (rx_image (cap_state out))) [] (Some ''YES'')
        (wr_start (snd (wr_main [] (False, 0, 2, 0) 0x59 good_writes (\<lambda>_. None))) 3) = Some (Cloned 2 0, s2) \<and>
      drive_after (\<lambda>_. []) (disk_calls (snd (line_peer s2))) (0, 2, 0) = replicate BPS 2"
proof -
  let ?d = "com_disk (0, 2, 0) full_reads"
  let ?contents = "\<lambda>k. replicate BPS (word_of_nat (k + 1)) :: byte list"
  have quiet: "\<not> abort_key ((\<lambda>_. None) i)" for i :: nat by (simp add: abort_key_def)
  have yes: "py_strip ''YES'' = ''YES''" by code_simp
  have opts: "\<not> opt_resume fresh_opts" "opt_range fresh_opts = []" by (simp_all add: fresh_opts_def)
  have reads: "disk_read ?d k = Some (?contents k)" if "k < unat (d_total ?d)" for k
    using that full_disk(3) by (simp only: full_disk(1))
  have writes: "sector_ok ?d good_writes k buf" for k buf by (rule good_writes_ok)
  have cl: "(2 :: 8 word) AND 0x3F \<noteq> 0" by simp
  obtain out s1 s2 where run: "capture com_port fresh_opts no_files
      (com_start (snd (com_main [] (False, 0, 2, 0) full_reads (\<lambda>_. None))) 3) = Some (Captured out, s1)"
    "restore_run wr_port (Some (rx_image (cap_state out))) [] (Some ''YES'')
      (wr_start (snd (wr_main [] (False, 0, 2, 0) 0x59 good_writes (\<lambda>_. None))) 3) = Some (Cloned (unat (d_total ?d)) 0, s2)"
    and drive: "\<forall>k<unat (d_total ?d). drive_after (\<lambda>_. []) (disk_calls (snd (line_peer s2))) (sector_at ?d k) = ?contents k"
    using clone_of_capture [OF cl refl full_disk(2) quiet opts yes reads writes, of no_files "[]" 3 "[]" 3 "\<lambda>_. []"] by blast
  have "drive_after (\<lambda>_. []) (disk_calls (snd (line_peer s2))) (0, 2, 0) = replicate BPS 2"
    using drive [rule_format, of "Suc 0"] full_disk(4) [of "Suc 0"] by (simp add: full_disk(1))
  with run show ?thesis unfolding full_disk(1) by blast
qed

end
