(* ===== verification/CloneNoise.thy ===== *)
theory CloneNoise
  imports CloneSession
begin

text \<open>
  A restore on a line that loses answers of the writer. A lost \<open>ACK\<close> makes the host send the
  sector again, which \<open>WR.COM\<close> only acknowledges: the clone is the same. The \<open>ACK\<close> of the last
  sector is the exception: \<open>WR.COM\<close> is already sending its totals then, and the host takes the
  bytes of the totals for answers and gives up.
\<close>

section \<open>Losing answers\<close>

text \<open>The first byte of the answer to a write of the host is lost where the list says so.\<close>

definition losing ::
  "(byte list \<Rightarrow> 'p \<Rightarrow> 'p \<times> byte list) \<Rightarrow> byte list \<Rightarrow> 'p \<times> bool list \<Rightarrow> ('p \<times> bool list) \<times> byte list" where
  "losing react bs x =
     (case x of (p, losses) \<Rightarrow>
        (case react bs p of (p', out) \<Rightarrow>
           (case losses of
              [] \<Rightarrow> ((p', []), out)
            | lost # losses' \<Rightarrow> ((p', losses'), if lost then drop 1 out else out))))"

definition lossy_port :: "((wr_action, wr_end) running \<times> bool list) line port" where
  "lossy_port = line_port (losing wr_react) (\<lambda>x. (x, []))"

interpretation lossy: quiet_line lossy_port line_queue line_peer "losing wr_react"
  unfolding lossy_port_def by (rule silent.quiet_line_axioms)

definition lossy_start :: "wr_end wr_io \<Rightarrow> rat \<Rightarrow> bool list \<Rightarrow> ((wr_action, wr_end) running \<times> bool list) line" where
  "lossy_start m timeout losses = (timeout, ((after_bytes m [], fst (m [])), losses), sent_bytes (fst (m [])))"

text \<open>Each sector with the number of its answers that are lost.\<close>

definition losses_of :: "(nat \<times> nat) list \<Rightarrow> bool list" where
  "losses_of kms = concat (map (\<lambda>(k, m). replicate m True @ [False]) kms)"

definition survivable :: "(nat \<times> nat) list \<Rightarrow> bool" where
  "survivable kms \<longleftrightarrow> (\<forall>(k, m)\<in>set kms. m < LINK_TRIES) \<and> (kms \<noteq> [] \<longrightarrow> snd (last kms) = 0)"

lemma losses_of_Cons: "losses_of ((k, m) # kms) = replicate m True @ False # losses_of kms"
  by (simp add: losses_of_def)

lemma bearable_Cons: "survivable ((k, m) # kms) \<Longrightarrow> survivable kms \<and> m < LINK_TRIES \<and> (kms = [] \<longrightarrow> m = 0)"
  by (auto simp: survivable_def split: if_splits)

section \<open>Resent sectors\<close>

lemma dup_late:
  assumes "tx_lbas rs = k # ks" "\<And>i. \<not> abort_key (kb i)" "j < 2 ^ 32" "j \<noteq> k"
    and "fst (wr_loop g wr kb 0 0 0 rs []) = [] \<and> (\<forall>i good bad. fst (wr_loop g wr kb i good bad rs []) = [])"
    and "\<And>i past'. disk_calls past' = disk_calls past \<Longrightarrow> Q (((wr_loop g wr kb i good bad rs, past'), losses), [])"
  shows "late (losing wr_react) (frame TYPE_DATA (sector_payload f j)) m Q
    ((wr_loop g wr kb i good bad rs, past), replicate m True @ False # losses)"
  using assms(6)
proof (induction m arbitrary: i past)
  case 0
  have "wr_react (frame TYPE_DATA (sector_payload f j)) (wr_loop g wr kb i good bad rs, past) =
      ((wr_loop g wr kb (i + 1) good bad rs, past @ [Sent ACK]), [ACK])"
    using prog_react_consumes [OF wr_loop_dup [where kb = kb, OF assms(1-4)], of "restore_sector f j"] assms(5)
    by (simp add: sector_payload_def BPS_def)
  with 0 show ?case by (simp add: losing_def)
next
  case (Suc m)
  have "wr_react (frame TYPE_DATA (sector_payload f j)) (wr_loop g wr kb i good bad rs, past) =
      ((wr_loop g wr kb (i + 1) good bad rs, past @ [Sent ACK]), [ACK])"
    using prog_react_consumes [OF wr_loop_dup [where kb = kb, OF assms(1-4)], of "restore_sector f j"] assms(5)
    by (simp add: sector_payload_def BPS_def)
  with Suc.IH [of "past @ [Sent ACK]" "i + 1"] Suc.prems show ?case by (simp add: losing_def)
qed

lemma wr_takes_late:
  assumes "\<And>i. \<not> abort_key (kb i)"
    and "ag_heads g = d_heads d" "ag_spt g = d_spt d" "d_heads d \<noteq> 0" "d_spt d \<noteq> 0"
  shows "tx_lbas rs = map fst kms \<Longrightarrow> distinct (map fst kms) \<Longrightarrow> survivable kms \<Longrightarrow>
    consumes m bs acts (wr_loop g wr kb i good bad rs) \<Longrightarrow>
    \<exists>p rest. wr_react bs (m, past) = (p, sent_bytes acts @ rest) \<and>
      takes (losing wr_react)
        (\<lambda>x. wr_finished (disk_calls past @ disk_calls acts @
            concat (map (\<lambda>k. sector_calls d wr k (restore_sector f k)) (map fst kms))) (fst x))
        f (\<lambda>k. sector_ok d wr k (restore_sector f k)) kms good bad ((p, losses_of kms), rest)"
proof (induction kms arbitrary: rs m bs acts i good bad past)
  case Nil
  have lbas: "tx_lbas rs = []" using Nil.prems(1) by simp
  from wr_takes [where kb = kb, OF assms lbas Nil.prems(4), of past f] show ?case
    by (auto simp: losing_def losses_of_def case_prod_unfold)
next
  case (Cons km kms)
  obtain k n where km: "km = (k, n)" by (cases km)
  let ?buf = "restore_sector f k"
  let ?fr = "frame TYPE_DATA (sector_payload f k)"
  obtain calls ok where w: "write_sector wr (chs_of (unat (d_heads d)) (unat (d_spt d)) k) ?buf = (calls, ok)" by fastforce
  have ok: "ok = sector_ok d wr k ?buf" "disk_calls calls = sector_calls d wr k ?buf" "sent_bytes calls = []"
    using write_sector_quiet [of wr "chs_of (unat (d_heads d)) (unat (d_spt d)) k" ?buf]
    by (simp_all add: w sector_ok_def sector_calls_def)
  let ?good = "good + of_bool ok" and ?bad = "bad + of_bool (\<not> ok)"
  have buf: "length ?buf = BPS" by (simp add: BPS_def)
  have lbas: "tx_lbas rs = k # map fst kms" using Cons.prems(1) by (simp add: km)
  obtain rs' where rs': "tx_lbas rs' = map fst kms" "k < 2 ^ 32" "fst (wr_loop g wr kb i good bad rs []) = []"
    "consumes (wr_loop g wr kb i good bad rs) ?fr (calls @ [Sent ACK]) (wr_loop g wr kb (i + 1) ?good ?bad rs')"
    using wr_loop_take [where kb = kb, OF lbas buf assms w, of i good bad STATUS_GOOD]
    by (auto simp: sector_payload_def)
  have now: "wr_react bs (m, past) = ((wr_loop g wr kb i good bad rs, past @ acts), sent_bytes acts)"
    by (rule prog_react_consumes [OF Cons.prems(4) rs'(3)])
  note bear = bearable_Cons [OF Cons.prems(3) [unfolded km]]
  let ?fin = "\<lambda>x. wr_finished (disk_calls past @ disk_calls acts @
      concat (map (\<lambda>k. sector_calls d wr k (restore_sector f k)) (map fst (km # kms)))) (fst x)"
  let ?Q = "takes (losing wr_react) ?fin f (\<lambda>k. sector_ok d wr k (restore_sector f k)) kms ?good ?bad"
  have "late (losing wr_react) ?fr n ?Q ((wr_loop g wr kb i good bad rs, past @ acts), losses_of (km # kms))"
  proof (cases n)
    case 0
    have "distinct (map fst kms)" "survivable kms" using Cons.prems(2) bear by (simp_all add: km)
    from Cons.IH [OF rs'(1) this rs'(4), of "past @ acts"] obtain p rest where
      "wr_react ?fr (wr_loop g wr kb i good bad rs, past @ acts) = (p, ACK # rest)" "?Q ((p, losses_of kms), rest)"
      by (auto simp: ok km)
    then show ?thesis by (simp add: 0 km losses_of_Cons losing_def)
  next
    case (Suc l)
    then obtain k' m' kms' where kms: "kms = (k', m') # kms'" using bear by (cases kms) auto
    have lbas': "tx_lbas rs' = k' # map fst kms'" "k \<noteq> k'" using rs'(1) Cons.prems(2) by (simp_all add: kms km)
    have waits: "fst (wr_loop g wr kb i' good' bad' rs' []) = []" for i' good' bad'
      using lbas'(1) assms(1) by (rule wr_loop_waits)
    have first: "wr_react ?fr (wr_loop g wr kb i good bad rs, past @ acts) =
        ((wr_loop g wr kb (i + 1) ?good ?bad rs', past @ acts @ calls @ [Sent ACK]), [ACK])"
      using prog_react_consumes [OF rs'(4) waits] ok(3) by simp
    have "late (losing wr_react) ?fr l ?Q
        ((wr_loop g wr kb (i + 1) ?good ?bad rs', past @ acts @ calls @ [Sent ACK]), replicate l True @ False # losses_of kms)"
    proof (rule dup_late [where kb = kb, OF lbas'(1) assms(1) rs'(2) lbas'(2)])
      fix i' past'
      assume same: "disk_calls past' = disk_calls (past @ acts @ calls @ [Sent ACK])"
      have "distinct (map fst kms)" "survivable kms" using Cons.prems(2) bear by (simp_all add: km)
      from Cons.IH [OF rs'(1) this consumes_refl, of i' ?good ?bad past']
      show "?Q (((wr_loop g wr kb i' ?good ?bad rs', past'), losses_of kms), [])"
        using prog_react_consumes [OF consumes_refl, of "wr_loop g wr kb i' ?good ?bad rs'"] waits same by (simp add: ok(2) km)
    qed (simp add: waits)
    then show ?thesis by (simp add: Suc km losses_of_Cons losing_def first)
  qed
  then show ?case
    using now rs'(2) bear by (simp add: km ok(1))
qed

section \<open>A writer that has sent its totals\<close>

lemma answer_steps:
  "answer_to n fr (Some b # evs) = (if b = ACK then ([], Some (True, evs)) else send_tries n fr evs)"
  "send_tries (Suc n) fr evs = (let (out, r) = answer_to n fr evs in (fr @ out, r))"
  "send_tries 0 fr evs = ([], Some (False, evs))"
  by (simp_all add: answer_to_def tx_return_def tx_bind_def [of "tx_send _"] tx_send_def)

text \<open>More bytes than tries end it: every byte that is not \<open>ACK\<close> costs one.\<close>

lemma answer_flood:
  assumes "n < length bs"
  shows "\<exists>j r rest. (\<forall>evs. answer_to n fr (map Some bs @ evs) = (concat (replicate j fr), Some (r, map Some rest @ evs)))
    \<and> (hd bs \<noteq> ACK \<longrightarrow> 0 < n \<longrightarrow> 0 < j)"
  using assms
proof (induction n arbitrary: bs)
  case 0
  then obtain b bs' where "bs = b # bs'" by (cases bs) simp_all
  then show ?case by (intro exI [of _ 0] exI [of _ "b = ACK"] exI [of _ bs']) (simp add: answer_steps tx_return_def)
next
  case (Suc n)
  then obtain b bs' where bs: "bs = b # bs'" "n < length bs'" by (cases bs) simp_all
  show ?case
  proof (cases "b = ACK")
    case True
    then show ?thesis by (intro exI [of _ 0] exI [of _ True] exI [of _ bs']) (simp add: answer_steps bs)
  next
    case False
    obtain j r rest where
      "\<forall>evs. answer_to n fr (map Some bs' @ evs) = (concat (replicate j fr), Some (r, map Some rest @ evs))"
      using Suc.IH [OF bs(2)] by blast
    with False show ?thesis
      by (intro exI [of _ "Suc j"] exI [of _ r] exI [of _ rest]) (simp add: answer_steps bs del: send_tries.simps)
  qed
qed

definition wr_over :: "32 word \<Rightarrow> 32 word \<Rightarrow> wr_end wr_io \<Rightarrow> bool" where
  "wr_over good bad m \<longleftrightarrow> (\<forall>evs. \<exists>rest. m evs = ([], Some (WrDone good bad, rest)))"

lemma over_react:
  assumes "wr_over good bad m"
  obtains m' where "wr_react bs (m, past) = ((m', past), [])" "wr_over good bad m'"
proof -
  have "\<exists>rest. after_bytes m bs evs = ([], Some (WrDone good bad, rest))" for evs
  proof -
    obtain rest where "m (map Some bs @ evs) = ([], Some (WrDone good bad, rest))"
      using assms by (auto simp: wr_over_def)
    then show ?thesis by (simp add: after_bytes_def)
  qed
  then have "wr_over good bad (after_bytes m bs)" by (simp add: wr_over_def)
  moreover obtain rest where "m (map Some bs) = ([], Some (WrDone good bad, rest))"
    using assms by (auto simp: wr_over_def)
  ultimately show thesis using that by (simp add: prog_react_def)
qed

lemma eot_flood:
  assumes "COM_LINK_TRIES \<le> length bs" "hd bs \<noteq> ACK"
  obtains m' acts j where "wr_react bs (wr_eot_wait good bad, past) = ((m', past @ acts), concat (replicate (Suc j) (eot_frame good bad)))"
    "wr_over good bad m'" "disk_calls acts = []"
proof -
  let ?fr = "eot_frame good bad"
  have "15 < length bs" using assms(1) by (simp add: COM_LINK_TRIES_def)
  then obtain i r rest where "\<forall>evs. answer_to 15 ?fr (map Some bs @ evs) = (concat (replicate i ?fr), Some (r, map Some rest @ evs))"
    "0 < i"
    using answer_flood [of 15 bs ?fr] assms(2) by auto
  then have run: "wr_eot_wait good bad (map Some bs @ evs) =
      (map Sent (concat (replicate i ?fr)), Some (WrDone good bad, map Some rest @ evs))" for evs
    by (simp add: wr_eot_wait_def COM_LINK_TRIES_def tx_bind_def sending_def tx_return_def)
  obtain j where i: "i = Suc j" using \<open>0 < i\<close> by (cases i) simp_all
  have "wr_over good bad (after_bytes (wr_eot_wait good bad) bs)"
    using run run [of "[]"] by (simp add: wr_over_def after_bytes_def)
  moreover have "wr_react bs (wr_eot_wait good bad, past) =
      ((after_bytes (wr_eot_wait good bad) bs, past @ map Sent (concat (replicate i ?fr))), concat (replicate i ?fr))"
    using run [of "[]"] by (simp add: prog_react_def)
  ultimately show thesis using i that by simp
qed

section \<open>Bytes that are no answer\<close>

text \<open>The host reads what is on the line as answers, one byte for each time it sends the sector.\<close>

lemma unanswered:
  assumes "n \<le> length (line_queue s)" "ACK \<notin> set (line_queue s)"
    and "line_peer s = ((m, past), [])" "wr_over good bad m"
  shows "\<exists>s' m'. send_sector lossy_port p n s = (Inr False, s') \<and> line_peer s' = ((m', past), []) \<and> wr_over good bad m'"
  using assms
proof (induction n arbitrary: s m)
  case (Suc n)
  obtain m1 where m1: "wr_react (frame TYPE_DATA p) (m, past) = ((m1, past), [])" "wr_over good bad m1"
    by (rule over_react [OF Suc.prems(4)])
  obtain s1 where s1: "ser_write lossy_port (frame TYPE_DATA p) s = (None, s1)"
    "(line_peer s1, line_queue s1) = (fst (losing wr_react (frame TYPE_DATA p) (line_peer s)),
      line_queue s @ snd (losing wr_react (frame TYPE_DATA p) (line_peer s)))"
    by (rule lossy.ser_write_ok)
  then have after: "line_queue s1 = line_queue s" "line_peer s1 = ((m1, past), [])"
    using Suc.prems(3) m1(1) by (simp_all add: losing_def)
  obtain b q where q: "line_queue s = b # q" "b \<noteq> ACK" using Suc.prems(1,2) by (cases "line_queue s") auto
  then obtain s2 where s2: "read_reply lossy_port 8 s1 = (Inr (Some b), s2)" "line_queue s2 = q" "line_peer s2 = line_peer s1"
    using after(1) by (metis lossy.read_reply_ok)
  have "send_sector lossy_port p (Suc n) s = send_sector lossy_port p n s2"
    using s1(1) s2(1) q(2) by (simp add: send_frame_def)
  with Suc.IH [of s2 m1] Suc.prems q s2 after(2) m1(2) show ?case by simp
qed auto

lemma length_eot: "length (eot_frame good bad) = 12"
  by (simp add: eot_frame_eq)

lemma last_answer_lost:
  assumes "\<And>i. \<not> abort_key (kb i)"
    and "ag_heads g = d_heads d" "ag_spt g = d_spt d" "d_heads d \<noteq> 0" "d_spt d \<noteq> 0"
    and "write_sector wr (chs_of (unat (d_heads d)) (unat (d_spt d)) k) (restore_sector f k) = (calls, ok)"
    and "tx_lbas rs = [k]" "ACK \<notin> set (eot_frame (good + of_bool ok) (bad + of_bool (\<not> ok)))"
    and "line_queue s = []" "line_peer s = ((wr_loop g wr kb i good bad rs, past), [True])"
  shows "\<exists>s' m'. send_sector lossy_port (sector_payload f k) LINK_TRIES s = (Inr False, s') \<and>
    wr_over (good + of_bool ok) (bad + of_bool (\<not> ok)) m' \<and>
    fst (fst (line_peer s')) = m' \<and> disk_calls (snd (fst (line_peer s'))) = disk_calls past @ disk_calls calls"
proof -
  define good' bad' where "good' = good + of_bool ok" and "bad' = bad + of_bool (\<not> ok)"
  note totals = good'_def [symmetric] bad'_def [symmetric]
  let ?eot = "eot_frame good' bad'"
  let ?fr = "frame TYPE_DATA (sector_payload f k)"
  have buf: "length (restore_sector f k) = BPS" by (simp add: BPS_def)
  obtain rs' where rs': "tx_lbas rs' = []"
    "consumes (wr_loop g wr kb i good bad rs) ?fr (calls @ [Sent ACK]) (wr_loop g wr kb (i + 1) good' bad' rs')"
    using wr_loop_take [where kb = kb, OF assms(7) buf assms(1-6), of i good bad STATUS_GOOD]
    by (auto simp: sector_payload_def totals)
  have "consumes (wr_loop g wr kb i good bad rs) ?fr ((calls @ [Sent ACK]) @ map Sent ?eot) (wr_eot_wait good' bad')"
    using consumes_trans [OF rs'(2) wr_loop_end [OF rs'(1)]] by simp
  moreover have "fst (wr_eot_wait good' bad' []) = []" by (simp add: wr_eot_wait_def tx_bind_def sending_def)
  moreover have "sent_bytes calls = []" using write_sector_quiet [of wr] assms(6) by (metis fst_conv)
  ultimately have first: "wr_react ?fr (wr_loop g wr kb i good bad rs, past) =
      ((wr_eot_wait good' bad', past @ calls @ [Sent ACK] @ map Sent ?eot), ACK # ?eot)"
    by (simp add: prog_react_consumes)
  obtain s1 where s1: "ser_write lossy_port ?fr s = (None, s1)"
    "(line_peer s1, line_queue s1) = (fst (losing wr_react ?fr (line_peer s)),
      line_queue s @ snd (losing wr_react ?fr (line_peer s)))"
    by (rule lossy.ser_write_ok)
  then have after1: "line_queue s1 = ?eot"
    "line_peer s1 = ((wr_eot_wait good' bad', past @ calls @ [Sent ACK] @ map Sent ?eot), [])"
    by (simp_all add: assms(9,10) losing_def first)
  obtain b q where q: "?eot = b # q" "b \<noteq> ACK" "length q = 11" "ACK \<notin> set q"
    using assms(8) [unfolded totals] length_eot [of good' bad'] by (cases ?eot) auto
  obtain s2 where s2: "read_reply lossy_port 8 s1 = (Inr (Some b), s2)" "line_queue s2 = q" "line_peer s2 = line_peer s1"
    using after1(1) q(1) by (metis lossy.read_reply_ok)
  have flood: "COM_LINK_TRIES \<le> length ?fr" "hd ?fr \<noteq> ACK"
    by (simp_all add: COM_LINK_TRIES_def sector_payload_def frame_simp proto_defs)
  obtain m' acts j where m': "wr_react ?fr (wr_eot_wait good' bad', past @ calls @ [Sent ACK] @ map Sent ?eot) =
      ((m', (past @ calls @ [Sent ACK] @ map Sent ?eot) @ acts), concat (replicate (Suc j) ?eot))"
    "wr_over good' bad' m'" "disk_calls acts = []"
    by (rule eot_flood [OF flood])
  obtain s3 where s3: "ser_write lossy_port ?fr s2 = (None, s3)"
    "(line_peer s3, line_queue s3) = (fst (losing wr_react ?fr (line_peer s2)),
      line_queue s2 @ snd (losing wr_react ?fr (line_peer s2)))"
    by (rule lossy.ser_write_ok)
  then have after3: "line_queue s3 = q @ concat (replicate (Suc j) ?eot)"
    "line_peer s3 = ((m', (past @ calls @ [Sent ACK] @ map Sent ?eot) @ acts), [])"
    by (simp_all add: s2(2,3) after1(2) losing_def m'(1) [simplified])
  obtain c q' where q': "q = c # q'" "c \<noteq> ACK" using q(3,4) by (cases q) auto
  obtain s4 where s4: "read_reply lossy_port 8 s3 = (Inr (Some c), s4)"
    "line_queue s4 = q' @ concat (replicate (Suc j) ?eot)" "line_peer s4 = line_peer s3"
    using after3(1) q'(1) by (metis append_Cons lossy.read_reply_ok)
  have enough: "14 \<le> length (line_queue s4)" "ACK \<notin> set (line_queue s4)"
    using q(3,4) q' assms(8) [unfolded totals] length_eot [of good' bad'] by (auto simp: s4(2) set_replicate_conv_if split: if_splits)
  have "send_sector lossy_port (sector_payload f k) LINK_TRIES s = send_sector lossy_port (sector_payload f k) 14 s4"
    using s1(1) s2(1) s3(1) s4(1) q(2) q'(2)
    by (simp add: LINK_TRIES_def eval_nat_numeral send_frame_def del: send_sector.simps(2)
        add: send_sector.simps(2) [of _ _ "Suc (Suc (Suc (Suc (Suc (Suc (Suc (Suc (Suc (Suc (Suc (Suc (Suc (Suc (Suc 0))))))))))))))"]
          send_sector.simps(2) [of _ _ "Suc (Suc (Suc (Suc (Suc (Suc (Suc (Suc (Suc (Suc (Suc (Suc (Suc (Suc 0)))))))))))))"])
  moreover obtain s' m'' where "send_sector lossy_port (sector_payload f k) 14 s4 = (Inr False, s')"
    "line_peer s' = ((m'', (past @ calls @ [Sent ACK] @ map Sent ?eot) @ acts), [])" "wr_over good' bad' m''"
    using unanswered [OF enough _ m'(2)] s4(3) after3(2) by metis
  ultimately show ?thesis unfolding totals using m'(3) by (intro exI [of _ s']) simp
qed

lemma stream_to_lost:
  assumes "\<And>i. \<not> abort_key (kb i)"
    and "ag_heads g = d_heads d" "ag_spt g = d_spt d" "d_heads d \<noteq> 0" "d_spt d \<noteq> 0"
    and "\<And>k. ok k = sector_ok d wr k (restore_sector f k)"
  shows "tx_lbas rs = ks @ [k] \<Longrightarrow>
    ACK \<notin> set (eot_frame (good + of_nat (length (filter ok (ks @ [k])))) (bad + of_nat (length (filter (\<lambda>k. \<not> ok k) (ks @ [k]))))) \<Longrightarrow>
    line_queue s = [] \<Longrightarrow> line_peer s = ((wr_loop g wr kb i good bad rs, past), replicate (length ks) False @ [True]) \<Longrightarrow>
    \<exists>s'. stream_sectors lossy_port f (ks @ [k]) s = (StreamLost k, s') \<and>
      wr_finished (disk_calls past @ concat (map (\<lambda>k. sector_calls d wr k (restore_sector f k)) (ks @ [k]))) (fst (line_peer s'))"
proof (induction ks arbitrary: rs s i good bad past)
  case Nil
  obtain calls b where w: "write_sector wr (chs_of (unat (d_heads d)) (unat (d_spt d)) k) (restore_sector f k) = (calls, b)"
    by fastforce
  have b: "b = ok k" "sector_calls d wr k (restore_sector f k) = disk_calls calls"
    by (simp_all add: assms(6) sector_ok_def sector_calls_def w)
  have lbas: "tx_lbas rs = [k]" using Nil.prems(1) by simp
  have quiet: "ACK \<notin> set (eot_frame (good + of_bool b) (bad + of_bool (\<not> b)))"
    using Nil.prems(2) by (cases "ok k") (simp_all add: b(1))
  have "k < 2 ^ 32"
    using wr_loop_take [where kb = kb, OF lbas _ assms(1-5) w, of i good bad 0] by (auto simp: BPS_def)
  then have a: "to_bytes_le 4 k = Some (le_bytes 4 k)" by simp
  obtain s' where "send_sector lossy_port (sector_payload f k) LINK_TRIES s = (Inr False, s')"
    "wr_over (good + of_bool b) (bad + of_bool (\<not> b)) (fst (fst (line_peer s')))"
    "disk_calls (snd (fst (line_peer s'))) = disk_calls past @ disk_calls calls"
    using last_answer_lost [where kb = kb, OF assms(1-5) w lbas quiet Nil.prems(3), of i past] Nil.prems(4) by auto
  then show ?case
    using a by (intro exI [of _ s'])
      (auto simp: sector_payload_def Let_def wr_finished_def wr_over_def prog_end_def b(2) dest: spec [of _ "[]"])
next
  case (Cons j ks)
  let ?buf = "restore_sector f j"
  let ?fr = "frame TYPE_DATA (sector_payload f j)"
  obtain calls b where w: "write_sector wr (chs_of (unat (d_heads d)) (unat (d_spt d)) j) ?buf = (calls, b)" by fastforce
  have b: "b = ok j" "sector_calls d wr j ?buf = disk_calls calls" "sent_bytes calls = []"
    using write_sector_quiet [of wr "chs_of (unat (d_heads d)) (unat (d_spt d)) j" ?buf]
    by (simp_all add: assms(6) sector_ok_def sector_calls_def w)
  let ?good = "good + of_bool b" and ?bad = "bad + of_bool (\<not> b)"
  have buf: "length ?buf = BPS" by (simp add: BPS_def)
  have lbas: "tx_lbas rs = j # ks @ [k]" using Cons.prems(1) by simp
  obtain rs' where rs': "tx_lbas rs' = ks @ [k]" "j < 2 ^ 32"
    "consumes (wr_loop g wr kb i good bad rs) ?fr (calls @ [Sent ACK]) (wr_loop g wr kb (i + 1) ?good ?bad rs')"
    using wr_loop_take [where kb = kb, OF lbas buf assms(1-5) w, of i good bad STATUS_GOOD]
    by (auto simp: sector_payload_def)
  obtain j' ks' where next_lba: "tx_lbas rs' = j' # ks'" using rs'(1) by (cases ks) simp_all
  have waits: "fst (wr_loop g wr kb (i + 1) ?good ?bad rs' []) = []"
    using next_lba assms(1) by (rule wr_loop_waits)
  let ?Q = "\<lambda>y. y = (((wr_loop g wr kb (i + 1) ?good ?bad rs', past @ calls @ [Sent ACK]), replicate (length ks) False @ [True]), [])"
  have "late (losing wr_react) ?fr 0 ?Q (line_peer s)"
    using prog_react_consumes [OF rs'(3) waits] b(3) by (simp add: Cons.prems(4) losing_def)
  then obtain s1 where s1: "send_sector lossy_port (sector_payload f j) LINK_TRIES s = (Inr True, s1)"
    "line_peer s1 = ((wr_loop g wr kb (i + 1) ?good ?bad rs', past @ calls @ [Sent ACK]), replicate (length ks) False @ [True])"
    "line_queue s1 = []"
    using lossy.late_sector [of "sector_payload f j" 0 ?Q s LINK_TRIES] Cons.prems(3) by (auto simp: LINK_TRIES_def)
  have "ACK \<notin> set (eot_frame (?good + of_nat (length (filter ok (ks @ [k]))))
      (?bad + of_nat (length (filter (\<lambda>k. \<not> ok k) (ks @ [k])))))"
    using Cons.prems(2) by (cases "ok j") (simp_all add: b(1) ac_simps)
  from Cons.IH [OF rs'(1) this s1(3,2)] obtain s' where
    "stream_sectors lossy_port f (ks @ [k]) s1 = (StreamLost k, s')"
    "wr_finished (disk_calls (past @ calls @ [Sent ACK]) @
        concat (map (\<lambda>k. sector_calls d wr k (restore_sector f k)) (ks @ [k]))) (fst (line_peer s'))" by blast
  then show ?case
    using s1(1) rs'(2) by (intro exI [of _ s']) (simp add: sector_payload_def Let_def b(2))
qed

section \<open>Properties\<close>

text \<open>C6: A restore survives lost answers. When up to 15 answers to each sector but the last are
  lost on the way to the host, every restore of a worklist that names no sector twice ends
  exactly as on a line that loses nothing: the same report on the host, and the same calls of
  INT 13h on the drive, no sector written again.\<close>

theorem clone_lost_acks:
  assumes "cl AND 0x3F \<noteq> 0" "d = com_disk (ch, cl, dh) rd" "\<And>i. \<not> abort_key (kb i)"
    and "restore_ranges spec (length f div 512) (unat (d_total d)) = Inr wl" "py_strip answer = ''YES''"
    and "distinct (lbas_of wl)" "map fst kms = lbas_of wl" "survivable kms"
  shows "\<exists>res s1 s2. restore_run wr_port (Some f) spec (Some answer)
        (wr_start (snd (wr_main tail (False, ch, cl, dh) 0x59 wr kb)) timeout) = Some (res, s1)
    \<and> restore_run lossy_port (Some f) spec (Some answer)
        (lossy_start (snd (wr_main tail (False, ch, cl, dh) 0x59 wr kb)) timeout (False # losses_of kms)) = Some (res, s2)
    \<and> disk_calls (snd (line_peer s1)) = disk_calls (snd (fst (line_peer s2)))
    \<and> (\<exists>good bad. res = Cloned good bad)"
proof -
  let ?m = "snd (wr_main tail (False, ch, cl, dh) 0x59 wr kb)"
  let ?calls = "concat (map (\<lambda>k. sector_calls d wr k (restore_sector f k)) (lbas_of wl))"
  have t: "unat (d_total d) < 2 ^ 32" using unsigned_less [of "d_total d", where 'a = nat] by simp
  note wl = restore_ranges_ok [OF assms(4) t]
  obtain g' where g': "?m = tx_bind (sending (handshake d)) (wr_loop g' wr kb 0 0 0)"
    using assms(1,2) by (rule wr_main_confirmed)
  have start: "fst (?m []) = map Sent (send_info d)"
    by (simp add: g' tx_bind_def sending_def handshake_start)
  have "\<exists>s'. restore_run lossy_port (Some f) spec (Some answer) (lossy_start ?m timeout (False # losses_of kms)) =
      Some (Cloned (length (filter (\<lambda>k. sector_ok d wr k (restore_sector f k)) (lbas_of wl)) mod 2 ^ 32)
        (length (filter (\<lambda>k. \<not> sector_ok d wr k (restore_sector f k)) (lbas_of wl)) mod 2 ^ 32), s')
    \<and> wr_finished ?calls (fst (line_peer s'))"
  proof (rule lossy.taken_restore [OF _ assms(4) wl(1,2) assms(5) _ assms(7)])
    show "line_queue (lossy_start ?m timeout (False # losses_of kms)) = send_info d"
      by (simp add: lossy_start_def line_queue_def start)
    fix p
    assume p: "cmd_payload wl = Inr p"
    obtain g where g: "ag_heads g = d_heads d" "ag_spt g = d_spt d" "d_heads d \<noteq> 0" "d_spt d \<noteq> 0"
      "consumes (after_bytes ?m []) (frame TYPE_CMD p) [] (wr_loop g wr kb 0 0 0 (range_words wl))"
      by (rule wr_main_consumes [OF assms(1,2) wl(2,1) p])
    have lbas: "tx_lbas (range_words wl) = map fst kms" "distinct (map fst kms)"
      using tx_lbas_words [OF wl(2)] assms(6,7) by simp_all
    from wr_takes_late [where kb = kb, OF assms(3) g(1-4) lbas assms(8) g(5), of "map Sent (send_info d)" f]
    show "takes (losing wr_react) (\<lambda>x. wr_finished ?calls (fst x)) f
        (\<lambda>k. sector_ok d wr k (restore_sector f k)) kms 0 0
        (losing wr_react (frame TYPE_CMD p) (line_peer (lossy_start ?m timeout (False # losses_of kms))))"
      by (auto simp: start lossy_start_def line_peer_def losing_def assms(7))
  qed
  with clone_run [where kb = kb, OF assms(1-5), of tail wr timeout] show ?thesis
    by (fastforce simp: wr_finished_def)
qed

theorem clone_lost_acks_witness:
  "\<exists>s2. restore_run lossy_port (Some (replicate 512 1 @ replicate 512 2)) [] (Some ''YES'')
      (lossy_start (snd (wr_main [] (False, 0, 2, 0) 0x59 good_writes (\<lambda>_. None))) 3
        [False, True, True, True, False, False]) = Some (Cloned 2 0, s2)"
proof -
  let ?f = "replicate 512 1 @ replicate 512 (2 :: byte)"
  let ?d = "com_disk (0, 2, 0) half_reads"
  have quiet: "\<not> abort_key ((\<lambda>_. None) i)" for i :: nat by (simp add: abort_key_def)
  have ranges: "restore_ranges [] (length ?f div 512) (unat (d_total ?d)) = Inr [(0, 2)]"
    by (simp add: restore_ranges_def half_disk)
  have yes: "py_strip ''YES'' = ''YES''" by code_simp
  have cl: "(2 :: 8 word) AND 0x3F \<noteq> 0" by simp
  have two: "[0..<2] = [0, Suc 0]" by (simp add: numeral_2_eq_2)
  then have lbas: "lbas_of [(0, 2)] = [0, 1]" by simp
  have kms: "distinct (lbas_of [(0, 2)])" "map fst [(0, 3), (1, 0)] = lbas_of [(0, 2)]" "survivable [(0, 3), (1, 0)]"
    by (simp_all add: two survivable_def LINK_TRIES_def)
  have losses: "losses_of [(0, 3), (1, 0)] = [True, True, True, False, False]"
    by (simp add: losses_of_def eval_nat_numeral)
  obtain res s1 s2 where run: "restore_run wr_port (Some ?f) [] (Some ''YES'')
        (wr_start (snd (wr_main [] (False, 0, 2, 0) 0x59 good_writes (\<lambda>_. None))) 3) = Some (res, s1)"
    "restore_run lossy_port (Some ?f) [] (Some ''YES'') (lossy_start (snd (wr_main [] (False, 0, 2, 0) 0x59 good_writes (\<lambda>_. None))) 3
        (False # losses_of [(0, 3), (1, 0)])) = Some (res, s2)"
    using clone_lost_acks [where kb = "\<lambda>_. None", OF cl refl quiet ranges yes kms, of "[]" good_writes 3] by blast
  have "res = Cloned 2 0"
    using clone_run [where kb = "\<lambda>_. None", OF cl refl quiet ranges yes, of "[]" good_writes 3] run(1)
    by (auto simp: two good_writes_ok)
  with run(2) show ?thesis unfolding losses by blast
qed

text \<open>C22: The answer to the last sector must not be lost. When only it is lost (and the byte of an
  \<open>ACK\<close> does not happen to occur in the frame of the totals), the host reports a lost link at
  that sector, though the sector and all others have been written and \<open>WR.COM\<close> has ended
  regularly: the writer is sending its totals and takes the bytes of the sector sent again for
  wrong answers, the host takes the bytes of the totals for wrong answers.\<close>

theorem clone_last_ack_lost:
  assumes "cl AND 0x3F \<noteq> 0" "d = com_disk (ch, cl, dh) rd" "\<And>i. \<not> abort_key (kb i)"
    and "restore_ranges spec (length f div 512) (unat (d_total d)) = Inr wl" "py_strip answer = ''YES''"
    and "lbas_of wl = ks @ [k]"
    and "ACK \<notin> set (eot_frame (of_nat (length (filter (\<lambda>k. sector_ok d wr k (restore_sector f k)) (lbas_of wl))))
        (of_nat (length (filter (\<lambda>k. \<not> sector_ok d wr k (restore_sector f k)) (lbas_of wl)))))"
  shows "\<exists>s'. restore_run lossy_port (Some f) spec (Some answer)
        (lossy_start (snd (wr_main tail (False, ch, cl, dh) 0x59 wr kb)) timeout (False # replicate (length ks) False @ [True])) =
      Some (LinkLost k, s')
    \<and> wr_finished (concat (map (\<lambda>k. sector_calls d wr k (restore_sector f k)) (lbas_of wl))) (fst (line_peer s'))"
proof -
  let ?m = "snd (wr_main tail (False, ch, cl, dh) 0x59 wr kb)"
  let ?losses = "replicate (length ks) False @ [True]"
  let ?s = "lossy_start ?m timeout (False # ?losses)"
  have t: "unat (d_total d) < 2 ^ 32" using unsigned_less [of "d_total d", where 'a = nat] by simp
  note wl = restore_ranges_ok [OF assms(4) t]
  obtain g' where g': "?m = tx_bind (sending (handshake d)) (wr_loop g' wr kb 0 0 0)"
    using assms(1,2) by (rule wr_main_confirmed)
  have start: "fst (?m []) = map Sent (send_info d)"
    by (simp add: g' tx_bind_def sending_def handshake_start)
  have queue: "line_queue ?s = send_info d" by (simp add: lossy_start_def line_queue_def start)
  obtain p s2 where p: "cmd_payload wl = Inr p"
    "(line_peer s2, line_queue s2) = losing wr_react (frame TYPE_CMD p) (line_peer ?s)"
    and run: "restore_run lossy_port (Some f) spec (Some answer) ?s =
      (case stream_sectors lossy_port f (lbas_of wl) s2 of
         (StreamRaised KeyboardInterrupt, s3) \<Rightarrow> Some (Interrupted, s3)
       | (StreamRaised SerialException, s3) \<Rightarrow> Some (PortRaised SerialException, s3)
       | (StreamLost lba, s3) \<Rightarrow> Some (LinkLost lba, s3)
       | (StreamOverflow e, s3) \<Rightarrow> Some (Overflowed e, s3)
       | (StreamDone, s3) \<Rightarrow>
           (case retry (tally_try lossy_port) s3 of
              None \<Rightarrow> None
            | Some (Inl e, s4) \<Rightarrow> Some (PortRaised e, s4)
            | Some (Inr (good, bad), s4) \<Rightarrow> Some (Cloned good bad, s4)))"
    by (rule lossy.restore_start [OF queue assms(4) wl(1,2) assms(5)])
  obtain g where g: "ag_heads g = d_heads d" "ag_spt g = d_spt d" "d_heads d \<noteq> 0" "d_spt d \<noteq> 0"
    "consumes (after_bytes ?m []) (frame TYPE_CMD p) [] (wr_loop g wr kb 0 0 0 (range_words wl))"
    by (rule wr_main_consumes [OF assms(1,2) wl(2,1) p(1)])
  have lbas: "tx_lbas (range_words wl) = ks @ [k]" using tx_lbas_words [OF wl(2)] assms(6) by simp
  obtain j ks' where first: "tx_lbas (range_words wl) = j # ks'" using lbas by (cases ks) simp_all
  have waits: "fst (wr_loop g wr kb 0 0 0 (range_words wl) []) = []"
    using first assms(3) by (rule wr_loop_waits)
  have s2: "line_queue s2 = []" "line_peer s2 = ((wr_loop g wr kb 0 0 0 (range_words wl), map Sent (send_info d)), ?losses)"
    using p(2) prog_react_consumes [OF g(5) waits, of sent_bytes "map Sent (send_info d)"]
    by (simp_all add: lossy_start_def line_peer_def losing_def start)
  have "ACK \<notin> set (eot_frame (0 + of_nat (length (filter (\<lambda>k. sector_ok d wr k (restore_sector f k)) (ks @ [k]))))
      (0 + of_nat (length (filter (\<lambda>k. \<not> sector_ok d wr k (restore_sector f k)) (ks @ [k])))))"
    using assms(7) unfolding assms(6) add_0 .
  from stream_to_lost [where kb = kb and ok = "\<lambda>k. sector_ok d wr k (restore_sector f k)",
      OF assms(3) g(1-4) refl lbas this s2]
  obtain s' where "stream_sectors lossy_port f (lbas_of wl) s2 = (StreamLost k, s')"
    "wr_finished (concat (map (\<lambda>k. sector_calls d wr k (restore_sector f k)) (lbas_of wl))) (fst (line_peer s'))"
    by (auto simp: assms(6))
  with run show ?thesis by simp
qed

text \<open>The totals of two good sectors hold no \<open>ACK\<close>.\<close>

lemma two_good: "ACK \<notin> set (eot_frame 2 0)"
proof -
  have step: "crc16_update c b = (let x = c XOR push_bit 8 (ucast b) in
      crc16_update_bit (crc16_update_bit (crc16_update_bit (crc16_update_bit
        (crc16_update_bit (crc16_update_bit (crc16_update_bit (crc16_update_bit x))))))))" for c b
    by (simp add: crc16_update_def eval_nat_numeral)
  have "foldl crc16_update 0xFFFF [0x45, 2, 0, 0, 0, 0, 0, 0, 0] = 0xBFC1"
    by (simp add: step crc16_update_bit_def Let_def)
  then show ?thesis
    by (simp add: eot_frame_def tx_frame_def bytes32_def proto_defs Let_def)
qed

theorem clone_last_ack_lost_witness:
  "\<exists>s'. restore_run lossy_port (Some (replicate 512 1 @ replicate 512 2)) [] (Some ''YES'')
      (lossy_start (snd (wr_main [] (False, 0, 2, 0) 0x59 good_writes (\<lambda>_. None))) 3 [False, False, True]) =
        Some (LinkLost 1, s')
    \<and> drive_after (\<lambda>_. []) (disk_calls (snd (fst (line_peer s')))) (0, 2, 0) = replicate 512 2"
proof -
  let ?f = "replicate 512 1 @ replicate 512 (2 :: byte)"
  let ?d = "com_disk (0, 2, 0) half_reads"
  have quiet: "\<not> abort_key ((\<lambda>_. None) i)" for i :: nat by (simp add: abort_key_def)
  have ranges: "restore_ranges [] (length ?f div 512) (unat (d_total ?d)) = Inr [(0, 2)]"
    by (simp add: restore_ranges_def half_disk)
  have yes: "py_strip ''YES'' = ''YES''" by code_simp
  have cl: "(2 :: 8 word) AND 0x3F \<noteq> 0" by simp
  have two: "[0..<2] = [0, Suc 0]" by (simp add: numeral_2_eq_2)
  then have lbas: "lbas_of [(0, 2)] = [0] @ [1]" by simp
  have totals: "ACK \<notin> set (eot_frame (of_nat (length (filter (\<lambda>k. sector_ok ?d good_writes k (restore_sector ?f k)) (lbas_of [(0, 2)]))))
      (of_nat (length (filter (\<lambda>k. \<not> sector_ok ?d good_writes k (restore_sector ?f k)) (lbas_of [(0, 2)])))))"
    unfolding lbas using two_good by (simp add: good_writes_ok)
  obtain s' where run: "restore_run lossy_port (Some ?f) [] (Some ''YES'')
      (lossy_start (snd (wr_main [] (False, 0, 2, 0) 0x59 good_writes (\<lambda>_. None))) 3
        (False # replicate (length [0 :: nat]) False @ [True])) = Some (LinkLost 1, s')"
    "wr_finished (concat (map (\<lambda>k. sector_calls ?d good_writes k (restore_sector ?f k)) (lbas_of [(0, 2)]))) (fst (line_peer s'))"
    using clone_last_ack_lost [where kb = "\<lambda>_. None", OF cl refl quiet ranges yes lbas totals, of "[]" 3] by blast
  have at: "sector_at ?d (Suc 0) = (0, 2, 0)"
    by (simp add: sector_at_def com_disk_def unpack_geometry_def disk_of_geometry_def Let_def chs_of_def pack_chs_def)
  have "\<forall>j\<in>set (lbas_of [(0, 2)]). j < unat (d_total ?d)" "Suc 0 < unat (d_total ?d)" by (simp_all add: two half_disk)
  from clone_drive [OF refl this, of "\<lambda>_. []" good_writes "restore_sector ?f"]
  have "drive_after (\<lambda>_. []) (disk_calls (snd (fst (line_peer s')))) (0, 2, 0) = restore_sector ?f (Suc 0)"
    using run(2) by (simp add: wr_finished_def at two good_writes_ok)
  moreover have "restore_sector ?f (Suc 0) = replicate 512 2" by (simp add: restore_sector_def file_read_at_def Let_def)
  moreover have "False # replicate (length [0 :: nat]) False @ [True] = [False, False, True]" by simp
  ultimately show ?thesis using run(1) by metis
qed

end
