(* ===== verification/EmuMachine.thy ===== *)
theory EmuMachine
  imports Prelude
begin

text \<open>
  The machine of \<open>tools/emu8086.py\<close>: the state of the class \<open>Emu\<close> and its helpers for
  registers, memory, stack, flags and operands. Registers are 16-bit words, which is what the
  masks of the code make of Python's integers; operands are natural numbers below
  \<open>256 ^ n\<close>. The trail of recent addresses, which is only printed, is left out.
\<close>

unbundle bit_operations_syntax

section \<open>State\<close>

datatype reg = AX | BX | CX | DX | SI | DI | BP | SP

datatype seg = CS | DS | ES | SS

text \<open>
  \<open>e_lcr\<close>, \<open>e_frame\<close>, \<open>e_data_count\<close> and \<open>e_eot_seen\<close> are the attributes that \<open>uart_out\<close>
  creates when it needs them. The memory is a \<open>bytearray\<close>: a content and a length.
\<close>

record emu =
  e_mem :: "nat \<Rightarrow> byte"
  e_memlen :: nat
  e_r :: "reg \<Rightarrow> 16 word"
  e_sreg :: "seg \<Rightarrow> 16 word"
  e_ip :: "16 word"
  e_CF :: bool
  e_ZF :: bool
  e_SF :: bool
  e_OF :: bool
  e_PF :: bool
  e_halt :: bool
  e_exitcode :: "nat option"
  e_rx :: "byte list"
  e_tx :: "byte list"
  e_console :: "byte list"
  e_cmd_bytes :: "byte list"
  e_lcr :: nat
  e_frame :: "byte list"
  e_data_count :: nat
  e_eot_seen :: bool

text \<open>What an instruction can raise.\<close>

datatype emu_error =
    UnknownInt nat nat
  | UnimplOpcode nat
  | UnimplTwoByte nat
  | UnimplGroup nat
  | UnimplShift nat
  | UnimplMulDiv nat
  | DivZero
  | DivOverflow
  | ZeroDivide
  | SegIndex nat
  | ListIndex int
  | IntOverflow

section \<open>Registers\<close>

definition reg16 :: "nat \<Rightarrow> reg" where
  "reg16 i = [AX, CX, DX, BX, SP, BP, SI, DI] ! i"

definition set_r :: "reg \<Rightarrow> 16 word \<Rightarrow> 'z emu_scheme \<Rightarrow> 'z emu_scheme" where
  "set_r r v e = e\<lparr>e_r := (e_r e)(r := v)\<rparr>"

definition set_sreg :: "seg \<Rightarrow> 16 word \<Rightarrow> 'z emu_scheme \<Rightarrow> 'z emu_scheme" where
  "set_sreg s v e = e\<lparr>e_sreg := (e_sreg e)(s := v)\<rparr>"

definition g16 :: "nat \<Rightarrow> 'z emu_scheme \<Rightarrow> nat" where
  "g16 i e = unat (e_r e (reg16 i))"

definition s16 :: "nat \<Rightarrow> nat \<Rightarrow> 'z emu_scheme \<Rightarrow> 'z emu_scheme" where
  "s16 i v e = set_r (reg16 i) (word_of_nat v) e"

definition reg8 :: "nat \<Rightarrow> reg" where
  "reg8 i = [AX, CX, DX, BX] ! (i mod 4)"

definition g8 :: "nat \<Rightarrow> 'z emu_scheme \<Rightarrow> nat" where
  "g8 i e =
     (let v = e_r e (reg8 i)
      in if i < 4 then unat (v AND 0xFF) else unat (drop_bit 8 v AND 0xFF))"

definition s8 :: "nat \<Rightarrow> nat \<Rightarrow> 'z emu_scheme \<Rightarrow> 'z emu_scheme" where
  "s8 i val e =
     (let v = e_r e (reg8 i)
      in if i < 4 then set_r (reg8 i) ((v AND 0xFF00) OR (word_of_nat val AND 0xFF)) e
         else set_r (reg8 i) ((v AND 0x00FF) OR push_bit 8 (word_of_nat val AND 0xFF)) e)"

section \<open>Memory and stack\<close>

definition lin :: "seg \<Rightarrow> 16 word \<Rightarrow> 'z emu_scheme \<Rightarrow> nat" where
  "lin s off e = (unat (e_sreg e s) * 16 + unat off) mod 0x100000"

text \<open>
  A slice of a \<open>bytearray\<close> ends at its end, and a slice assignment that reaches beyond the end
  extends it.
\<close>

definition mem_slice :: "nat \<Rightarrow> nat \<Rightarrow> 'z emu_scheme \<Rightarrow> byte list" where
  "mem_slice a n e = map (e_mem e) [a..<min (a + n) (e_memlen e)]"

definition mem_store :: "nat \<Rightarrow> byte list \<Rightarrow> 'z emu_scheme \<Rightarrow> 'z emu_scheme" where
  "mem_store a bs e =
     e\<lparr>e_mem := (\<lambda>i. if a \<le> i \<and> i < a + length bs then bs ! (i - a) else e_mem e i),
       e_memlen := max (e_memlen e) (a + length bs)\<rparr>"

definition rd :: "seg \<Rightarrow> 16 word \<Rightarrow> nat \<Rightarrow> 'z emu_scheme \<Rightarrow> nat" where
  "rd s off n e = from_bytes_le (mem_slice (lin s off e) n e)"

definition wr :: "seg \<Rightarrow> 16 word \<Rightarrow> nat \<Rightarrow> nat \<Rightarrow> 'z emu_scheme \<Rightarrow> 'z emu_scheme" where
  "wr s off val n e = mem_store (lin s off e) (le_bytes n val) e"

definition push :: "nat \<Rightarrow> 'z emu_scheme \<Rightarrow> 'z emu_scheme" where
  "push v e = (let e1 = set_r SP (e_r e SP - 2) e in wr SS (e_r e1 SP) v 2 e1)"

definition pop :: "'z emu_scheme \<Rightarrow> nat \<times> 'z emu_scheme" where
  "pop e = (rd SS (e_r e SP) 2 e, set_r SP (e_r e SP + 2) e)"

section \<open>Flags\<close>

fun bit_count :: "nat \<Rightarrow> nat \<Rightarrow> nat" where
  "bit_count 0 v = 0"
| "bit_count (Suc n) v = v mod 2 + bit_count n (v div 2)"

definition setzsp :: "nat \<Rightarrow> nat \<Rightarrow> 'z emu_scheme \<Rightarrow> 'z emu_scheme" where
  "setzsp v n e =
     (let w = v mod 2 ^ (8 * n)
      in e\<lparr>e_ZF := (w = 0), e_SF := bit w (8 * n - 1), e_PF := even (bit_count 8 (w mod 256))\<rparr>)"

text \<open>\<open>sext\<close>: the value of \<open>n\<close> bytes as a signed number.\<close>

definition sext :: "nat \<Rightarrow> nat \<Rightarrow> int" where
  "sext v n = (let b = 8 * n in if bit v (b - 1) then int v - 2 ^ b else int v)"

datatype alu_op = Add | Or | Adc | Sbb | And | Sub | Xor | Cmp | Test

definition alu :: "alu_op \<Rightarrow> nat \<Rightarrow> nat \<Rightarrow> nat \<Rightarrow> 'z emu_scheme \<Rightarrow> nat \<times> 'z emu_scheme" where
  "alu p a b n e =
     (let m = 2 ^ (8 * n) - 1;
          r = (case p of
                 Add \<Rightarrow> int a + int b
               | Adc \<Rightarrow> int a + int b + of_bool (e_CF e)
               | Sub \<Rightarrow> int a - int b
               | Sbb \<Rightarrow> int a - int b - of_bool (e_CF e)
               | Cmp \<Rightarrow> int a - int b
               | And \<Rightarrow> int (a AND b)
               | Or \<Rightarrow> int (a OR b)
               | Xor \<Rightarrow> int (a XOR b)
               | Test \<Rightarrow> int (a AND b));
          e1 = (if p \<in> {Add, Adc, Sub, Sbb, Cmp} then e\<lparr>e_CF := (r < 0 \<or> r > m)\<rparr>
                else e\<lparr>e_CF := False, e_OF := False\<rparr>);
          res = nat (r mod 2 ^ (8 * n))
      in (res, setzsp res n e1))"

text \<open>\<open>jcccond\<close>: the condition of a conditional jump.\<close>

definition jcccond :: "nat \<Rightarrow> 'z emu_scheme \<Rightarrow> bool" where
  "jcccond opc e =
     (let Z = e_ZF e; C = e_CF e; S = e_SF e; V = e_OF e; P = e_PF e
      in [V, \<not> V, C, \<not> C, Z, \<not> Z, C \<or> Z, \<not> (C \<or> Z),
          S, \<not> S, P, \<not> P, S \<noteq> V, S = V, Z \<or> S \<noteq> V, \<not> (Z \<or> S \<noteq> V)] ! (opc mod 16))"

section \<open>Instruction bytes and operands\<close>

definition fetch :: "nat \<Rightarrow> 'z emu_scheme \<Rightarrow> nat \<times> 'z emu_scheme" where
  "fetch n e = (rd CS (e_ip e) n e, e\<lparr>e_ip := e_ip e + word_of_nat n\<rparr>)"

definition jump_by :: "int \<Rightarrow> 'z emu_scheme \<Rightarrow> 'z emu_scheme" where
  "jump_by rel e = e\<lparr>e_ip := e_ip e + word_of_int rel\<rparr>"

text \<open>\<open>modrm\<close>: mode, register field, r/m field, and the segment and offset of a memory operand.\<close>

type_synonym operand = "nat \<times> nat \<times> nat \<times> (seg \<times> 16 word) option"

definition ea_base :: "nat \<Rightarrow> nat \<Rightarrow> 'z emu_scheme \<Rightarrow> 16 word" where
  "ea_base md rm e =
     (let r = e_r e in
      [r BX + r SI, r BX + r DI, r BP + r SI, r BP + r DI, r SI, r DI,
       (if md \<noteq> 0 then r BP else 0), r BX] ! rm)"

definition modrm :: "'z emu_scheme \<Rightarrow> operand \<times> 'z emu_scheme" where
  "modrm e =
     (let (mb, e1) = fetch 1 e;
          md = mb div 64; rg = (mb div 8) mod 8; rm = mb mod 8
      in if md = 3 then ((md, rg, rm, None), e1)
         else
           (let base = ea_base md rm e1;
                (base1, e2) =
                  (if md = 0 \<and> rm = 6 then (case fetch 2 e1 of (d, e2) \<Rightarrow> (word_of_nat d, e2))
                   else if md = 1 then (case fetch 1 e1 of (d, e2) \<Rightarrow> (base + word_of_int (sext d 1), e2))
                   else if md = 2 then (case fetch 2 e1 of (d, e2) \<Rightarrow> (base + word_of_nat d, e2))
                   else (base, e1));
                s = (if rm \<in> {2, 3} \<or> rm = 6 \<and> md \<noteq> 0 then SS else DS)
            in ((md, rg, rm, Some (s, base1)), e2)))"

text \<open>
  The two ways every instruction uses a mode byte: the value of its r/m operand and a store to
  it, with the segment override of the instruction (\<open>eff_seg\<close>) and its width.
\<close>

definition eff_seg :: "seg option \<Rightarrow> seg \<Rightarrow> seg" where
  "eff_seg over s = (case over of Some s' \<Rightarrow> s' | None \<Rightarrow> s)"

definition g_reg :: "bool \<Rightarrow> nat \<Rightarrow> 'z emu_scheme \<Rightarrow> nat" where
  "g_reg w i e = (if w then g16 i e else g8 i e)"

definition s_reg :: "bool \<Rightarrow> nat \<Rightarrow> nat \<Rightarrow> 'z emu_scheme \<Rightarrow> 'z emu_scheme" where
  "s_reg w i v e = (if w then s16 i v e else s8 i v e)"

definition width :: "bool \<Rightarrow> nat" where
  "width w = (if w then 2 else 1)"

definition get_rm :: "bool \<Rightarrow> seg option \<Rightarrow> operand \<Rightarrow> 'z emu_scheme \<Rightarrow> nat" where
  "get_rm w over rmo e =
     (case rmo of
        (_, _, rm, None) \<Rightarrow> g_reg w rm e
      | (_, _, _, Some (s, off)) \<Rightarrow> rd (eff_seg over s) off (width w) e)"

definition put_rm :: "bool \<Rightarrow> seg option \<Rightarrow> operand \<Rightarrow> nat \<Rightarrow> 'z emu_scheme \<Rightarrow> 'z emu_scheme" where
  "put_rm w over rmo v e =
     (case rmo of
        (_, _, rm, None) \<Rightarrow> s_reg w rm v e
      | (_, _, _, Some (s, off)) \<Rightarrow> wr (eff_seg over s) off v (width w) e)"

end
