(* ===== verification/EmuStep.thy ===== *)
theory EmuStep
  imports EmuMachine
begin

text \<open>
  The instructions of \<open>tools/emu8086.py\<close>: one function per group of opcodes of \<open>Emu.step\<close>,
  the dispatch in the order of the code, the default services (\<open>do_int\<close>, \<open>uart_in\<close>,
  \<open>uart_out\<close>) and the loop \<open>run\<close>. The test harness replaces \<open>do_int\<close> and \<open>uart_out\<close> of an
  emulator, so they are arguments of the step. An exception is a value of \<open>emu_error\<close>; a step
  that does not return (an endless run of prefixes, a message without an end) is \<open>None\<close>.
\<close>

section \<open>Services\<close>

definition uart_in :: "nat \<Rightarrow> 'z emu_scheme \<Rightarrow> nat \<times> 'z emu_scheme" where
  "uart_in port e =
     (if port = 0x3F8 + 5 then (if e_rx e \<noteq> [] then 0x61 else 0x60, e)
      else if port = 0x3F8
      then (case e_rx e of [] \<Rightarrow> (0, e) | b # rest \<Rightarrow> (unat b, e\<lparr>e_rx := rest\<rparr>))
      else (0, e))"

text \<open>Frame lengths by type byte, and the reaction to a complete frame.\<close>

definition frame_need :: "byte \<Rightarrow> nat option" where
  "frame_need t = (if t = 0x49 then Some 16 else if t = 0x44 then Some 521 else if t = 0x45 then Some 12 else None)"

definition frame_done :: "byte \<Rightarrow> 'z emu_scheme \<Rightarrow> 'z emu_scheme" where
  "frame_done t e =
     (if t = 0x49 then e\<lparr>e_rx := e_rx e @ e_cmd_bytes e\<rparr>
      else if t = 0x44 then e\<lparr>e_data_count := e_data_count e + 1, e_rx := e_rx e @ [0x06]\<rparr>
      else if t = 0x45 then e\<lparr>e_eot_seen := True, e_rx := e_rx e @ [0x06]\<rparr>
      else e)"

definition thr_write :: "byte \<Rightarrow> 'z emu_scheme \<Rightarrow> 'z emu_scheme" where
  "thr_write b e =
     (let e1 = e\<lparr>e_tx := e_tx e @ [b]\<rparr>
      in if e_frame e1 = [] \<and> b \<noteq> 0x01 then e1
         else
           (let fr = e_frame e1 @ [b]; e2 = e1\<lparr>e_frame := fr\<rparr>
            in if length fr < 2 then e2
               else (case frame_need (fr ! 1) of
                   None \<Rightarrow> e2\<lparr>e_frame := []\<rparr>
                 | Some need \<Rightarrow>
                     if need \<le> length fr then (frame_done (fr ! 1) e2)\<lparr>e_frame := []\<rparr> else e2)))"

definition uart_out :: "nat \<Rightarrow> nat \<Rightarrow> 'z emu_scheme \<Rightarrow> emu_error + 'z emu_scheme" where
  "uart_out port val e =
     Inr (if port = 0x3F8 + 3 then e\<lparr>e_lcr := val mod 256\<rparr>
          else if port = 0x3F8 + 1 then e
          else if port \<noteq> 0x3F8 then e
          else if bit (e_lcr e) 7 then e
          else thr_write (word_of_nat val) e)"

text \<open>The message at \<open>DS:off\<close> up to the dollar sign.\<close>

definition dollar_step :: "'z emu_scheme \<Rightarrow> 16 word \<times> byte list \<Rightarrow> (byte list + 16 word \<times> byte list) option" where
  "dollar_step e s =
     (case s of (off, msg) \<Rightarrow>
        let c = rd DS off 1 e
        in if c = 0x24 then Some (Inl msg) else Some (Inr (off + 1, msg @ [word_of_nat c])))"

definition dollar_string :: "'z emu_scheme \<Rightarrow> byte list option" where
  "dollar_string e = while_true (dollar_step e) (e_r e DX, [])"

definition reg_high :: "16 word \<Rightarrow> nat" where
  "reg_high v = unat (drop_bit 8 v AND 0xFF)"

definition reg_low :: "16 word \<Rightarrow> nat" where
  "reg_low v = unat (v AND 0xFF)"

definition geom_cx :: "16 word \<Rightarrow> 16 word \<Rightarrow> 16 word" where
  "geom_cx c s = push_bit 8 (c AND 0xFF) OR ((drop_bit 2 c AND 0xC0) OR s)"

definition do_int :: "nat \<Rightarrow> 'z emu_scheme \<Rightarrow> (emu_error + 'z emu_scheme) option" where
  "do_int n e =
     (let ah = reg_high (e_r e AX); al = reg_low (e_r e AX)
      in if n = 0x21 then
           (if ah = 0x09 then
              (case dollar_string e of
                 None \<Rightarrow> None
               | Some msg \<Rightarrow> Some (Inr (e\<lparr>e_console := e_console e @ msg\<rparr>)))
            else if ah = 0x02 then
              Some (Inr (e\<lparr>e_console := e_console e @ [ucast (e_r e DX AND 0xFF)]\<rparr>))
            else if ah = 0x4C then Some (Inr (e\<lparr>e_halt := True, e_exitcode := Some al\<rparr>))
            else Some (Inr e))
         else if n = 0x13 then
           (if ah = 0x08 then
              Some (Inr ((set_r DX (push_bit 8 3 OR 0x80) (set_r CX (geom_cx 546 38) e))\<lparr>e_CF := False\<rparr>))
            else if ah = 0x02 \<or> ah = 0x00 then
              Some (Inr (set_r AX (word_of_nat al) (e\<lparr>e_CF := False\<rparr>)))
            else Some (Inr (e\<lparr>e_CF := False\<rparr>)))
         else if n = 0x16 then Some (Inr (e\<lparr>e_ZF := True\<rparr>))
         else Some (Inl (UnknownInt n ah)))"

section \<open>Groups of instructions\<close>

definition op_segment :: "nat \<Rightarrow> 'z emu_scheme \<Rightarrow> 'z emu_scheme" where
  "op_segment opc e =
     (if opc = 0x06 then push (unat (e_sreg e ES)) e
      else if opc = 0x07 then (case pop e of (v, e1) \<Rightarrow> set_sreg ES (word_of_nat v) e1)
      else if opc = 0x0E then push (unat (e_sreg e CS)) e
      else if opc = 0x16 then push (unat (e_sreg e SS)) e
      else if opc = 0x17 then (case pop e of (v, e1) \<Rightarrow> set_sreg SS (word_of_nat v) e1)
      else if opc = 0x1E then push (unat (e_sreg e DS)) e
      else (case pop e of (v, e1) \<Rightarrow> set_sreg DS (word_of_nat v) e1))"

definition op_inc :: "nat \<Rightarrow> 'z emu_scheme \<Rightarrow> 'z emu_scheme" where
  "op_inc i e =
     (let cf = e_CF e; v = (g16 i e + 1) mod 65536
      in s16 i v ((setzsp v 2 e)\<lparr>e_CF := cf\<rparr>))"

definition op_dec :: "nat \<Rightarrow> 'z emu_scheme \<Rightarrow> 'z emu_scheme" where
  "op_dec i e =
     (let cf = e_CF e; v = nat ((int (g16 i e) - 1) mod 65536)
      in s16 i v ((setzsp v 2 e)\<lparr>e_CF := cf\<rparr>))"

text \<open>\<open>call\<close>, \<open>jmp\<close> (near and short) and \<open>ret\<close>.\<close>

definition op_call :: "'z emu_scheme \<Rightarrow> 'z emu_scheme" where
  "op_call e = (let (d, e1) = fetch 2 e in jump_by (sext d 2) (push (unat (e_ip e1)) e1))"

definition op_jmp :: "nat \<Rightarrow> 'z emu_scheme \<Rightarrow> 'z emu_scheme" where
  "op_jmp n e = (let (d, e1) = fetch n e in jump_by (sext d n) e1)"

definition op_ret :: "'z emu_scheme \<Rightarrow> 'z emu_scheme" where
  "op_ret e = (let (v, e1) = pop e in e1\<lparr>e_ip := word_of_nat v\<rparr>)"

definition op_jcc :: "nat \<Rightarrow> nat \<Rightarrow> 'z emu_scheme \<Rightarrow> 'z emu_scheme" where
  "op_jcc opc n e =
     (let (d, e1) = fetch n e in if jcccond opc e1 then jump_by (sext d n) e1 else e1)"

definition op_jcxz :: "'z emu_scheme \<Rightarrow> 'z emu_scheme" where
  "op_jcxz e = (let (d, e1) = fetch 1 e in if e_r e1 CX = 0 then jump_by (sext d 1) e1 else e1)"

definition op_loop :: "'z emu_scheme \<Rightarrow> 'z emu_scheme" where
  "op_loop e =
     (let (d, e1) = fetch 1 e; e2 = set_r CX (e_r e1 CX - 1) e1
      in if e_r e2 CX \<noteq> 0 then jump_by (sext d 1) e2 else e2)"

text \<open>Moves.\<close>

definition op_mov_rm :: "seg option \<Rightarrow> nat \<Rightarrow> 'z emu_scheme \<Rightarrow> 'z emu_scheme" where
  "op_mov_rm over opc e =
     (let w = odd opc; (rmo, e1) = modrm e; rg = fst (snd rmo)
      in if even (opc div 2) then put_rm w over rmo (g_reg w rg e1) e1
         else s_reg w rg (get_rm w over rmo e1) e1)"

definition seg_at :: "nat \<Rightarrow> seg option" where
  "seg_at i = (if i < 4 then Some ([ES, CS, SS, DS] ! i) else None)"

definition op_mov_to_sreg :: "seg option \<Rightarrow> 'z emu_scheme \<Rightarrow> emu_error + 'z emu_scheme" where
  "op_mov_to_sreg over e =
     (let (rmo, e1) = modrm e; rg = fst (snd rmo); val = get_rm True over rmo e1
      in case seg_at rg of None \<Rightarrow> Inl (SegIndex rg) | Some s \<Rightarrow> Inr (set_sreg s (word_of_nat val) e1))"

definition op_mov_from_sreg :: "seg option \<Rightarrow> 'z emu_scheme \<Rightarrow> emu_error + 'z emu_scheme" where
  "op_mov_from_sreg over e =
     (let (rmo, e1) = modrm e; rg = fst (snd rmo)
      in case seg_at rg of
           None \<Rightarrow> Inl (SegIndex rg)
         | Some s \<Rightarrow> Inr (put_rm True over rmo (unat (e_sreg e1 s)) e1))"

definition op_moffs :: "seg option \<Rightarrow> nat \<Rightarrow> 'z emu_scheme \<Rightarrow> 'z emu_scheme" where
  "op_moffs over opc e =
     (let (d, e1) = fetch 2 e; off = word_of_nat d; s = eff_seg over DS
      in if opc = 0xA0 then s8 0 (rd s off 1 e1) e1
         else if opc = 0xA1 then s16 0 (rd s off 2 e1) e1
         else if opc = 0xA2 then wr s off (reg_low (e_r e1 AX)) 1 e1
         else wr s off (unat (e_r e1 AX)) 2 e1)"

definition op_mov_imm :: "seg option \<Rightarrow> nat \<Rightarrow> 'z emu_scheme \<Rightarrow> 'z emu_scheme" where
  "op_mov_imm over opc e =
     (let w = odd opc; (rmo, e1) = modrm e; (imm, e2) = fetch (width w) e1
      in put_rm w over rmo imm e2)"

text \<open>
  Arithmetic between register and r/m, on the accumulator, and with an immediate. The result
  of a comparison is not stored.
\<close>

definition alu_of :: "nat \<Rightarrow> alu_op" where
  "alu_of i = [Add, Or, Adc, Sbb, And, Sub, Xor, Cmp] ! i"

definition op_alu :: "seg option \<Rightarrow> nat \<Rightarrow> 'z emu_scheme \<Rightarrow> 'z emu_scheme" where
  "op_alu over opc e =
     (let name = alu_of (opc div 8); w = odd opc
      in if opc mod 8 = 4 then
           (let (imm, e1) = fetch 1 e; (r, e2) = alu name (g8 0 e) imm 1 e1
            in if name \<noteq> Cmp then s8 0 r e2 else e2)
         else if opc mod 8 = 5 then
           (let (imm, e1) = fetch 2 e; (r, e2) = alu name (unat (e_r e AX)) imm 2 e1
            in if name \<noteq> Cmp then s16 0 r e2 else e2)
         else
           (let (rmo, e1) = modrm e; rg = fst (snd rmo); n = width w
            in if opc mod 8 < 2 then
                 (let (r, e2) = alu name (get_rm w over rmo e1) (g_reg w rg e1) n e1
                  in if name \<noteq> Cmp then put_rm w over rmo r e2 else e2)
               else
                 (let (r, e2) = alu name (g_reg w rg e1) (get_rm w over rmo e1) n e1
                  in if name \<noteq> Cmp then s_reg w rg r e2 else e2)))"

definition op_test :: "seg option \<Rightarrow> nat \<Rightarrow> 'z emu_scheme \<Rightarrow> 'z emu_scheme" where
  "op_test over opc e =
     (if opc = 0xA8 then (let (imm, e1) = fetch 1 e in snd (alu Test (g8 0 e) imm 1 e1))
      else if opc = 0xA9 then (let (imm, e1) = fetch 2 e in snd (alu Test (unat (e_r e AX)) imm 2 e1))
      else (let w = odd opc; (rmo, e1) = modrm e
            in snd (alu Test (get_rm w over rmo e1) (g_reg w (fst (snd rmo)) e1) (width w) e1)))"

definition op_grp1 :: "seg option \<Rightarrow> nat \<Rightarrow> 'z emu_scheme \<Rightarrow> 'z emu_scheme" where
  "op_grp1 over opc e =
     (let (rmo, e1) = modrm e; w = (opc \<noteq> 0x80); n = width w;
          (imm, e2) =
            (if opc = 0x81 then fetch 2 e1
             else if opc = 0x83 then (case fetch 1 e1 of (d, e2) \<Rightarrow> (nat (sext d 1 mod 65536), e2))
             else fetch 1 e1);
          name = alu_of (fst (snd rmo));
          (r, e3) = alu name (get_rm w over rmo e2) imm n e2
      in if name \<noteq> Cmp then put_rm w over rmo r e3 else e3)"

definition op_grp_fe :: "seg option \<Rightarrow> nat \<Rightarrow> 'z emu_scheme \<Rightarrow> emu_error + 'z emu_scheme" where
  "op_grp_fe over opc e =
     (let (rmo, e1) = modrm e; rg = fst (snd rmo); w = (opc = 0xFF); n = width w;
          a = get_rm w over rmo e1
      in if rg = 0 then (let (r, e2) = alu Add a 1 n e1 in Inr (put_rm w over rmo r e2))
         else if rg = 1 then (let (r, e2) = alu Sub a 1 n e1 in Inr (put_rm w over rmo r e2))
         else Inl (UnimplGroup rg))"

text \<open>Shifts: one bit per round; a shift by zero changes no flag.\<close>

fun shift_rounds :: "nat \<Rightarrow> nat \<Rightarrow> nat \<Rightarrow> nat \<Rightarrow> bool \<Rightarrow> emu_error + nat \<times> bool" where
  "shift_rounds rg n 0 a cf = Inr (a, cf)"
| "shift_rounds rg n (Suc k) a cf =
     (let top = bit a (8 * n - 1); m = 2 ^ (8 * n)
      in if rg = 4 then shift_rounds rg n k ((2 * a) mod m) top
         else if rg = 5 then shift_rounds rg n k (a div 2) (odd a)
         else if rg = 0 then shift_rounds rg n k ((2 * a + of_bool top) mod m) top
         else Inl (UnimplShift rg))"

definition op_shift :: "seg option \<Rightarrow> nat \<Rightarrow> 'z emu_scheme \<Rightarrow> emu_error + 'z emu_scheme" where
  "op_shift over opc e =
     (let (rmo, e1) = modrm e; w = odd opc; n = width w;
          (cnt, e2) =
            (if opc \<in> {0xD0, 0xD1} then (1, e1)
             else if opc \<in> {0xD2, 0xD3} then (reg_low (e_r e1 CX), e1)
             else fetch 1 e1)
      in case shift_rounds (fst (snd rmo)) n cnt (get_rm w over rmo e2) (e_CF e2) of
           Inl err \<Rightarrow> Inl err
         | Inr (a, cf) \<Rightarrow>
             (let e3 = e2\<lparr>e_CF := cf\<rparr>
              in Inr (put_rm w over rmo a (if cnt \<noteq> 0 then setzsp a n e3 else e3))))"

text \<open>
  Multiplication and division. The quotient of \<open>idiv\<close> is computed in floating point and
  truncated; a double holds every quotient of these widths closely enough for that to be the
  truncated quotient.
\<close>

definition trunc_div :: "int \<Rightarrow> int \<Rightarrow> int" where
  "trunc_div a b = (let q = abs a div abs b in if (a < 0) = (b < 0) then q else - q)"

definition op_mul :: "bool \<Rightarrow> nat \<Rightarrow> 'z emu_scheme \<Rightarrow> 'z emu_scheme" where
  "op_mul w a e =
     (if w then
        (let res = unat (e_r e AX) * a
         in set_r DX (word_of_nat (res div 65536)) (set_r AX (word_of_nat res) e))
      else set_r AX (word_of_nat (reg_low (e_r e AX) * a)) e)"

definition op_div :: "bool \<Rightarrow> nat \<Rightarrow> 'z emu_scheme \<Rightarrow> emu_error + 'z emu_scheme" where
  "op_div w a e =
     (if w then
        (let dv = unat (e_r e DX) * 65536 + unat (e_r e AX)
         in if a = 0 then Inl DivZero
            else if dv div a > 0xFFFF then Inl DivOverflow
            else Inr (set_r DX (word_of_nat (dv mod a)) (set_r AX (word_of_nat (dv div a)) e)))
      else
        (let dv = unat (e_r e AX)
         in if a = 0 then Inl ZeroDivide
            else Inr (set_r AX (word_of_nat ((dv mod a) mod 256 * 256 + (dv div a) mod 256)) e)))"

definition op_imul :: "bool \<Rightarrow> nat \<Rightarrow> 'z emu_scheme \<Rightarrow> 'z emu_scheme" where
  "op_imul w a e =
     (if w then
        (let res = sext (unat (e_r e AX)) 2 * sext a 2
         in set_r DX (word_of_int (res div 65536)) (set_r AX (word_of_int res) e))
      else set_r AX (word_of_int (sext (reg_low (e_r e AX)) 1 * sext a 1)) e)"

definition op_idiv :: "bool \<Rightarrow> nat \<Rightarrow> 'z emu_scheme \<Rightarrow> emu_error + 'z emu_scheme" where
  "op_idiv w a e =
     (if w then
        (let dv = sext (unat (e_r e DX) * 65536 + unat (e_r e AX)) 4; dr = sext a 2
         in if dr = 0 then Inl ZeroDivide
            else (let q = trunc_div dv dr; r = dv - q * dr
                  in Inr (set_r DX (word_of_int r) (set_r AX (word_of_int q) e))))
      else
        (let dv = sext (unat (e_r e AX)) 2; dr = sext a 1
         in if dr = 0 then Inl ZeroDivide
            else (let q = trunc_div dv dr; r = dv - q * dr
                  in Inr (set_r AX (word_of_int (r mod 256 * 256 + q mod 256)) e))))"

definition op_grp3 :: "seg option \<Rightarrow> nat \<Rightarrow> 'z emu_scheme \<Rightarrow> emu_error + 'z emu_scheme" where
  "op_grp3 over opc e =
     (let (rmo, e1) = modrm e; rg = fst (snd rmo); w = odd opc; n = width w;
          a = get_rm w over rmo e1
      in if rg \<in> {0, 1} then (let (imm, e2) = fetch n e1 in Inr (snd (alu Test a imm n e2)))
         else if rg = 2 then Inr (put_rm w over rmo (2 ^ (8 * n) - 1 - a) e1)
         else if rg = 3 then (let (r, e2) = alu Sub 0 a n e1 in Inr (put_rm w over rmo r e2))
         else if rg = 4 then Inr (op_mul w a e1)
         else if rg = 6 then op_div w a e1
         else if rg = 5 then Inr (op_imul w a e1)
         else if rg = 7 then op_idiv w a e1
         else Inl (UnimplMulDiv rg))"

text \<open>String instructions; a repeat prefix counts only for \<open>stosb\<close>.\<close>

definition op_lodsb :: "seg option \<Rightarrow> 'z emu_scheme \<Rightarrow> 'z emu_scheme" where
  "op_lodsb over e =
     (let e1 = s8 0 (rd (eff_seg over DS) (e_r e SI) 1 e) e in set_r SI (e_r e1 SI + 1) e1)"

fun stosb_rounds :: "nat \<Rightarrow> 'z emu_scheme \<Rightarrow> 'z emu_scheme" where
  "stosb_rounds 0 e = e"
| "stosb_rounds (Suc k) e =
     (let e1 = wr ES (e_r e DI) (reg_low (e_r e AX)) 1 e
      in stosb_rounds k (set_r DI (e_r e1 DI + 1) e1))"

definition op_stosb :: "bool \<Rightarrow> 'z emu_scheme \<Rightarrow> 'z emu_scheme" where
  "op_stosb rep e =
     (let e1 = stosb_rounds (if rep then unat (e_r e CX) else 1) e
      in if rep then set_r CX 0 e1 else e1)"

section \<open>Dispatch\<close>

definition ok :: "'z emu_scheme \<Rightarrow> (emu_error + 'z emu_scheme) option" where
  "ok e = Some (Inr e)"

text \<open>The end of \<open>step\<close>: strings, ports, flags.\<close>

definition exec_rest ::
  "(nat \<Rightarrow> nat \<Rightarrow> 'z emu_scheme \<Rightarrow> emu_error + 'z emu_scheme) \<Rightarrow>
   seg option \<Rightarrow> bool \<Rightarrow> nat \<Rightarrow> 'z emu_scheme \<Rightarrow> (emu_error + 'z emu_scheme) option" where
  "exec_rest out over rep opc e =
     (if opc = 0xAC then ok (op_lodsb over e)
      else if opc = 0xAA then ok (op_stosb rep e)
      else if opc = 0xEC then ok (case uart_in (unat (e_r e DX)) e of (v, e1) \<Rightarrow> s8 0 v e1)
      else if opc = 0xEE then Some (out (unat (e_r e DX)) (reg_low (e_r e AX)) e)
      else if opc = 0xF8 then ok (e\<lparr>e_CF := False\<rparr>)
      else if opc = 0xF9 then ok (e\<lparr>e_CF := True\<rparr>)
      else if opc = 0xF5 then ok (e\<lparr>e_CF := \<not> e_CF e\<rparr>)
      else if opc \<in> {0xFA, 0xFB, 0xFC, 0xFD, 0x90} then ok e
      else Some (Inl (UnimplOpcode opc)))"

text \<open>The opcode after the prefixes, in the order of the tests of \<open>step\<close>.\<close>

definition exec ::
  "(nat \<Rightarrow> 'z emu_scheme \<Rightarrow> (emu_error + 'z emu_scheme) option) \<Rightarrow>
   (nat \<Rightarrow> nat \<Rightarrow> 'z emu_scheme \<Rightarrow> emu_error + 'z emu_scheme) \<Rightarrow>
   seg option \<Rightarrow> bool \<Rightarrow> nat \<Rightarrow> 'z emu_scheme \<Rightarrow> (emu_error + 'z emu_scheme) option" where
  "exec intr out over rep opc e =
     (if opc \<in> {0x06, 0x07, 0x0E, 0x16, 0x17, 0x1E, 0x1F} then ok (op_segment opc e)
      else if 0x40 \<le> opc \<and> opc \<le> 0x47 then ok (op_inc (opc - 0x40) e)
      else if 0x48 \<le> opc \<and> opc \<le> 0x4F then ok (op_dec (opc - 0x48) e)
      else if 0x50 \<le> opc \<and> opc \<le> 0x57 then ok (push (g16 (opc - 0x50) e) e)
      else if 0x58 \<le> opc \<and> opc \<le> 0x5F then ok (case pop e of (v, e1) \<Rightarrow> s16 (opc - 0x58) v e1)
      else if 0xB8 \<le> opc \<and> opc \<le> 0xBF then ok (case fetch 2 e of (v, e1) \<Rightarrow> s16 (opc - 0xB8) v e1)
      else if 0xB0 \<le> opc \<and> opc \<le> 0xB7 then ok (case fetch 1 e of (v, e1) \<Rightarrow> s8 (opc - 0xB0) v e1)
      else if opc = 0xE8 then ok (op_call e)
      else if opc = 0xE9 then ok (op_jmp 2 e)
      else if opc = 0xEB then ok (op_jmp 1 e)
      else if opc = 0xC3 then ok (op_ret e)
      else if opc = 0xCD then (case fetch 1 e of (n, e1) \<Rightarrow> intr n e1)
      else if 0x70 \<le> opc \<and> opc \<le> 0x7F then ok (op_jcc opc 1 e)
      else if opc = 0x0F then
        (let (op2, e1) = fetch 1 e
         in if 0x80 \<le> op2 \<and> op2 \<le> 0x8F then ok (op_jcc op2 2 e1) else Some (Inl (UnimplTwoByte op2)))
      else if opc = 0xE3 then ok (op_jcxz e)
      else if opc = 0xE2 then ok (op_loop e)
      else if opc \<in> {0x88, 0x89, 0x8A, 0x8B} then ok (op_mov_rm over opc e)
      else if opc = 0x8E then Some (op_mov_to_sreg over e)
      else if opc = 0x8C then Some (op_mov_from_sreg over e)
      else if opc \<in> {0xA0, 0xA1, 0xA2, 0xA3} then ok (op_moffs over opc e)
      else if opc \<in> {0xC6, 0xC7} then ok (op_mov_imm over opc e)
      else if opc < 0x40 \<and> opc mod 8 < 6 then ok (op_alu over opc e)
      else if opc \<in> {0x84, 0x85, 0xA8, 0xA9} then ok (op_test over opc e)
      else if opc \<in> {0x80, 0x81, 0x83} then ok (op_grp1 over opc e)
      else if opc \<in> {0xFE, 0xFF} then Some (op_grp_fe over opc e)
      else if opc \<in> {0xD0, 0xD1, 0xD2, 0xD3, 0xC0, 0xC1} then Some (op_shift over opc e)
      else if opc \<in> {0xF6, 0xF7} then Some (op_grp3 over opc e)
      else exec_rest out over rep opc e)"

text \<open>The loop over the prefixes: segment overrides and repeats.\<close>

definition prefix_step ::
  "seg option \<times> bool \<times> 'z emu_scheme \<Rightarrow>
     ((seg option \<times> bool \<times> nat \<times> 'z emu_scheme) + (seg option \<times> bool \<times> 'z emu_scheme)) option" where
  "prefix_step s =
     (let (over, rep, e) = s; (opc, e1) = fetch 1 e
      in Some (if opc = 0x26 then Inr (Some ES, rep, e1)
               else if opc = 0x2E then Inr (Some CS, rep, e1)
               else if opc = 0x36 then Inr (Some SS, rep, e1)
               else if opc = 0x3E then Inr (Some DS, rep, e1)
               else if opc \<in> {0xF3, 0xF2} then Inr (over, True, e1)
               else Inl (over, rep, opc, e1)))"

definition emu_step ::
  "(nat \<Rightarrow> 'z emu_scheme \<Rightarrow> (emu_error + 'z emu_scheme) option) \<Rightarrow>
   (nat \<Rightarrow> nat \<Rightarrow> 'z emu_scheme \<Rightarrow> emu_error + 'z emu_scheme) \<Rightarrow>
   'z emu_scheme \<Rightarrow> (emu_error + 'z emu_scheme) option" where
  "emu_step intr out e =
     (case while_true prefix_step (None, False, e) of
        None \<Rightarrow> None
      | Some (over, rep, opc, e1) \<Rightarrow> exec intr out over rep opc e1)"

section \<open>Running a program\<close>

text \<open>\<open>Emu.__init__\<close>: the program at offset 0x100 of its segment, the command tail in the PSP.\<close>

definition emu_tail :: "byte list" where
  "emu_tail = map of_char '' 1 5'' @ [0x0D]"

definition emu_seg :: "16 word" where
  "emu_seg = 0x1000"

definition emu_init :: "byte list \<Rightarrow> emu" where
  "emu_init com =
     (let blank = \<lparr>e_mem = (\<lambda>_. 0), e_memlen = 0x100000, e_r = (\<lambda>_. 0), e_sreg = (\<lambda>_. emu_seg), e_ip = 0x100,
            e_CF = False, e_ZF = False, e_SF = False, e_OF = False, e_PF = False,
            e_halt = False, e_exitcode = None, e_rx = [], e_tx = [], e_console = [],
            e_cmd_bytes = [], e_lcr = 0, e_frame = [], e_data_count = 0, e_eot_seen = False\<rparr>;
          p = unat emu_seg * 16
      in mem_store (p + 0x81) emu_tail
           (mem_store (p + 0x80) [word_of_nat (length emu_tail)]
             (mem_store (p + 0x100) com blank)))"

text \<open>
  The loop of \<open>run\<close>, with the steps that are left: an exception ends it where it occurs, with
  the state before the instruction.
\<close>

fun run_loop ::
  "(nat \<Rightarrow> 'z emu_scheme \<Rightarrow> (emu_error + 'z emu_scheme) option) \<Rightarrow>
   (nat \<Rightarrow> nat \<Rightarrow> 'z emu_scheme \<Rightarrow> emu_error + 'z emu_scheme) \<Rightarrow>
   nat \<Rightarrow> 'z emu_scheme \<Rightarrow> (emu_error option \<times> 'z emu_scheme) option" where
  "run_loop intr out 0 e = Some (None, e)"
| "run_loop intr out (Suc n) e =
     (if e_halt e then Some (None, e)
      else (case emu_step intr out e of
              None \<Rightarrow> None
            | Some (Inl err) \<Rightarrow> Some (Some err, e)
            | Some (Inr e') \<Rightarrow> run_loop intr out n e'))"

definition emu_run ::
  "(nat \<Rightarrow> 'z emu_scheme \<Rightarrow> (emu_error + 'z emu_scheme) option) \<Rightarrow>
   (nat \<Rightarrow> nat \<Rightarrow> 'z emu_scheme \<Rightarrow> emu_error + 'z emu_scheme) \<Rightarrow>
   byte list \<Rightarrow> nat \<Rightarrow> 'z emu_scheme \<Rightarrow> (emu_error option \<times> 'z emu_scheme) option" where
  "emu_run intr out worklist maxsteps e =
     run_loop intr out maxsteps (e\<lparr>e_cmd_bytes := worklist\<rparr>)"

end
