(* ===== verification/EmuHarness.thy ===== *)
theory EmuHarness
  imports EmuStep Verify
begin

text \<open>
  The test harness of \<open>tools/emu8086.py\<close>: the frames of its simulated host, the disks and
  hosts it puts behind the emulator in the read and in the write direction, and its two
  self-tests, as functions of the program under test.
\<close>

section \<open>Frames of the simulated host\<close>

definition emu_crc_bit :: "nat \<Rightarrow> nat" where
  "emu_crc_bit c =
     (if c AND 0x8000 \<noteq> 0 then (push_bit 1 c XOR 0x1021) AND 0xFFFF else push_bit 1 c AND 0xFFFF)"

definition emu_crc16 :: "byte list \<Rightarrow> nat" where
  "emu_crc16 data = foldl (\<lambda>c b. (emu_crc_bit ^^ 8) (c XOR push_bit 8 (unat b))) 0xFFFF data"

fun emu_ranges :: "(nat \<times> nat) list \<Rightarrow> byte list option" where
  "emu_ranges [] = Some []"
| "emu_ranges ((a, b) # rest) =
     (case (to_bytes_le 4 a, to_bytes_le 4 b, emu_ranges rest) of
        (Some x, Some y, Some z) \<Rightarrow> Some ((x @ y) @ z)
      | _ \<Rightarrow> None)"

text \<open>\<open>None\<close>: a number does not fit its field (\<open>OverflowError\<close>).\<close>

definition cmd_frame :: "(nat \<times> nat) list \<Rightarrow> byte list option" where
  "cmd_frame ranges =
     (case (to_bytes_le 2 (length ranges), emu_ranges ranges) of
        (Some n, Some rest) \<Rightarrow>
          (let body = [0x43] @ (n @ rest) in Some ([0x01] @ body @ le_bytes 2 (emu_crc16 body)))
      | _ \<Rightarrow> None)"

definition host_data_frame :: "nat \<Rightarrow> byte list \<Rightarrow> byte list option" where
  "host_data_frame lba payload =
     (case to_bytes_le 4 lba of
        None \<Rightarrow> None
      | Some a \<Rightarrow>
          (let body = [0x44] @ a @ [0] @ payload in Some ([0x01] @ body @ le_bytes 2 (emu_crc16 body))))"

section \<open>The read direction\<close>

text \<open>Cylinder, sector and head of a disk request, as the handlers take them from CX and DX.\<close>

definition int13_chs :: "'z emu_scheme \<Rightarrow> nat \<times> nat \<times> nat" where
  "int13_chs e = (reg_high (e_r e CX), unat (e_r e CX AND 0x3F), reg_high (e_r e DX))"

text \<open>The \<open>do_int\<close> of \<open>_make\<close>: geometry, and a sector that cannot be read.\<close>

definition make_int ::
  "16 word \<times> 16 word \<times> 16 word \<Rightarrow> (nat \<times> nat \<times> nat) option \<Rightarrow> nat \<Rightarrow> 'z emu_scheme \<Rightarrow>
     (emu_error + 'z emu_scheme) option" where
  "make_int geom bad_chs n e =
     (let (c, h, s) = geom; ah = reg_high (e_r e AX)
      in if n = 0x13 \<and> ah = 0x08 then
           ok ((set_r DX (push_bit 8 ((h - 1) AND 0xFF) OR 0x80)
                 (set_r CX (geom_cx (c - 1) s) e))\<lparr>e_CF := False\<rparr>)
         else if n = 0x13 \<and> ah = 0x02 \<and> bad_chs = Some (int13_chs e) then
           ok (set_r AX (push_bit 8 0x04 OR (e_r e AX AND 0xFF)) (e\<lparr>e_CF := True\<rparr>))
         else do_int n e)"

text \<open>\<open>_imaged_lbas\<close>: the sector numbers of the \<open>DATA\<close> frames in what was sent.\<close>

function imaged_from :: "byte list \<Rightarrow> nat \<Rightarrow> nat list" where
  "imaged_from tx i =
     (if i < length tx then
        (if tx ! i = 0x01 \<and> i + 1 < length tx then
           (let t = tx ! (i + 1)
            in if t = 0x44 \<and> i + 6 \<le> length tx
               then from_bytes_le (py_slice (i + 2) (i + 6) tx) # imaged_from tx (i + 521)
               else if t = 0x49 then imaged_from tx (i + 16)
               else if t = 0x45 then imaged_from tx (i + 12)
               else imaged_from tx (i + 1))
         else imaged_from tx (i + 1))
      else [])"
  by pat_completeness auto
termination
  by (relation "measure (\<lambda>(tx, i). length tx - i)") auto

declare imaged_from.simps [simp del]

definition imaged_lbas :: "byte list \<Rightarrow> nat list" where
  "imaged_lbas tx = imaged_from tx 0"

fun occurs_in :: "'a list \<Rightarrow> 'a list \<Rightarrow> bool" where
  "occurs_in pat [] = (pat = [])"
| "occurs_in pat (x # xs) = (take (length pat) (x # xs) = pat \<or> occurs_in pat xs)"

definition done_text :: "byte list" where
  "done_text = map of_char ''Done.''"

text \<open>One case of \<open>self_test\<close>; \<open>None\<close> if it does not come to a verdict.\<close>

definition self_case :: "byte list \<Rightarrow> nat \<Rightarrow> (nat \<times> nat) list \<Rightarrow> nat list \<Rightarrow> bool option" where
  "self_case com steps wl expect =
     (case cmd_frame wl of
        None \<Rightarrow> None
      | Some cmd \<Rightarrow>
          (case emu_run (make_int (2, 1, 4) None) uart_out cmd steps (emu_init com) of
             None \<Rightarrow> None
           | Some (_, e) \<Rightarrow>
               Some (e_halt e \<and> occurs_in done_text (e_console e) \<and> imaged_lbas (e_tx e) = expect)))"

definition self_test :: "byte list \<Rightarrow> nat \<Rightarrow> bool option list" where
  "self_test com steps =
     map (\<lambda>(wl, expect). self_case com steps wl expect)
       [([(0, 8)], [0..<8]), ([(4, 6)], [4, 5]), ([(1, 2), (4, 5), (6, 7)], [1, 4, 6])]"

section \<open>The write direction\<close>

text \<open>The variables of \<open>_run_writer\<close> (\<open>st\<close>) and the list of writes.\<close>

record writer_emu = emu +
  w_frame :: "byte list"
  w_idx :: int
  w_eot :: "(nat \<times> nat) option"
  w_dropped :: bool
  w_acks :: nat
  w_writes :: "(nat \<times> nat \<times> nat) list"

text \<open>Python's list index, negative ones from the end.\<close>

definition py_index :: "'a list \<Rightarrow> int \<Rightarrow> 'a option" where
  "py_index xs i =
     (let k = (if i < 0 then i + int (length xs) else i)
      in if 0 \<le> k \<and> k < int (length xs) then Some (xs ! nat k) else None)"

definition feed_next :: "byte list list \<Rightarrow> writer_emu \<Rightarrow> writer_emu" where
  "feed_next frames e =
     (let e1 = e\<lparr>w_idx := w_idx e + 1\<rparr>
      in if w_idx e1 < int (length frames)
         then e1\<lparr>e_rx := e_rx e1 @ (case py_index frames (w_idx e1) of Some f \<Rightarrow> f | None \<Rightarrow> [])\<rparr>
         else e1)"

definition feed_again :: "byte list list \<Rightarrow> writer_emu \<Rightarrow> emu_error + writer_emu" where
  "feed_again frames e =
     (case py_index frames (w_idx e) of
        None \<Rightarrow> Inl (ListIndex (w_idx e))
      | Some f \<Rightarrow> Inr (e\<lparr>e_rx := e_rx e @ f\<rparr>))"

definition writer_int :: "(nat \<times> nat \<times> nat) option \<Rightarrow> nat \<Rightarrow> writer_emu \<Rightarrow> (emu_error + writer_emu) option" where
  "writer_int bad_chs n e =
     (let ah = reg_high (e_r e AX)
      in if n = 0x13 \<and> ah = 0x08 then
           ok ((set_r DX 0x0080 (set_r CX (geom_cx 1 4) e))\<lparr>e_CF := False\<rparr>)
         else if n = 0x13 \<and> ah = 0x03 then
           (if bad_chs = Some (int13_chs e)
            then ok (set_r AX (push_bit 8 0x0A OR (e_r e AX AND 0xFF)) (e\<lparr>e_CF := True\<rparr>))
            else ok (set_r AX (e_r e AX AND 0xFF)
                   (e\<lparr>w_writes := w_writes e @ [int13_chs e], e_CF := False\<rparr>)))
         else if n = 0x13 \<and> ah = 0x00 then ok (e\<lparr>e_CF := False\<rparr>)
         else if n = 0x16 \<and> ah = 0x00 then ok (set_r AX (push_bit 8 0x15 OR 0x59) e)
         else if n = 0x16 then ok (e\<lparr>e_ZF := True\<rparr>)
         else do_int n e)"

text \<open>
  A byte the program sends: part of an \<open>INFO\<close> or \<open>EOT\<close> frame once one has begun, otherwise
  the start of one, or an answer to the last \<open>DATA\<close> frame. \<open>drop\<close> is the frame whose first
  acknowledgement is treated as lost.
\<close>

definition writer_frame_done ::
  "byte list \<Rightarrow> byte list list \<Rightarrow> byte list \<Rightarrow> writer_emu \<Rightarrow> writer_emu" where
  "writer_frame_done cmd frames fr e =
     (let e1 = (if fr ! 1 = 0x49 then feed_next frames (e\<lparr>e_rx := e_rx e @ cmd, w_idx := -1\<rparr>)
                else e\<lparr>w_eot := Some (from_bytes_le (py_slice 2 6 fr), from_bytes_le (py_slice 6 10 fr)),
                       e_rx := e_rx e @ [0x06]\<rparr>)
      in e1\<lparr>w_frame := []\<rparr>)"

definition writer_need :: "byte list \<Rightarrow> nat option" where
  "writer_need fr =
     (if length fr > 1 then (if fr ! 1 = 0x49 then Some 16 else if fr ! 1 = 0x45 then Some 12 else None)
      else None)"

definition writer_byte ::
  "byte list \<Rightarrow> byte list list \<Rightarrow> int option \<Rightarrow> byte \<Rightarrow> writer_emu \<Rightarrow> emu_error + writer_emu" where
  "writer_byte cmd frames drop_at b e =
     (let e1 = e\<lparr>e_tx := e_tx e @ [b]\<rparr>
      in if w_frame e1 \<noteq> [] then
           (let fr = w_frame e1 @ [b]; e2 = e1\<lparr>w_frame := fr\<rparr>
            in case writer_need fr of
                 None \<Rightarrow> Inr e2
               | Some need \<Rightarrow>
                   if need \<le> length fr then Inr (writer_frame_done cmd frames fr e2) else Inr e2)
         else if b = 0x01 then Inr (e1\<lparr>w_frame := [0x01]\<rparr>)
         else if b = 0x06 then
           (let e2 = e1\<lparr>w_acks := w_acks e1 + 1\<rparr>
            in if drop_at = Some (w_idx e2) \<and> \<not> w_dropped e2
               then feed_again frames (e2\<lparr>w_dropped := True\<rparr>)
               else Inr (feed_next frames e2))
         else if b = 0x15 then feed_again frames e1
         else Inr e1)"

definition writer_out ::
  "byte list \<Rightarrow> byte list list \<Rightarrow> int option \<Rightarrow> nat \<Rightarrow> nat \<Rightarrow> writer_emu \<Rightarrow> emu_error + writer_emu" where
  "writer_out cmd frames drop_at port val e =
     (if port = 0x3F8 + 3 then Inr (e\<lparr>e_lcr := val mod 256\<rparr>)
      else if bit (e_lcr e) 7 \<or> port = 0x3F8 + 1 \<or> port \<noteq> 0x3F8 then Inr e
      else writer_byte cmd frames drop_at (word_of_nat val) e)"

text \<open>The sectors to write, filled with a pattern that tells them apart.\<close>

definition pattern_sector :: "nat \<Rightarrow> byte list" where
  "pattern_sector l = map (\<lambda>i. word_of_nat ((l * 7 + i) mod 256)) [0..<512]"

definition writer_frames :: "(nat \<times> nat) list \<Rightarrow> byte list list option" where
  "writer_frames worklist =
     those (map (\<lambda>l. host_data_frame l (pattern_sector l)) (concat (map (\<lambda>(a, b). [a..<b]) worklist)))"

definition writer_init :: "byte list \<Rightarrow> writer_emu" where
  "writer_init com =
     emu.extend (emu_init com)
       \<lparr>w_frame = [], w_idx = -1, w_eot = None, w_dropped = False, w_acks = 0, w_writes = []\<rparr>"

definition run_writer ::
  "byte list \<Rightarrow> (nat \<times> nat) list \<Rightarrow> (nat \<times> nat \<times> nat) option \<Rightarrow> int option \<Rightarrow> nat \<Rightarrow> writer_emu option" where
  "run_writer com worklist bad_chs drop_at steps =
     (case (writer_frames worklist, cmd_frame worklist) of
        (Some frames, Some cmd) \<Rightarrow>
          map_option snd
            (emu_run (writer_int bad_chs) (writer_out cmd frames drop_at) [] steps (writer_init com))
      | _ \<Rightarrow> None)"

text \<open>One case of \<open>write_self_test\<close>.\<close>

definition write_case ::
  "byte list \<Rightarrow> nat \<Rightarrow> (nat \<times> nat) list \<Rightarrow> (nat \<times> nat \<times> nat) option \<Rightarrow> int option \<Rightarrow> nat \<times> nat \<Rightarrow> nat \<Rightarrow>
     bool option" where
  "write_case com steps worklist bad_chs drop_at want_eot want_unique =
     map_option (\<lambda>e. occurs_in done_text (e_console e) \<and> w_eot e = Some want_eot \<and>
         length (remdups (w_writes e)) = want_unique)
       (run_writer com worklist bad_chs drop_at steps)"

definition write_self_test :: "byte list \<Rightarrow> nat \<Rightarrow> bool option list" where
  "write_self_test com steps =
     [write_case com steps [(0, 8)] None None (8, 0) 8,
      write_case com steps [(0, 8)] (Some (1, 2, 0)) None (7, 1) 7,
      write_case com steps [(1, 2), (4, 6)] None None (3, 0) 3,
      write_case com steps [(0, 8)] None (Some 0) (8, 0) 8,
      write_case com steps [(0, 8)] None (Some 3) (8, 0) 8]"

section \<open>The command line\<close>

text \<open>
  \<open>main\<close>: the exit status for the binary and the two options; \<open>None\<close> if a run does not return.
\<close>

definition emu_main :: "byte list \<Rightarrow> bool \<Rightarrow> nat option \<Rightarrow> nat option" where
  "emu_main com write_dir steps =
     (let n = (case steps of None \<Rightarrow> 3000000 | Some k \<Rightarrow> k);
          cases = (if write_dir then write_self_test com n else self_test com n)
      in if None \<in> set cases then None
         else if list_all (\<lambda>ok. ok = Some True) cases then Some 0 else Some 1)"

end
