(* ===== verification/EmuProps.thy ===== *)
theory EmuProps
  imports EmuHarness Session
begin

text \<open>
  What the emulator and its harness get right: arithmetic, flags and conditional jumps,
  multiplication and division, stack and calls, the frames of the simulated host, and the
  reading of what a sender sent; and where its flags depart from an 8086.
\<close>

section \<open>Arithmetic\<close>

lemma alu_flags:
  assumes "alu p a b n e = (r, e')"
  shows "e_ZF e' \<longleftrightarrow> r = 0" "e_SF e' \<longleftrightarrow> bit r (8 * n - 1)"
    "r < 2 ^ (8 * n)" "e_OF e' \<longleftrightarrow> e_OF e \<and> p \<in> {Add, Adc, Sub, Sbb, Cmp}"
proof -
  obtain x :: int where r: "r = nat (x mod 2 ^ (8 * n))"
    using assms by (auto simp: alu_def Let_def)
  have "x mod 2 ^ (8 * n) < 2 ^ (8 * n)" by (rule pos_mod_bound) simp
  then show lt: "r < 2 ^ (8 * n)" by (simp add: r nat_less_iff)
  obtain e1 where e1: "e' = setzsp r n e1" "e_OF e1 \<longleftrightarrow> e_OF e \<and> p \<in> {Add, Adc, Sub, Sbb, Cmp}"
    using assms by (cases "p \<in> {Add, Adc, Sub, Sbb, Cmp}") (auto simp: alu_def Let_def)
  with lt show "e_ZF e' \<longleftrightarrow> r = 0" "e_SF e' \<longleftrightarrow> bit r (8 * n - 1)"
    "e_OF e' \<longleftrightarrow> e_OF e \<and> p \<in> {Add, Adc, Sub, Sbb, Cmp}"
    by (simp_all add: setzsp_def Let_def)
qed

lemma alu_sub:
  assumes "a < 2 ^ (8 * n)" "b < 2 ^ (8 * n)" "p = Sub \<or> p = Cmp"
  shows "int (fst (alu p a b n e)) = (int a - int b) mod 2 ^ (8 * n)"
    and "e_CF (snd (alu p a b n e)) \<longleftrightarrow> a < b"
proof -
  have "int a < 2 ^ (8 * n)" using assms(1) by (metis of_nat_less_iff of_nat_numeral of_nat_power)
  then have "\<not> 2 ^ (8 * n) - 1 < int a - int b" by linarith
  then show "e_CF (snd (alu p a b n e)) \<longleftrightarrow> a < b"
    using assms(3) by (auto simp: alu_def Let_def setzsp_def)
  show "int (fst (alu p a b n e)) = (int a - int b) mod 2 ^ (8 * n)"
    using assms(3) by (auto simp: alu_def Let_def)
qed

lemma alu_cmp_zero:
  assumes "a < 2 ^ (8 * n)" "b < 2 ^ (8 * n)"
  shows "e_ZF (snd (alu Cmp a b n e)) \<longleftrightarrow> a = b"
proof -
  obtain r e' where r: "alu Cmp a b n e = (r, e')" by (cases "alu Cmp a b n e")
  have ab: "int a < 2 ^ (8 * n)" "int b < 2 ^ (8 * n)" using assms by (metis of_nat_less_iff of_nat_numeral of_nat_power)+
  have "int r = (int a - int b) mod 2 ^ (8 * n)" using alu_sub(1) [OF assms, of Cmp e] r by simp
  then have "r = 0 \<longleftrightarrow> (int a - int b) mod 2 ^ (8 * n) = 0" by (metis of_nat_0_eq_iff)
  also have "\<dots> \<longleftrightarrow> int a mod 2 ^ (8 * n) = int b mod 2 ^ (8 * n)"
    by (metis mod_0_imp_dvd mod_eq_dvd_iff mod_eq_0_iff_dvd)
  also have "\<dots> \<longleftrightarrow> a = b" using ab by simp
  finally show ?thesis using alu_flags(1) [OF r] r by simp
qed

lemma jcccond_nth:
  "jcccond 0x72 e = e_CF e" "jcccond 0x73 e = (\<not> e_CF e)" "jcccond 0x74 e = e_ZF e"
  "jcccond 0x75 e = (\<not> e_ZF e)" "jcccond 0x76 e = (e_CF e \<or> e_ZF e)"
  "jcccond 0x77 e = (\<not> (e_CF e \<or> e_ZF e))" "jcccond 0x7C e = (e_SF e \<noteq> e_OF e)"
  by (simp_all add: jcccond_def Let_def)

text \<open>Thirty-two bits in two steps.\<close>

lemma alu_add_carry:
  assumes "a < 65536" "b < 65536" "p = Add \<and> c = 0 \<or> p = Adc \<and> c = of_bool (e_CF e)"
  shows "fst (alu p a b 2 e) = (a + b + c) mod 65536"
    and "e_CF (snd (alu p a b 2 e)) \<longleftrightarrow> 65536 \<le> a + b + c"
proof -
  have "nat ((int a + int b + int c) mod 65536) = (a + b + c) mod 65536"
    by (metis nat_int nat_mod_as_int of_nat_add of_nat_numeral)
  then show "fst (alu p a b 2 e) = (a + b + c) mod 65536"
    using assms(3) by (auto simp: alu_def Let_def)
  show "e_CF (snd (alu p a b 2 e)) \<longleftrightarrow> 65536 \<le> a + b + c"
    using assms(3) by (auto simp: alu_def Let_def setzsp_def)
qed

lemma mod_wrap: "x mod 65536 = (if x < 0 then 65536 + x else x)" if "- 65536 \<le> x" "x < 65536" for x :: int
proof (cases "x < 0")
  case True
  have "x mod 65536 = (x + 65536) mod 65536" by simp
  also have "\<dots> = x + 65536" using True that by (intro mod_pos_pos_trivial) auto
  finally show ?thesis using True by simp
qed (use that in simp)

lemma alu_sub_borrow:
  assumes "a < 65536" "b < 65536" "p = Sub \<and> c = 0 \<or> p = Sbb \<and> c = of_bool (e_CF e)"
  shows "fst (alu p a b 2 e) = (if a < b + c then 65536 + a - (b + c) else a - (b + c))"
    and "e_CF (snd (alu p a b 2 e)) \<longleftrightarrow> a < b + c"
proof -
  have c: "c \<le> 1" using assms(3) by auto
  have "fst (alu p a b 2 e) = nat ((int a - int b - int c) mod 65536)"
    using assms(3) by (auto simp: alu_def Let_def)
  also have "(int a - int b - int c) mod 65536 =
      (if a < b + c then 65536 + (int a - int b - int c) else int a - int b - int c)"
    using assms(1,2) c by (simp add: mod_wrap)
  finally show "fst (alu p a b 2 e) = (if a < b + c then 65536 + a - (b + c) else a - (b + c))"
    using assms(1,2) c by (auto simp: nat_eq_iff)
  show "e_CF (snd (alu p a b 2 e)) \<longleftrightarrow> a < b + c"
    using assms by (auto simp: alu_def Let_def setzsp_def)
qed

text \<open>A sum that wraps at most once.\<close>

lemma mod_once: "x mod m = (if x < m then x else x - m)" if "x < 2 * m" for x m :: nat
  using that by (auto simp: mod_if)

lemma wide_add:
  assumes "a < 2 ^ 32" "b < 2 ^ 32"
    and lo: "alu Add (a mod 65536) (b mod 65536) 2 e = (lo, e1)"
    and hi: "alu Adc (a div 65536) (b div 65536) 2 e1 = (hi, e2)"
  shows "hi * 65536 + lo = (a + b) mod 2 ^ 32" "e_CF e2 = (2 ^ 32 \<le> a + b)"
proof -
  define a0 a1 b0 b1 where "a0 = a mod 65536" and "a1 = a div 65536" and "b0 = b mod 65536" and "b1 = b div 65536"
  have parts: "a = a1 * 65536 + a0" "b = b1 * 65536 + b0" "a0 < 65536" "b0 < 65536" "a1 < 65536" "b1 < 65536"
    using assms(1,2) by (simp_all add: a0_def a1_def b0_def b1_def less_mult_imp_div_less)
  have l: "lo = (a0 + b0) mod 65536" "e_CF e1 = (65536 \<le> a0 + b0)"
    using alu_add_carry [OF parts(3,4), of Add 0 e] lo by (simp_all add: a0_def b0_def)
  define c :: nat where "c = of_bool (65536 \<le> a0 + b0)"
  have h: "hi = (a1 + b1 + c) mod 65536" "e_CF e2 = (65536 \<le> a1 + b1 + c)"
    using alu_add_carry [OF parts(5,6), of Adc c e1] hi l(2) by (simp_all add: a1_def b1_def c_def)
  have small: "a0 + b0 < 2 * 65536" "a1 + b1 + c < 2 * 65536" "a + b < 2 * 2 ^ 32"
    using parts by (auto simp: c_def)
  show "hi * 65536 + lo = (a + b) mod 2 ^ 32"
    unfolding l(1) h(1) mod_once [OF small(1)] mod_once [OF small(2)] mod_once [OF small(3)]
    unfolding c_def using parts by auto
  show "e_CF e2 = (2 ^ 32 \<le> a + b)"
    unfolding h(2) c_def using parts by auto
qed

lemma wide_sub:
  assumes "a < 2 ^ 32" "b < 2 ^ 32"
    and lo: "alu Sub (a mod 65536) (b mod 65536) 2 e = (lo, e1)"
    and hi: "alu Sbb (a div 65536) (b div 65536) 2 e1 = (hi, e2)"
  shows "hi * 65536 + lo = (if a < b then 2 ^ 32 + a - b else a - b)" "e_CF e2 = (a < b)"
proof -
  define a0 a1 b0 b1 where "a0 = a mod 65536" and "a1 = a div 65536" and "b0 = b mod 65536" and "b1 = b div 65536"
  have parts: "a = a1 * 65536 + a0" "b = b1 * 65536 + b0" "a0 < 65536" "b0 < 65536" "a1 < 65536" "b1 < 65536"
    using assms(1,2) by (simp_all add: a0_def a1_def b0_def b1_def less_mult_imp_div_less)
  have l: "lo = (if a0 < b0 then 65536 + a0 - b0 else a0 - b0)" "e_CF e1 = (a0 < b0)"
    using alu_sub_borrow [OF parts(3,4), of Sub 0 e] lo by (simp_all add: a0_def b0_def)
  define c :: nat where "c = of_bool (a0 < b0)"
  have h: "hi = (if a1 < b1 + c then 65536 + a1 - (b1 + c) else a1 - (b1 + c))" "e_CF e2 = (a1 < b1 + c)"
    using alu_sub_borrow [OF parts(5,6), of Sbb c e1] hi l(2) by (simp_all add: a1_def b1_def c_def)
  show "hi * 65536 + lo = (if a < b then 2 ^ 32 + a - b else a - b)"
    unfolding l(1) h(1) c_def using parts by auto
  show "e_CF e2 = (a < b)"
    unfolding h(2) c_def using parts by auto
qed

section \<open>Multiplication and division\<close>

lemma set_r_simps [simp]:
  "e_r (set_r r v e) r' = (if r' = r then v else e_r e r')"
  "e_sreg (set_r r v e) = e_sreg e" "e_mem (set_r r v e) = e_mem e" "e_memlen (set_r r v e) = e_memlen e"
  "e_ip (set_r r v e) = e_ip e"
  by (simp_all add: set_r_def)

lemma op_div_cases:
  fixes e :: "'z emu_scheme"
  assumes "a < 65536"
  defines "dv \<equiv> unat (e_r e DX) * 65536 + unat (e_r e AX)"
  shows "case op_div True a e of
      Inr e' \<Rightarrow> dv = unat (e_r e' AX) * a + unat (e_r e' DX) \<and> unat (e_r e' DX) < a
    | Inl DivZero \<Rightarrow> a = 0
    | Inl err \<Rightarrow> err = DivOverflow \<and> 0 < a \<and> 65536 * a \<le> dv"
proof (cases "a = 0 \<or> 65535 < dv div a")
  case True
  have "65536 * a \<le> dv" if "65535 < dv div a" "0 < a"
  proof -
    have "65536 \<le> dv div a" using that(1) by simp
    then have "65536 * a \<le> dv div a * a" by (rule mult_le_mono1)
    also have "\<dots> \<le> dv" by (rule div_times_less_eq_dividend)
    finally show ?thesis .
  qed
  with True show ?thesis by (auto simp: op_div_def dv_def Let_def)
next
  case False
  then have q: "dv div a < 65536" "0 < a" by auto
  then have m: "dv mod a < 65536" using assms(1) mod_less_divisor [of a dv] by linarith
  have "unat (word_of_nat (dv div a) :: 16 word) = dv div a"
    "unat (word_of_nat (dv mod a) :: 16 word) = dv mod a"
    using q(1) m by (simp_all add: unat_of_nat take_bit_nat_eq_self)
  then show ?thesis
    using False q(2) by (simp add: op_div_def dv_def [symmetric] Let_def div_mult_mod_eq)
qed

lemma op_mul_product:
  assumes "a < 65536"
  shows "unat (e_r (op_mul True a e) DX) * 65536 + unat (e_r (op_mul True a e) AX) = unat (e_r e AX) * a"
proof -
  define p where "p = unat (e_r e AX) * a"
  have "unat (e_r e AX) < 65536" using unsigned_less [of "e_r e AX", where 'a = nat] by simp
  then have "p < 65536 * 65536" unfolding p_def using assms by (intro mult_strict_mono') auto
  then have "p div 65536 < 65536" by (simp add: less_mult_imp_div_less)
  then have "unat (word_of_nat (p div 65536) :: 16 word) = p div 65536"
    "unat (word_of_nat p :: 16 word) = p mod 65536"
    by (simp_all add: unat_of_nat take_bit_eq_mod)
  then show ?thesis
    unfolding op_mul_def Let_def p_def [symmetric] by (simp add: div_mult_mod_eq)
qed

section \<open>The overflow flag\<close>

text \<open>What leaves the overflow flag alone.\<close>

lemma OF_simps [simp]:
  "e_OF (set_r r v e) = e_OF e" "e_OF (set_sreg s v e) = e_OF e" "e_OF (s16 i k e) = e_OF e"
  "e_OF (s8 i k e) = e_OF e" "e_OF (mem_store a bs e) = e_OF e" "e_OF (wr s off k n e) = e_OF e"
  "e_OF (push k e) = e_OF e" "e_OF (snd (pop e)) = e_OF e" "e_OF (setzsp k n e) = e_OF e"
  "e_OF (snd (fetch n e)) = e_OF e" "e_OF (jump_by d e) = e_OF e"
  "e_OF (s_reg w i k e) = e_OF e" "e_OF (put_rm w over rmo k e) = e_OF e"
  by (simp_all add: set_r_def set_sreg_def s16_def s8_def mem_store_def wr_def push_def pop_def
      setzsp_def fetch_def jump_by_def s_reg_def put_rm_def Let_def split: prod.split option.split)

lemma OF_modrm [simp]: "e_OF (snd (modrm e)) = e_OF e"
  by (simp add: modrm_def Let_def case_prod_unfold)

lemma OF_alu [simp]: "\<not> e_OF e \<Longrightarrow> \<not> e_OF (snd (alu p a b n e))"
  using alu_flags(4) [of p a b n e] by (metis prod.collapse)

lemma OF_ops [simp]:
  "e_OF (op_segment opc e) = e_OF e" "e_OF (op_inc i e) = e_OF e" "e_OF (op_dec i e) = e_OF e"
  "e_OF (op_call e) = e_OF e" "e_OF (op_jmp n e) = e_OF e" "e_OF (op_ret e) = e_OF e"
  "e_OF (op_jcc opc n e) = e_OF e" "e_OF (op_jcxz e) = e_OF e" "e_OF (op_loop e) = e_OF e"
  "e_OF (op_mov_rm over opc e) = e_OF e" "e_OF (op_moffs over opc e) = e_OF e"
  "e_OF (op_mov_imm over opc e) = e_OF e" "e_OF (op_lodsb over e) = e_OF e"
  "e_OF (op_mul w a e) = e_OF e" "e_OF (op_imul w a e) = e_OF e"
  by (simp_all add: op_segment_def op_inc_def op_dec_def op_call_def op_jmp_def op_ret_def op_jcc_def
      op_jcxz_def op_loop_def op_mov_rm_def op_moffs_def op_mov_imm_def op_lodsb_def op_mul_def
      op_imul_def Let_def case_prod_unfold)

lemma OF_stosb [simp]: "e_OF (op_stosb rep e) = e_OF e"
proof -
  have "e_OF (stosb_rounds k e) = e_OF e" for k
    by (induction k arbitrary: e) (simp_all add: Let_def)
  then show ?thesis by (simp add: op_stosb_def Let_def)
qed

lemma OF_uart_in [simp]: "e_OF (snd (uart_in port e)) = e_OF e"
  by (simp add: uart_in_def split: list.split)

lemma OF_alu_ops:
  assumes "\<not> e_OF e"
  shows "\<not> e_OF (op_alu over opc e)" "\<not> e_OF (op_test over opc e)" "\<not> e_OF (op_grp1 over opc e)"
  using assms
  by (simp_all add: op_alu_def op_test_def op_grp1_def Let_def case_prod_unfold)

lemma OF_sum_ops:
  assumes "\<not> e_OF e"
  shows "op_mov_to_sreg over e = Inr e' \<Longrightarrow> \<not> e_OF e'" "op_mov_from_sreg over e = Inr e' \<Longrightarrow> \<not> e_OF e'"
    "op_grp_fe over opc e = Inr e' \<Longrightarrow> \<not> e_OF e'" "op_shift over opc e = Inr e' \<Longrightarrow> \<not> e_OF e'"
    "op_div w a e = Inr e' \<Longrightarrow> \<not> e_OF e'" "op_idiv w a e = Inr e' \<Longrightarrow> \<not> e_OF e'"
  using assms
  by (auto simp: op_mov_to_sreg_def op_mov_from_sreg_def op_grp_fe_def op_shift_def op_div_def op_idiv_def
      Let_def case_prod_unfold split: option.splits if_splits sum.splits)

lemma OF_grp3:
  assumes "\<not> e_OF e" "op_grp3 over opc e = Inr e'"
  shows "\<not> e_OF e'"
proof -
  have m: "\<not> e_OF (snd (modrm e))" using assms(1) by simp
  show ?thesis
    using assms m OF_sum_ops(5,6) [OF m]
    by (auto simp: op_grp3_def Let_def case_prod_unfold split: if_splits)
qed

text \<open>Services and ports that keep it clear.\<close>

definition OF_safe ::
  "(nat \<Rightarrow> 'z emu_scheme \<Rightarrow> (emu_error + 'z emu_scheme) option) \<Rightarrow>
   (nat \<Rightarrow> nat \<Rightarrow> 'z emu_scheme \<Rightarrow> emu_error + 'z emu_scheme) \<Rightarrow> bool" where
  "OF_safe intr out \<longleftrightarrow>
     (\<forall>n e e'. \<not> e_OF e \<longrightarrow> intr n e = Some (Inr e') \<longrightarrow> \<not> e_OF e') \<and>
     (\<forall>p v e e'. \<not> e_OF e \<longrightarrow> out p v e = Inr e' \<longrightarrow> \<not> e_OF e')"

lemma OF_do_int: "do_int n e = Some (Inr e') \<Longrightarrow> e_OF e' = e_OF e"
  by (auto simp: do_int_def Let_def split: option.splits if_splits)

lemma OF_thr_write [simp]: "e_OF (thr_write b e) = e_OF e"
  by (simp add: thr_write_def frame_done_def Let_def split: option.split)

lemma OF_safe_default: "OF_safe do_int uart_out"
  by (auto simp: OF_safe_def uart_out_def OF_do_int split: if_splits)

lemma OF_safe_make: "OF_safe (make_int geom bad) uart_out"
  by (auto simp: OF_safe_def uart_out_def make_int_def ok_def OF_do_int Let_def case_prod_unfold split: if_splits)

definition OF_clear :: "(emu_error + 'z emu_scheme) option \<Rightarrow> bool" where
  "OF_clear r \<longleftrightarrow> (\<forall>e'. r = Some (Inr e') \<longrightarrow> \<not> e_OF e')"

lemma OF_clear_intros:
  "OF_clear x \<Longrightarrow> OF_clear y \<Longrightarrow> OF_clear (if c then x else y)"
  "\<not> e_OF e \<Longrightarrow> OF_clear (ok e)"
  "(\<And>e'. z = Inr e' \<Longrightarrow> \<not> e_OF e') \<Longrightarrow> OF_clear (Some z)"
  by (simp_all add: OF_clear_def ok_def)

lemma OF_exec:
  assumes "OF_safe intr out" "\<not> e_OF e"
  shows "OF_clear (exec intr out over rep opc e)"
proof -
  have intr: "OF_clear (intr n x)" if "\<not> e_OF x" for n x
    using assms(1) that unfolding OF_safe_def OF_clear_def by blast
  have out: "out p v e = Inr e' \<Longrightarrow> \<not> e_OF e'" for p v e'
    using assms unfolding OF_safe_def by blast
  note sums = OF_sum_ops [OF assms(2)] OF_grp3 [OF assms(2)] out
  show ?thesis
    unfolding exec_def exec_rest_def case_prod_unfold Let_def
    by (intro OF_clear_intros intr) (erule sums | simp add: OF_alu_ops assms(2))+
qed

lemma OF_fetchD: "fetch n e = (v, e') \<Longrightarrow> e_OF e' = e_OF e"
  using OF_simps(10) [of n e] by simp

lemma OF_emu_step:
  assumes "OF_safe intr out" "\<not> e_OF e"
  shows "OF_clear (emu_step intr out e)"
proof -
  have "\<not> e_OF (snd (snd (snd r)))" if "while_true prefix_step (None, False, e) = Some r" for r
    using that
    by (rule while_true_rule [where I = "\<lambda>(over, rep, x). \<not> e_OF x"])
       (use assms(2) in \<open>auto simp: prefix_step_def Let_def dest: OF_fetchD split: if_splits prod.splits\<close>)
  then show ?thesis
    using OF_exec [OF assms(1)]
    by (fastforce simp: emu_step_def OF_clear_def split: option.splits)
qed

lemma OF_run_loop:
  assumes "OF_safe intr out"
  shows "\<not> e_OF e \<Longrightarrow> run_loop intr out n e = Some (err, e') \<Longrightarrow> \<not> e_OF e'"
proof (induction n arbitrary: e)
  case (Suc n)
  then show ?case
    using OF_emu_step [OF assms Suc.prems(1)]
    by (auto simp: OF_clear_def split: if_splits option.splits sum.splits)
qed simp

lemma OF_emu_run:
  "OF_safe intr out \<Longrightarrow> \<not> e_OF e \<Longrightarrow> emu_run intr out wl n e = Some (err, e') \<Longrightarrow> \<not> e_OF e'"
  unfolding emu_run_def using OF_run_loop [of intr out "e\<lparr>e_cmd_bytes := wl\<rparr>" n err e'] by simp

lemma OF_emu_init: "\<not> e_OF (emu_init com)"
  by (simp add: emu_init_def Let_def)

section \<open>Memory and stack\<close>

text \<open>The memory never gets smaller than the 20-bit address space.\<close>

definition mem_ok :: "'z emu_scheme \<Rightarrow> bool" where
  "mem_ok e \<longleftrightarrow> 0x100000 \<le> e_memlen e"

lemma lin_less: "lin s off e < 0x100000"
  by (simp add: lin_def)

lemma mem_slice_store:
  "a \<le> e_memlen e \<Longrightarrow> mem_slice a (length bs) (mem_store a bs e) = bs"
  by (intro nth_equalityI) (simp_all add: mem_slice_def mem_store_def)

lemma rd_wr: "mem_ok e \<Longrightarrow> rd s off n (wr s off v n e) = v mod 256 ^ n"
proof -
  assume "mem_ok e"
  then have "lin s off e \<le> e_memlen e" using lin_less [of s off e] by (simp add: mem_ok_def)
  moreover have "lin s off (wr s off v n e) = lin s off e" by (simp add: lin_def wr_def mem_store_def)
  ultimately show ?thesis
    using mem_slice_store [of "lin s off e" e "le_bytes n v"]
    by (simp add: rd_def) (simp add: wr_def from_le_bytes_mod)
qed

lemma pop_push:
  assumes "mem_ok e"
  shows "fst (pop (push v e)) = v mod 65536" "e_r (snd (pop (push v e))) = e_r e"
    "e_ip (push v e) = e_ip e" "e_sreg (push v e) = e_sreg e"
proof -
  let ?e = "set_r SP (e_r e SP - 2) e"
  have ok: "mem_ok ?e" using assms by (simp add: mem_ok_def)
  have sp: "e_r (push v e) SP = e_r ?e SP"
    by (simp add: push_def Let_def wr_def mem_store_def)
  show "fst (pop (push v e)) = v mod 65536"
    unfolding pop_def fst_conv sp using rd_wr [OF ok, of SS "e_r ?e SP" 2 v]
    by (simp add: push_def Let_def)
  show "e_r (snd (pop (push v e))) = e_r e"
    by (rule ext) (simp add: pop_def push_def Let_def wr_def mem_store_def)
  show "e_ip (push v e) = e_ip e" "e_sreg (push v e) = e_sreg e"
    by (simp_all add: push_def Let_def wr_def mem_store_def)
qed

lemma mem_ok_fetch: "mem_ok (snd (fetch n e)) = mem_ok e"
  by (simp add: mem_ok_def fetch_def)

lemma ret_call:
  assumes "mem_ok e"
  shows "e_ip (op_ret (op_call e)) = e_ip e + 2" "e_r (op_ret (op_call e)) = e_r e"
proof -
  let ?e = "snd (fetch 2 e)"
  have ok: "mem_ok ?e" using assms by (simp add: mem_ok_fetch)
  have pop_jump: "pop (jump_by d x) = (fst (pop x), jump_by d (snd (pop x)))" for d x
    by (simp add: pop_def jump_by_def rd_def lin_def mem_slice_def set_r_def)
  have "unat (e_ip ?e) < 65536" using unsigned_less [of "e_ip ?e", where 'a = nat] by simp
  then have "fst (pop (push (unat (e_ip ?e)) ?e)) = unat (e_ip ?e)"
    using pop_push(1) [OF ok] by simp
  then show "e_ip (op_ret (op_call e)) = e_ip e + 2"
    by (simp add: op_ret_def op_call_def Let_def case_prod_unfold pop_jump) (simp add: fetch_def)
  show "e_r (op_ret (op_call e)) = e_r e"
    using pop_push(2) [OF ok]
    by (simp add: op_ret_def op_call_def Let_def case_prod_unfold pop_jump) (simp add: jump_by_def fetch_def)
qed

section \<open>Properties\<close>

text \<open>C39: After a comparison the conditional jumps for unsigned numbers decide as the 8086
  does, for bytes and for words, whatever the flags were before.\<close>

theorem unsigned_jumps_after_cmp:
  assumes "n \<in> {1, 2}" "a < 256 ^ n" "b < 256 ^ n"
  shows "let e' = snd (alu Cmp a b n e) in
    jcccond 0x72 e' = (a < b) \<and> jcccond 0x73 e' = (b \<le> a) \<and> jcccond 0x74 e' = (a = b) \<and>
    jcccond 0x75 e' = (a \<noteq> b) \<and> jcccond 0x76 e' = (a \<le> b) \<and> jcccond 0x77 e' = (b < a)"
proof -
  have "256 ^ n = (2 :: nat) ^ (8 * n)" by (simp add: power_mult)
  then have "a < 2 ^ (8 * n)" "b < 2 ^ (8 * n)" using assms(2,3) by simp_all
  from alu_sub(2) [OF this, of Cmp e] alu_cmp_zero [OF this, of e] show ?thesis
    by (auto simp: Let_def jcccond_nth)
qed

theorem unsigned_jumps_after_cmp_witness:
  "jcccond 0x72 (snd (alu Cmp 3 250 1 (emu_init []))) \<and> \<not> jcccond 0x74 (snd (alu Cmp 3 250 1 (emu_init [])))"
  using unsigned_jumps_after_cmp [of 1 3 250 "emu_init []"] by (simp add: Let_def)

text \<open>C38: The overflow flag of the emulator is never set, by any program, on any disk of the
  self-test. So the jump on overflow is never taken, and the jump on "less" is the jump on
  "negative".\<close>

theorem overflow_never_set:
  assumes "emu_run (make_int geom bad) uart_out wl n (emu_init com) = Some (err, e)"
  shows "\<not> e_OF e \<and> \<not> jcccond 0x70 e \<and> jcccond 0x7C e = jcccond 0x78 e"
proof -
  have "\<not> e_OF e" using OF_emu_run [OF OF_safe_make OF_emu_init assms] .
  then show ?thesis by (simp add: jcccond_def Let_def)
qed

text \<open>A program of one instruction, \<open>stc\<close>, for the witness.\<close>

lemma fetch_stc:
  "fetch 1 ((emu_init [0xF9])\<lparr>e_cmd_bytes := []\<rparr>) = (0xF9, (emu_init [0xF9])\<lparr>e_cmd_bytes := [], e_ip := 0x101\<rparr>)"
  by (simp add: fetch_def rd_def mem_slice_def lin_def emu_init_def mem_store_def Let_def emu_seg_def
      emu_tail_def upt_conv_Cons)

lemma step_stc:
  "emu_step intr out ((emu_init [0xF9])\<lparr>e_cmd_bytes := []\<rparr>) =
     Some (Inr ((emu_init [0xF9])\<lparr>e_cmd_bytes := [], e_ip := 0x101, e_CF := True\<rparr>))"
  using fetch_stc by (simp add: emu_step_def while_true.simps prefix_step_def exec_def exec_rest_def ok_def del: One_nat_def)

lemma run_stc:
  "emu_run intr out [] 1 (emu_init [0xF9]) =
     Some (None, (emu_init [0xF9])\<lparr>e_cmd_bytes := [], e_ip := 0x101, e_CF := True\<rparr>)"
  by (simp add: emu_run_def step_stc) (simp add: emu_init_def mem_store_def Let_def)

theorem overflow_never_set_witness:
  "\<exists>e. emu_run (make_int (2, 1, 4) None) uart_out [] 1 (emu_init [0xF9]) = Some (None, e)
    \<and> e_CF e \<and> \<not> jcccond 0x70 e"
  by (intro exI conjI, rule run_stc) (use overflow_never_set [OF run_stc] in simp_all)

text \<open>With the overflow flag clear, as it always is, "jump if less" after a comparison of
  two words goes by the sign of the difference. That is not the signed order: -32768 compared
  with 1 is not taken.\<close>

lemma less_jump_after_cmp:
  fixes x y :: "16 word"
  assumes "\<not> e_OF e"
  shows "(jcccond 0x7C (snd (alu Cmp (unat x) (unat y) 2 e)) \<longleftrightarrow> sint (x - y) < 0)
    \<and> sint (0x8000 :: 16 word) < sint (1 :: 16 word)
    \<and> \<not> jcccond 0x7C (snd (alu Cmp (unat (0x8000 :: 16 word)) (unat (1 :: 16 word)) 2 e))"
proof -
  have taken: "jcccond 0x7C (snd (alu Cmp (unat x) (unat y) 2 e)) \<longleftrightarrow> sint (x - y) < 0" for x y :: "16 word"
  proof -
    obtain r e' where r: "alu Cmp (unat x) (unat y) 2 e = (r, e')" by (cases "alu Cmp (unat x) (unat y) 2 e")
    have lt: "unat x < 2 ^ (8 * 2)" "unat y < 2 ^ (8 * 2)"
      using unsigned_less [of x, where 'a = nat] unsigned_less [of y, where 'a = nat] by simp_all
    have "int r = (uint x - uint y) mod 2 ^ 16"
      using alu_sub(1) [OF lt, of Cmp e] r by simp
    also have "\<dots> = uint (x - y)" by (simp add: uint_word_ariths)
    finally have "r = unat (x - y)" by (simp flip: of_nat_eq_iff [where 'a = int])
    then have "bit r 15 \<longleftrightarrow> bit (x - y) 15" by (simp add: bit_unsigned_iff)
    also have "\<dots> \<longleftrightarrow> sint (x - y) < 0" using bit_last_iff [of "x - y"] by simp
    finally show ?thesis
      using alu_flags(2,4) [OF r] assms r by (simp add: jcccond_nth)
  qed
  have order: "sint (0x8000 :: 16 word) < sint (1 :: 16 word)" "\<not> sint ((0x8000 :: 16 word) - 1) < 0"
    by code_simp+
  show ?thesis
    by (intro conjI taken order(1)) (unfold taken, rule order(2))
qed

lemma less_jump_after_cmp_example:
  "\<not> jcccond 0x7C (snd (alu Cmp (unat (0x8000 :: 16 word)) (unat (1 :: 16 word)) 2 (emu_init [])))"
  using less_jump_after_cmp [OF OF_emu_init] by blast

text \<open>An addition and an addition with carry of 16-bit halves make a 32-bit addition, a
  subtraction and a subtraction with borrow a 32-bit subtraction; the carry flag is that of
  the whole.\<close>

lemma wide_arithmetic:
  assumes "a < 2 ^ 32" "b < 2 ^ 32"
  shows "(let (lo, e1) = alu Add (a mod 65536) (b mod 65536) 2 e;
              (hi, e2) = alu Adc (a div 65536) (b div 65536) 2 e1
          in hi * 65536 + lo = (a + b) mod 2 ^ 32 \<and> e_CF e2 = (2 ^ 32 \<le> a + b))
       \<and> (let (lo, e1) = alu Sub (a mod 65536) (b mod 65536) 2 e;
              (hi, e2) = alu Sbb (a div 65536) (b div 65536) 2 e1
          in hi * 65536 + lo = (if a < b then 2 ^ 32 + a - b else a - b) \<and> e_CF e2 = (a < b))"
  unfolding case_prod_unfold Let_def
  by (intro conjI wide_add [OF assms surjective_pairing surjective_pairing]
      wide_sub [OF assms surjective_pairing surjective_pairing])

lemma wide_arithmetic_example:
  "let (lo, e1) = alu Sub 0 1 2 (emu_init []); (hi, e2) = alu Sbb 1 0 2 e1 in hi * 65536 + lo = 65535"
  using wide_arithmetic [of 65536 1 "emu_init []"] by (simp add: Let_def case_prod_unfold)

text \<open>Multiplication leaves the product in DX and AX; division leaves quotient and
  remainder there, and fails exactly for a zero divisor and for a quotient that does not fit.\<close>

lemma multiply_divide:
  fixes w :: "16 word"
  shows "unat (e_r (op_mul True (unat w) e) DX) * 65536 + unat (e_r (op_mul True (unat w) e) AX) =
      unat (e_r e AX) * unat w
    \<and> (case op_div True (unat w) e of
         Inr e' \<Rightarrow> unat (e_r e DX) * 65536 + unat (e_r e AX) =
             unat (e_r e' AX) * unat w + unat (e_r e' DX) \<and> unat (e_r e' DX) < unat w
       | Inl DivZero \<Rightarrow> unat w = 0
       | Inl err \<Rightarrow> err = DivOverflow \<and> 0 < unat w \<and>
           65536 * unat w \<le> unat (e_r e DX) * 65536 + unat (e_r e AX))"
proof -
  have "unat w < 65536" using unsigned_less [of w, where 'a = nat] by simp
  from op_mul_product [OF this, of e] op_div_cases [OF this, of e] show ?thesis by blast
qed

text \<open>A call followed by the return of the called routine continues after the call with
  the registers it had, wherever code and stack lie in the memory.\<close>

lemma call_returns:
  assumes "mem_ok e"
  shows "e_ip (op_ret (op_call e)) = e_ip e + 2 \<and> e_r (op_ret (op_call e)) = e_r e"
  using ret_call [OF assms] by blast

lemma call_returns_example:
  "e_ip (op_ret (op_call (emu_init [0x10, 0x00]))) = 0x102"
proof -
  have ok: "mem_ok (emu_init [0x10, 0x00])" by (simp add: mem_ok_def emu_init_def mem_store_def Let_def)
  from call_returns [OF ok] show ?thesis by (simp add: emu_init_def mem_store_def Let_def)
qed

end
