(* ===== verification/EmuTyped.thy ===== *)
theory EmuTyped
  imports EmuProps
begin

text \<open>
  The types of the emulator's attributes, which Python does not declare: every program keeps
  them, whatever it does. \<open>emu_wf\<close> is the invariant; one lemma per group of operations shows
  that it is kept, up to \<open>run\<close>.
\<close>

text \<open>
  The memory has the 20-bit address space and at most the one byte by which a word stored at
  its end extends it; the line control register is a byte; the emulator has stopped exactly when
  there is an exit code, and that is a byte; what the UART has gathered is the end of what was
  sent and the beginning of a frame that is not complete.
\<close>

definition open_frame :: "byte list \<Rightarrow> bool" where
  "open_frame fr \<longleftrightarrow>
     fr = [] \<or> fr = [0x01] \<or>
     (2 \<le> length fr \<and> hd fr = 0x01 \<and>
       (case frame_need (fr ! 1) of None \<Rightarrow> False | Some need \<Rightarrow> length fr < need))"

definition emu_wf :: "'z emu_scheme \<Rightarrow> bool" where
  "emu_wf e \<longleftrightarrow>
     0x100000 \<le> e_memlen e \<and> e_memlen e \<le> 0x100001 \<and> e_lcr e < 256 \<and>
     e_halt e = (e_exitcode e \<noteq> None) \<and> (case e_exitcode e of None \<Rightarrow> True | Some c \<Rightarrow> c < 256) \<and>
     open_frame (e_frame e) \<and> (\<exists>pre. e_tx e = pre @ e_frame e)"

section \<open>Primitives\<close>

lemma wf_simps [simp]:
  "emu_wf (set_r r v e) = emu_wf e" "emu_wf (set_sreg s v e) = emu_wf e" "emu_wf (s16 i k e) = emu_wf e"
  "emu_wf (s8 i k e) = emu_wf e" "emu_wf (setzsp k n e) = emu_wf e" "emu_wf (snd (pop e)) = emu_wf e"
  "emu_wf (snd (fetch n e)) = emu_wf e" "emu_wf (jump_by d e) = emu_wf e" "emu_wf (s_reg w i k e) = emu_wf e"
  "emu_wf (e\<lparr>e_ip := ip\<rparr>) = emu_wf e" "emu_wf (e\<lparr>e_CF := b\<rparr>) = emu_wf e" "emu_wf (e\<lparr>e_ZF := b\<rparr>) = emu_wf e"
  "emu_wf (e\<lparr>e_OF := b\<rparr>) = emu_wf e" "emu_wf (e\<lparr>e_console := con\<rparr>) = emu_wf e"
  "emu_wf (e\<lparr>e_rx := rx\<rparr>) = emu_wf e" "emu_wf (e\<lparr>e_cmd_bytes := rx\<rparr>) = emu_wf e"
  by (simp_all add: emu_wf_def set_r_def set_sreg_def s16_def s8_def setzsp_def pop_def fetch_def jump_by_def
      s_reg_def Let_def)

lemma wf_wr: "emu_wf e \<Longrightarrow> n \<le> 2 \<Longrightarrow> emu_wf (wr s off k n e)"
  using lin_less [of s off e] by (auto simp: emu_wf_def wr_def mem_store_def)

lemma width_le [simp]: "width w \<le> 2"
  by (simp add: width_def)

lemma wf_push [simp]: "emu_wf e \<Longrightarrow> emu_wf (push k e)"
  by (simp add: push_def Let_def wf_wr)

lemma wf_put_rm [simp]: "emu_wf e \<Longrightarrow> emu_wf (put_rm w over rmo k e)"
  by (simp add: put_rm_def wf_wr split: prod.split option.split)

lemma wf_modrm [simp]: "emu_wf (snd (modrm e)) = emu_wf e"
  by (simp add: modrm_def Let_def case_prod_unfold)

lemma wf_alu [simp]: "emu_wf (snd (alu p a b n e)) = emu_wf e"
  by (simp add: alu_def Let_def)

section \<open>Instructions\<close>

lemma wf_ops [simp]:
  assumes "emu_wf e"
  shows "emu_wf (op_segment opc e)" "emu_wf (op_inc i e)" "emu_wf (op_dec i e)"
    "emu_wf (op_call e)" "emu_wf (op_jmp n e)" "emu_wf (op_ret e)"
    "emu_wf (op_jcc opc n e)" "emu_wf (op_jcxz e)" "emu_wf (op_loop e)"
    "emu_wf (op_mov_rm over opc e)" "emu_wf (op_moffs over opc e)"
    "emu_wf (op_mov_imm over opc e)" "emu_wf (op_lodsb over e)"
    "emu_wf (op_mul w a e)" "emu_wf (op_imul w a e)"
    "emu_wf (op_alu over opc e)" "emu_wf (op_test over opc e)" "emu_wf (op_grp1 over opc e)"
  using assms
  by (simp_all add: op_segment_def op_inc_def op_dec_def op_call_def op_jmp_def op_ret_def op_jcc_def
      op_jcxz_def op_loop_def op_mov_rm_def op_moffs_def op_mov_imm_def op_lodsb_def op_mul_def
      op_imul_def op_alu_def op_test_def op_grp1_def Let_def case_prod_unfold wf_wr)

lemma wf_stosb [simp]: "emu_wf e \<Longrightarrow> emu_wf (op_stosb rep e)"
proof -
  have "emu_wf e \<Longrightarrow> emu_wf (stosb_rounds k e)" for k
    by (induction k arbitrary: e) (simp_all add: Let_def wf_wr)
  then show "emu_wf e \<Longrightarrow> emu_wf (op_stosb rep e)" by (simp add: op_stosb_def Let_def del: stosb_rounds.simps)
qed

lemma wf_uart_in [simp]: "emu_wf (snd (uart_in port e)) = emu_wf e"
  by (simp add: uart_in_def split: list.split)

lemma wf_sum_ops:
  assumes "emu_wf e"
  shows "op_mov_to_sreg over e = Inr e' \<Longrightarrow> emu_wf e'" "op_mov_from_sreg over e = Inr e' \<Longrightarrow> emu_wf e'"
    "op_grp_fe over opc e = Inr e' \<Longrightarrow> emu_wf e'" "op_shift over opc e = Inr e' \<Longrightarrow> emu_wf e'"
    "op_div w a e = Inr e' \<Longrightarrow> emu_wf e'" "op_idiv w a e = Inr e' \<Longrightarrow> emu_wf e'"
  using assms
  by (auto simp: op_mov_to_sreg_def op_mov_from_sreg_def op_grp_fe_def op_shift_def op_div_def op_idiv_def
      Let_def case_prod_unfold split: option.splits if_splits sum.splits)

lemma wf_grp3:
  assumes "emu_wf e" "op_grp3 over opc e = Inr e'"
  shows "emu_wf e'"
proof -
  have m: "emu_wf (snd (modrm e))" using assms(1) by simp
  show ?thesis
    using assms m wf_sum_ops(5,6) [OF m]
    by (auto simp: op_grp3_def Let_def case_prod_unfold split: if_splits)
qed

section \<open>Services\<close>

lemma open_frame_append:
  assumes "open_frame fr" "fr \<noteq> []"
  shows "2 \<le> length (fr @ [b]) \<and> hd (fr @ [b]) = 0x01"
  using assms by (auto simp: open_frame_def)

lemma wf_frame_done [simp]: "emu_wf (frame_done t e) = emu_wf e" "e_tx (frame_done t e) = e_tx e"
  by (simp_all add: frame_done_def emu_wf_def)

lemma wf_thr_write: 
  assumes "emu_wf e"
  shows "emu_wf (thr_write b e)"
proof -
  obtain pre where pre: "e_tx e = pre @ e_frame e" and fr: "open_frame (e_frame e)"
    using assms by (auto simp: emu_wf_def)
  show ?thesis
    using assms pre open_frame_append [OF fr, of b]
    by (auto simp: thr_write_def emu_wf_def Let_def open_frame_def frame_done_def split: option.splits)
qed

lemma wf_uart_out: "emu_wf e \<Longrightarrow> uart_out p v e = Inr e' \<Longrightarrow> emu_wf e'"
  using wf_thr_write [of e] by (auto simp: uart_out_def emu_wf_def split: if_splits)

lemma wf_do_int: "emu_wf e \<Longrightarrow> do_int n e = Some (Inr e') \<Longrightarrow> emu_wf e'"
proof -
  have "reg_low v < 256" for v
    using word_and_le1 [of v "0xFF"] by (simp add: reg_low_def word_le_nat_alt)
  then show "emu_wf e \<Longrightarrow> do_int n e = Some (Inr e') \<Longrightarrow> emu_wf e'"
    by (auto simp: do_int_def Let_def split: option.splits if_splits) (simp_all add: emu_wf_def)
qed

lemma wf_make_int: "emu_wf e \<Longrightarrow> make_int geom bad n e = Some (Inr e') \<Longrightarrow> emu_wf e'"
  using wf_do_int by (auto simp: make_int_def ok_def Let_def case_prod_unfold split: if_splits)

section \<open>Steps and runs\<close>

definition wf_result :: "(emu_error + 'z emu_scheme) option \<Rightarrow> bool" where
  "wf_result r \<longleftrightarrow> (\<forall>e'. r = Some (Inr e') \<longrightarrow> emu_wf e')"

lemma wf_result_intros:
  "wf_result x \<Longrightarrow> wf_result y \<Longrightarrow> wf_result (if c then x else y)"
  "emu_wf e \<Longrightarrow> wf_result (ok e)"
  "(\<And>e'. z = Inr e' \<Longrightarrow> emu_wf e') \<Longrightarrow> wf_result (Some z)"
  by (simp_all add: wf_result_def ok_def)

definition wf_services ::
  "(nat \<Rightarrow> 'z emu_scheme \<Rightarrow> (emu_error + 'z emu_scheme) option) \<Rightarrow>
   (nat \<Rightarrow> nat \<Rightarrow> 'z emu_scheme \<Rightarrow> emu_error + 'z emu_scheme) \<Rightarrow> bool" where
  "wf_services intr out \<longleftrightarrow>
     (\<forall>n e e'. emu_wf e \<longrightarrow> intr n e = Some (Inr e') \<longrightarrow> emu_wf e') \<and>
     (\<forall>p v e e'. emu_wf e \<longrightarrow> out p v e = Inr e' \<longrightarrow> emu_wf e')"

lemma wf_exec:
  assumes "wf_services intr out" "emu_wf e"
  shows "wf_result (exec intr out over rep opc e)"
proof -
  have intr: "wf_result (intr n x)" if "emu_wf x" for n x
    using assms(1) that unfolding wf_services_def wf_result_def by blast
  have out: "out p v e = Inr e' \<Longrightarrow> emu_wf e'" for p v e'
    using assms unfolding wf_services_def by blast
  note sums = wf_sum_ops [OF assms(2)] wf_grp3 [OF assms(2)] out
  show ?thesis
    unfolding exec_def exec_rest_def case_prod_unfold Let_def
    by (intro wf_result_intros intr) (erule sums | simp add: assms(2))+
qed

lemma wf_fetchD: "fetch n e = (v, e') \<Longrightarrow> emu_wf e' = emu_wf e"
  using wf_simps(7) [of n e] by simp

lemma wf_emu_step:
  assumes "wf_services intr out" "emu_wf e"
  shows "wf_result (emu_step intr out e)"
proof -
  have "emu_wf (snd (snd (snd r)))" if "while_true prefix_step (None, False, e) = Some r" for r
    using that
    by (rule while_true_rule [where I = "\<lambda>(over, rep, x). emu_wf x"])
       (use assms(2) in \<open>auto simp: prefix_step_def Let_def dest: wf_fetchD split: if_splits prod.splits\<close>)
  then show ?thesis
    using wf_exec [OF assms(1)]
    by (fastforce simp: emu_step_def wf_result_def split: option.splits)
qed

lemma wf_run_loop:
  assumes "wf_services intr out"
  shows "emu_wf e \<Longrightarrow> run_loop intr out n e = Some (err, e') \<Longrightarrow> emu_wf e'"
proof (induction n arbitrary: e)
  case (Suc n)
  then show ?case
    using wf_emu_step [OF assms Suc.prems(1)]
    by (auto simp: wf_result_def split: if_splits option.splits sum.splits)
qed simp

lemma wf_emu_init: "length com \<le> 0xEFF00 \<Longrightarrow> emu_wf (emu_init com)"
  by (simp add: emu_init_def emu_wf_def mem_store_def Let_def emu_seg_def emu_tail_def open_frame_def)

text \<open>A word stored at the last address does not wrap to address 0: it extends the memory.\<close>

lemma top_word_extends:
  assumes "lin s off e = 0xFFFFF" "e_memlen e = 0x100000"
  shows "e_memlen (wr s off v 2 e) = 0x100001" "e_mem (wr s off v 2 e) 0 = e_mem e 0"
  using assms by (simp_all add: wr_def mem_store_def)

text \<open>C26: The attributes of the emulator keep their types on every program that fits its segment,
  on any disk of the harness and for any number of steps, also where an instruction raises an
  exception: the memory keeps the 20-bit address space and grows by one byte at most, registers
  of the UART and the exit code are bytes, the emulator has stopped exactly when there is an
  exit code, and the bytes gathered by the UART are the last ones sent and an open frame.
\<close>

theorem emulator_types_kept:
  assumes "length com \<le> 0xEFF00"
    and "emu_run (make_int geom bad) uart_out wl n (emu_init com) = Some (err, e)"
  shows "emu_wf e"
proof -
  have "wf_services (make_int geom bad :: nat \<Rightarrow> emu \<Rightarrow> _) uart_out"
    unfolding wf_services_def using wf_make_int wf_uart_out by blast
  from wf_run_loop [OF this, of "(emu_init com)\<lparr>e_cmd_bytes := wl\<rparr>" n err e] assms show ?thesis
    by (simp add: emu_run_def wf_emu_init)
qed

theorem emulator_types_kept_witness:
  "\<exists>e. emu_run (make_int (2, 1, 4) None) uart_out [] 1 (emu_init [0xF9]) = Some (None, e) \<and> e_CF e \<and> emu_wf e"
  by (intro exI conjI, rule run_stc) (use emulator_types_kept [OF _ run_stc] in simp_all)

end
