(* ===== verification/EmuHarnessProps.thy ===== *)
theory EmuHarnessProps
  imports EmuProps
begin

text \<open>
  The harness of the emulator against the protocol: its frames are those of \<open>rx.py\<close>, its UART
  answers a sender that speaks the protocol, and it reads from what was sent the sectors that
  were sent; the host of the write direction feeds its frames in order.
\<close>

section \<open>Frames\<close>

lemma emu_crc16_eq: "emu_crc16 = crc16"
proof -
  have "emu_crc_bit = crc_bit" by (intro ext) (simp add: emu_crc_bit_def crc_bit_def)
  then have "(\<lambda>c b. (emu_crc_bit ^^ 8) (c XOR push_bit 8 (unat b))) = crc_byte"
    by (intro ext) (simp add: crc_byte_def)
  then show ?thesis by (intro ext) (simp only: emu_crc16_def crc16_def)
qed

lemma emu_ranges_eq: "emu_ranges ws = range_payload ws"
  by (induction ws rule: emu_ranges.induct) (auto split: option.split)

lemma type_bytes: "TYPE_CMD = 0x43" "TYPE_DATA = 0x44" "TYPE_EOT = 0x45" "TYPE_INFO = 0x49" "SOH = 0x01"
  by (simp_all add: proto_defs)

lemma cmd_frame_eq: "cmd_frame ws = (case cmd_payload ws of Inl _ \<Rightarrow> None | Inr p \<Rightarrow> Some (frame TYPE_CMD p))"
  by (simp add: cmd_frame_def cmd_payload_def emu_crc16_eq emu_ranges_eq frame_def type_bytes Let_def
      split: option.split)

lemma host_data_frame_eq:
  "k < 2 ^ 32 \<Longrightarrow> host_data_frame k payload = Some (frame TYPE_DATA (le_bytes 4 k @ [STATUS_GOOD] @ payload))"
  by (simp add: host_data_frame_def to_bytes_le_def emu_crc16_eq frame_def type_bytes STATUS_GOOD_def Let_def)

section \<open>The UART of the read direction\<close>

definition send_bytes :: "byte list \<Rightarrow> 'z emu_scheme \<Rightarrow> 'z emu_scheme" where
  "send_bytes bs e = foldl (\<lambda>e b. thr_write b e) e bs"

lemma send_bytes_simps [simp]:
  "send_bytes [] e = e" "send_bytes (b # bs) e = send_bytes bs (thr_write b e)"
  "send_bytes (as @ bs) e = send_bytes bs (send_bytes as e)"
  by (simp_all add: send_bytes_def)

lemma send_prefix:
  assumes "e_frame e = []" "fr ! 0 = 0x01" "frame_need (fr ! 1) = Some (length fr)" "0 < k" "k < length fr"
  shows "send_bytes (take k fr) e = e\<lparr>e_tx := e_tx e @ take k fr, e_frame := take k fr\<rparr>"
  using assms(4,5)
proof (induction k)
  case (Suc k)
  have next_byte: "take (Suc k) fr = take k fr @ [fr ! k]" using Suc.prems by (simp add: take_Suc_conv_app_nth)
  show ?case
  proof (cases "k = 0")
    case True
    have "take (Suc 0) fr = [fr ! 0]" using Suc.prems by (cases fr) auto
    with True assms(1,2) show ?thesis by (simp add: thr_write_def Let_def)
  next
    case False
    with Suc have IH: "send_bytes (take k fr) e = e\<lparr>e_tx := e_tx e @ take k fr, e_frame := take k fr\<rparr>" by simp
    define xs where "xs = take k fr"
    have xs: "xs \<noteq> []" "length xs = k" using False Suc.prems by (auto simp: xs_def)
    have second: "(xs @ [fr ! k]) ! 1 = fr ! 1"
      using False Suc.prems by (cases "k = 1") (simp_all add: nth_append xs_def)
    have "thr_write (fr ! k) (e\<lparr>e_tx := e_tx e @ xs, e_frame := xs\<rparr>) =
        e\<lparr>e_tx := e_tx e @ xs @ [fr ! k], e_frame := xs @ [fr ! k]\<rparr>"
      using xs second Suc.prems assms(3) False by (simp add: thr_write_def Let_def del: One_nat_def)
    then show ?thesis unfolding next_byte send_bytes_simps IH xs_def [symmetric]
      by (simp add: IH [folded xs_def])
  qed
qed simp

lemma send_frame_bytes:
  assumes "e_frame e = []" "fr ! 0 = 0x01" "frame_need (fr ! 1) = Some (length fr)" "2 \<le> length fr"
  shows "send_bytes fr e = frame_done (fr ! 1) (e\<lparr>e_tx := e_tx e @ fr\<rparr>)"
proof -
  obtain xs x where fr: "fr = xs @ [x]" using assms(4) by (cases fr rule: rev_cases) auto
  then have xs: "xs \<noteq> []" "take (length xs) fr = xs" using assms(4) by auto
  have "send_bytes (take (length xs) fr) e = e\<lparr>e_tx := e_tx e @ take (length xs) fr, e_frame := take (length xs) fr\<rparr>"
    by (rule send_prefix [OF assms(1-3)]) (use xs fr in auto)
  then have pre: "send_bytes xs e = e\<lparr>e_tx := e_tx e @ xs, e_frame := xs\<rparr>" by (simp only: xs(2))
  have "send_bytes (xs @ [x]) e = thr_write x (e\<lparr>e_tx := e_tx e @ xs, e_frame := xs\<rparr>)"
    by (simp add: pre)
  also have "\<dots> = (frame_done (fr ! 1) (e\<lparr>e_tx := e_tx e @ fr, e_frame := fr\<rparr>))\<lparr>e_frame := []\<rparr>"
    using xs(1) assms(3,4) by (simp add: thr_write_def Let_def fr [symmetric] del: One_nat_def)
  also have "\<dots> = frame_done (fr ! 1) (e\<lparr>e_tx := e_tx e @ fr\<rparr>)"
    using assms(1) by (simp add: frame_done_def)
  finally show ?thesis by (simp only: fr [symmetric])
qed

section \<open>A sender's session on the UART\<close>

text \<open>What a sender sends: its \<open>INFO\<close>, the sectors of a list, its \<open>EOT\<close>.\<close>

definition sector_frame_of :: "tx_disk \<Rightarrow> nat \<Rightarrow> byte list" where
  "sector_frame_of d k = data_frame (word_of_nat k) (disk_status d k) (disk_bytes d k)"

definition sent_stream :: "tx_disk \<Rightarrow> nat list \<Rightarrow> 32 word \<Rightarrow> 32 word \<Rightarrow> byte list" where
  "sent_stream d ks good bad =
     send_info d @ concat (map (sector_frame_of d) ks) @ eot_frame good bad"

lemma tx_frame_head: "tx_frame (t # body) ! 0 = 0x01" "tx_frame (t # body) ! 1 = t"
  by (simp_all add: tx_frame_def Let_def SOH_def)

lemma length_tx_frame: "length (tx_frame body) = length body + 3"
  by (simp add: tx_frame_def Let_def)

lemma sector_frame_shape:
  assumes "bios_sized d"
  shows "length (sector_frame_of d k) = 521" "sector_frame_of d k ! 0 = 0x01" "sector_frame_of d k ! 1 = 0x44"
  using length_disk_bytes [OF assms]
  by (simp_all add: sector_frame_of_def data_frame_def tx_frame_head [unfolded One_nat_def] length_tx_frame bytes32_def type_bytes BPS_def)

lemma info_shape: "length (send_info d) = 16" "send_info d ! 0 = 0x01" "send_info d ! 1 = 0x49"
  by (simp_all add: send_info_def tx_info_def tx_frame_head [unfolded One_nat_def] length_tx_frame bytes32_def bytes16_def type_bytes)

lemma eot_shape: "length (eot_frame g b) = 12" "eot_frame g b ! 0 = 0x01" "eot_frame g b ! 1 = 0x45"
  by (simp_all add: eot_frame_def tx_frame_head [unfolded One_nat_def] length_tx_frame bytes32_def type_bytes)

lemma send_sectors:
  assumes "bios_sized d" "e_frame e = []"
  shows "send_bytes (concat (map (sector_frame_of d) ks)) e =
    e\<lparr>e_tx := e_tx e @ concat (map (sector_frame_of d) ks),
      e_data_count := e_data_count e + length ks, e_rx := e_rx e @ replicate (length ks) 0x06\<rparr>"
  using assms(2)
proof (induction ks arbitrary: e)
  case (Cons k ks)
  note shape = sector_frame_shape [OF assms(1), of k]
  have "send_bytes (sector_frame_of d k) e =
      e\<lparr>e_tx := e_tx e @ sector_frame_of d k, e_data_count := e_data_count e + 1, e_rx := e_rx e @ [0x06]\<rparr>"
    using send_frame_bytes [OF Cons.prems, of "sector_frame_of d k"] shape
    by (simp add: frame_need_def frame_done_def)
  with Cons show ?case by (simp add: replicate_append_same [symmetric])
qed simp

lemma send_session:
  assumes "bios_sized d" "e_frame e = []"
  shows "send_bytes (sent_stream d ks good bad) e =
    e\<lparr>e_tx := e_tx e @ sent_stream d ks good bad,
      e_rx := e_rx e @ e_cmd_bytes e @ replicate (length ks) 0x06 @ [0x06],
      e_data_count := e_data_count e + length ks, e_eot_seen := True\<rparr>"
proof -
  have info: "send_bytes (send_info d) x = x\<lparr>e_tx := e_tx x @ send_info d, e_rx := e_rx x @ e_cmd_bytes x\<rparr>"
    if "e_frame x = []" for x :: "'a emu_scheme"
    using send_frame_bytes [OF that, of "send_info d"] info_shape [of d]
    by (simp add: frame_need_def frame_done_def)
  have eot: "send_bytes (eot_frame good bad) x =
      x\<lparr>e_tx := e_tx x @ eot_frame good bad, e_eot_seen := True, e_rx := e_rx x @ [0x06]\<rparr>"
    if "e_frame x = []" for x :: "'a emu_scheme"
    using send_frame_bytes [OF that, of "eot_frame good bad"] eot_shape [of good bad]
    by (simp add: frame_need_def frame_done_def)
  show ?thesis
    using assms(2) by (simp add: sent_stream_def info send_sectors [OF assms(1)] eot)
qed

section \<open>Reading back what was sent\<close>

lemma nth_at: "(pre @ fr @ rest) ! (length pre + i) = fr ! i" if "i < length fr"
  using that by (simp add: nth_append)

lemma imaged_skip:
  assumes "fr ! 0 = 0x01" "fr ! 1 = 0x49 \<and> length fr = 16 \<or> fr ! 1 = 0x45 \<and> length fr = 12"
  shows "imaged_from (pre @ fr @ rest) (length pre) = imaged_from (pre @ fr @ rest) (length (pre @ fr))"
proof -
  have "(pre @ fr @ rest) ! length pre = fr ! 0" "(pre @ fr @ rest) ! (length pre + 1) = fr ! 1"
    using nth_at [of 0 fr pre rest] nth_at [of 1 fr pre rest] assms(2) by fastforce+
  with assms show ?thesis
    by (subst imaged_from.simps) auto
qed

lemma imaged_sector:
  assumes "bios_sized d" "k < 2 ^ 32"
  shows "imaged_from (pre @ sector_frame_of d k @ rest) (length pre) =
    k # imaged_from (pre @ sector_frame_of d k @ rest) (length (pre @ sector_frame_of d k))"
proof -
  let ?fr = "sector_frame_of d k"
  note shape = sector_frame_shape [OF assms(1), of k]
  have head: "(pre @ ?fr @ rest) ! length pre = 0x01" "(pre @ ?fr @ rest) ! (length pre + 1) = 0x44"
    using nth_at [of 0 ?fr pre rest] nth_at [of 1 ?fr pre rest] shape by simp_all
  have "?fr = SOH # TYPE_DATA # le_bytes 4 k @ (disk_status d k # disk_bytes d k @ le_bytes 2
      (crc16 (TYPE_DATA # le_bytes 4 k @ disk_status d k # disk_bytes d k)))"
    using data_frame_eq [OF assms(2), of "disk_status d k" "disk_bytes d k"]
    by (simp add: sector_frame_of_def frame_simp)
  then have "take 4 (drop 2 ?fr) = le_bytes 4 k" by simp
  then have "py_slice (length pre + 2) (length pre + 6) (pre @ ?fr @ rest) = le_bytes 4 k"
    using shape by (simp add: py_slice_def)
  then show ?thesis
    using head shape assms(2) by (subst imaged_from.simps) (simp add: Let_def)
qed

lemma imaged_end: "imaged_from tx (length tx) = []"
  by (subst imaged_from.simps) simp

lemma imaged_sectors:
  assumes "bios_sized d" "\<forall>k\<in>set ks. k < 2 ^ 32"
  shows "imaged_from (pre @ concat (map (sector_frame_of d) ks) @ rest) (length pre) =
    ks @ imaged_from (pre @ concat (map (sector_frame_of d) ks) @ rest)
          (length (pre @ concat (map (sector_frame_of d) ks)))"
  using assms(2)
proof (induction ks arbitrary: pre)
  case (Cons k ks)
  then show ?case
    using imaged_sector [OF assms(1), of k pre "concat (map (sector_frame_of d) ks) @ rest"]
      Cons.IH [of "pre @ sector_frame_of d k"] by simp
qed simp

lemma imaged_session:
  assumes "bios_sized d" "\<forall>k\<in>set ks. k < 2 ^ 32"
  shows "imaged_lbas (sent_stream d ks good bad) = ks"
proof -
  let ?ks = "concat (map (sector_frame_of d) ks)"
  have "imaged_lbas (sent_stream d ks good bad) =
      imaged_from (sent_stream d ks good bad) (length (send_info d))"
    using imaged_skip [of "send_info d" "[]" "?ks @ eot_frame good bad"] info_shape [of d]
    by (simp add: imaged_lbas_def sent_stream_def)
  also have "\<dots> = ks @ imaged_from (sent_stream d ks good bad) (length (send_info d @ ?ks))"
    using imaged_sectors [OF assms, of "send_info d" "eot_frame good bad"] by (simp add: sent_stream_def)
  also have "imaged_from (sent_stream d ks good bad) (length (send_info d @ ?ks)) = []"
    using imaged_skip [of "eot_frame good bad" "send_info d @ ?ks" "[]"] eot_shape [of good bad]
      imaged_end [of "sent_stream d ks good bad"] by (simp add: sent_stream_def)
  finally show ?thesis by simp
qed

section \<open>The host of the write direction\<close>

fun writer_send ::
  "byte list \<Rightarrow> byte list list \<Rightarrow> int option \<Rightarrow> byte list \<Rightarrow> writer_emu \<Rightarrow> emu_error + writer_emu" where
  "writer_send cmd frames drop_at [] e = Inr e"
| "writer_send cmd frames drop_at (b # bs) e =
     (case writer_byte cmd frames drop_at b e of
        Inl err \<Rightarrow> Inl err
      | Inr e1 \<Rightarrow> writer_send cmd frames drop_at bs e1)"

lemma writer_send_append:
  "writer_send cmd frames drop_at as e = Inr e1 \<Longrightarrow>
     writer_send cmd frames drop_at (as @ bs) e = writer_send cmd frames drop_at bs e1"
  by (induction as arbitrary: e) (auto split: sum.splits)

lemma writer_info_prefix:
  assumes "w_frame e = []" "length fr = 16" "fr ! 0 = 0x01" "fr ! 1 = 0x49" "0 < k" "k < 16"
  shows "writer_send cmd frames drop_at (take k fr) e = Inr (e\<lparr>e_tx := e_tx e @ take k fr, w_frame := take k fr\<rparr>)"
  using assms(5,6)
proof (induction k)
  case (Suc k)
  have next_byte: "take (Suc k) fr = take k fr @ [fr ! k]"
    using Suc.prems assms(2) by (simp add: take_Suc_conv_app_nth)
  show ?case
  proof (cases "k = 0")
    case True
    have "take (Suc 0) fr = [fr ! 0]" using assms(2) by (cases fr) auto
    with True assms(1,3) show ?thesis by (simp add: writer_byte_def Let_def)
  next
    case False
    define xs where "xs = take k fr"
    have xs: "xs \<noteq> []" "length xs = k" using False Suc.prems assms(2) by (auto simp: xs_def)
    have second: "(xs @ [fr ! k]) ! 1 = fr ! 1"
      using False Suc.prems assms(2) by (cases "k = 1") (simp_all add: nth_append xs_def)
    have need: "writer_need (xs @ [fr ! k]) = Some 16"
      using xs assms(4) second False by (simp add: writer_need_def)
    have IH: "writer_send cmd frames drop_at xs e = Inr (e\<lparr>e_tx := e_tx e @ xs, w_frame := xs\<rparr>)"
      unfolding xs_def using False Suc by simp
    have "writer_byte cmd frames drop_at (fr ! k) (e\<lparr>e_tx := e_tx e @ xs, w_frame := xs\<rparr>) =
        Inr (e\<lparr>e_tx := e_tx e @ xs @ [fr ! k], w_frame := xs @ [fr ! k]\<rparr>)"
      using xs need Suc.prems by (simp add: writer_byte_def Let_def)
    then show ?thesis
      unfolding next_byte xs_def [symmetric] writer_send_append [OF IH] by simp
  qed
next
  case 0
  then show ?case by (simp only: less_irrefl)
qed

lemma writer_info:
  assumes "w_frame e = []" "length fr = 16" "fr ! 0 = 0x01" "fr ! 1 = 0x49" "frames = f # fs"
  shows "writer_send cmd frames drop_at fr e =
    Inr (e\<lparr>e_tx := e_tx e @ fr, e_rx := e_rx e @ cmd @ f, w_idx := 0\<rparr>)"
proof -
  obtain xs x where fr: "fr = xs @ [x]" using assms(2) by (cases fr rule: rev_cases) auto
  then have xs: "xs \<noteq> []" "length xs = 15" using assms(2) by auto
  have take: "take 15 fr = xs" using fr xs by simp
  have pre: "writer_send cmd frames drop_at xs e = Inr (e\<lparr>e_tx := e_tx e @ xs, w_frame := xs\<rparr>)"
    using writer_info_prefix [OF assms(1-4), of 15 cmd frames drop_at] unfolding take by simp
  have need: "writer_need fr = Some 16" using assms(2,4) by (simp add: writer_need_def)
  have "writer_byte cmd frames drop_at x (e\<lparr>e_tx := e_tx e @ xs, w_frame := xs\<rparr>) =
      Inr (writer_frame_done cmd frames fr (e\<lparr>e_tx := e_tx e @ fr, w_frame := fr\<rparr>))"
    using xs(1) need assms(2) by (simp add: writer_byte_def Let_def fr [symmetric])
  also have "writer_frame_done cmd frames fr (e\<lparr>e_tx := e_tx e @ fr, w_frame := fr\<rparr>) =
      e\<lparr>e_tx := e_tx e @ fr, e_rx := e_rx e @ cmd @ f, w_idx := 0\<rparr>"
    using assms(1,4,5) by (simp add: writer_frame_done_def feed_next_def py_index_def Let_def)
  finally show ?thesis
    using writer_send_append [OF pre, of "[x]"] by (simp add: fr [symmetric])
qed

text \<open>Acknowledgements, none of them dropped.\<close>

lemma writer_acks:
  assumes "w_frame e = []" "w_idx e = int i" "\<forall>m<n. drop_at \<noteq> Some (int (i + m)) \<or> w_dropped e"
  shows "writer_send cmd frames drop_at (replicate n 0x06) e =
    Inr (e\<lparr>e_tx := e_tx e @ replicate n 0x06, w_acks := w_acks e + n, w_idx := int (i + n),
           e_rx := e_rx e @ concat (take n (drop (Suc i) frames))\<rparr>)"
  using assms
proof (induction n arbitrary: e i)
  case (Suc n)
  let ?more = "if Suc i < length frames then frames ! Suc i else []"
  have first: "writer_byte cmd frames drop_at 0x06 e =
      Inr (e\<lparr>e_tx := e_tx e @ [0x06], w_acks := w_acks e + 1, w_idx := int (Suc i), e_rx := e_rx e @ ?more\<rparr>)"
  proof -
    have keep: "\<not> (drop_at = Some (w_idx e) \<and> \<not> w_dropped e)"
      using Suc.prems(2) Suc.prems(3) [rule_format, of 0] by simp
    have idx: "w_idx e + 1 = int (Suc i)" using Suc.prems(2) by simp
    have "feed_next frames x = x\<lparr>w_idx := int (Suc i), e_rx := e_rx x @ ?more\<rparr>" if "w_idx x = w_idx e" for x
      unfolding feed_next_def that idx Let_def
      by (cases "Suc i < length frames") (simp_all add: py_index_def nat_add_distrib)
    then show ?thesis using Suc.prems(1) keep by (auto simp: writer_byte_def Let_def)
  qed
  have "?more @ concat (take n (drop (Suc (Suc i)) frames)) = concat (take (Suc n) (drop (Suc i) frames))"
    by (simp add: Cons_nth_drop_Suc [symmetric])
  moreover have "\<forall>m<n. drop_at \<noteq> Some (int (Suc i + m)) \<or> w_dropped e"
    using Suc.prems(3) by (metis Suc_less_eq add_Suc_shift)
  ultimately show ?case
    using Suc.prems(1) Suc.IH [of "e\<lparr>e_tx := e_tx e @ [0x06], w_acks := w_acks e + 1, w_idx := int (Suc i), e_rx := e_rx e @ ?more\<rparr>" "Suc i"]
    by (simp add: first)
next
  case 0
  then have "e\<lparr>e_tx := e_tx e @ [], w_acks := w_acks e + 0, w_idx := int (i + 0), e_rx := e_rx e @ []\<rparr> = e"
    by (cases e) simp
  then show ?case by simp
qed

lemma writer_lost:
  assumes "w_frame e = []" "length info = 16" "info ! 0 = 0x01" "info ! 1 = 0x49" "\<not> w_dropped e"
    and "j < m" "m \<le> length frames"
  shows "\<exists>e'. writer_send cmd frames (Some (int j)) (info @ replicate m 0x06) e = Inr e' \<and>
    e_rx e' = e_rx e @ cmd @ concat (take (Suc j) frames @ take (m - j) (drop j frames)) \<and>
    w_idx e' = int m - 1"
proof -
  let ?d = "Some (int j)"
  obtain f fs where frames: "frames = f # fs" using assms(6,7) by (cases frames) auto
  define e1 where "e1 = e\<lparr>e_tx := e_tx e @ info, e_rx := e_rx e @ cmd @ f, w_idx := 0\<rparr>"
  have s1: "writer_send cmd frames ?d info e = Inr e1"
    unfolding e1_def by (rule writer_info [OF assms(1-4) frames])
  define e2 where "e2 = e1\<lparr>e_tx := e_tx e1 @ replicate j 0x06, w_acks := w_acks e1 + j, w_idx := int (0 + j),
      e_rx := e_rx e1 @ concat (take j (drop (Suc 0) frames))\<rparr>"
  have s2: "writer_send cmd frames ?d (replicate j 0x06) e1 = Inr e2"
    unfolding e2_def by (rule writer_acks) (simp_all add: e1_def assms(1))
  define e3 where "e3 = e2\<lparr>e_tx := e_tx e2 @ [0x06], w_acks := w_acks e2 + 1, w_dropped := True,
      e_rx := e_rx e2 @ frames ! j\<rparr>"
  have s3: "writer_byte cmd frames ?d 0x06 e2 = Inr e3"
    using assms by (simp add: writer_byte_def feed_again_def py_index_def e3_def e2_def e1_def Let_def)
  let ?n = "m - Suc j"
  define e4 where "e4 = e3\<lparr>e_tx := e_tx e3 @ replicate ?n 0x06, w_acks := w_acks e3 + ?n, w_idx := int (j + ?n),
      e_rx := e_rx e3 @ concat (take ?n (drop (Suc j) frames))\<rparr>"
  have s4: "writer_send cmd frames ?d (replicate ?n 0x06) e3 = Inr e4"
    unfolding e4_def by (rule writer_acks) (simp_all add: e3_def e2_def e1_def assms(1))
  have "replicate m 0x06 = replicate j 0x06 @ 0x06 # replicate ?n (0x06 :: byte)"
    using assms(6) by (metis Suc_diff_Suc append_Cons replicate_Suc replicate_add add_diff_inverse_nat not_less_iff_gr_or_eq)
  then have "writer_send cmd frames ?d (info @ replicate m 0x06) e = Inr e4"
    by (simp add: writer_send_append [OF s1] writer_send_append [OF s2] s3 s4)
  moreover have "f # take j (drop (Suc 0) frames) = take (Suc j) frames" by (simp add: frames)
  then have "f @ concat (take j (drop (Suc 0) frames)) = concat (take (Suc j) frames)"
    by (metis concat.simps(2))
  moreover have "frames ! j # take ?n (drop (Suc j) frames) = take (m - j) (drop j frames)"
    using assms(6,7) by (metis Cons_nth_drop_Suc Suc_diff_Suc less_le_trans take_Suc_Cons)
  then have "frames ! j @ concat (take ?n (drop (Suc j) frames)) = concat (take (m - j) (drop j frames))"
    by (metis concat.simps(2))
  ultimately show ?thesis
    using assms(6) by (intro exI [of _ e4]) (simp add: e4_def e3_def e2_def e1_def)
qed

section \<open>Properties\<close>

text \<open>The command frames of the harness are, byte for byte, those \<open>rx.py\<close> sends, and it
  fails to make one exactly where \<open>rx.py\<close> raises.\<close>

lemma harness_commands:
  "cmd_frame ws = (case cmd_payload ws of Inl _ \<Rightarrow> None | Inr p \<Rightarrow> Some (frame TYPE_CMD p))"
  by (rule cmd_frame_eq)

text \<open>C37: When a sender sends its \<open>INFO\<close>, then sectors, then its \<open>EOT\<close> through the UART of the
  harness, the harness answers with the worklist, one acknowledgement for each sector and one
  for the \<open>EOT\<close>, counts the sectors, and the self-test reads from the recorded bytes exactly
  the sectors that were sent, in order, whatever their data.\<close>

theorem harness_session:
  assumes "bios_sized d" "\<forall>k\<in>set ks. k < 2 ^ 32" "e_frame e = []" "e_tx e = []"
  shows "e_rx (send_bytes (sent_stream d ks good bad) e) =
      e_rx e @ e_cmd_bytes e @ replicate (length ks) 0x06 @ [0x06]
    \<and> e_data_count (send_bytes (sent_stream d ks good bad) e) = e_data_count e + length ks
    \<and> e_eot_seen (send_bytes (sent_stream d ks good bad) e)
    \<and> imaged_lbas (e_tx (send_bytes (sent_stream d ks good bad) e)) = ks"
  using send_session [OF assms(1,3), of ks good bad] imaged_session [OF assms(1,2), of good bad] assms(4)
  by simp

theorem harness_session_witness:
  "imaged_lbas (e_tx (send_bytes (sent_stream sample_disk [1, 0, 1] 1 2) (emu_init []))) = [1, 0, 1]"
proof -
  have small: "\<forall>k\<in>set [1, 0, 1]. k < (2 :: nat) ^ 32" by simp
  have fresh: "e_frame (emu_init []) = []" "e_tx (emu_init []) = []"
    by (simp_all add: emu_init_def mem_store_def Let_def)
  from harness_session [OF sample_disk_sized small fresh] show ?thesis by blast
qed

text \<open>The host of the write direction, told to lose the acknowledgement of frame \<open>j\<close>: after
  the writer's \<open>INFO\<close> and \<open>m\<close> acknowledgements, it has sent the worklist and the frames in
  order, frame \<open>j\<close> a second time, and no other frame twice.\<close>

lemma harness_lost_ack:
  assumes "w_frame e = []" "length info = 16" "info ! 0 = 0x01" "info ! 1 = 0x49" "\<not> w_dropped e"
    and "j < m" "m \<le> length frames"
  shows "\<exists>e'. writer_send cmd frames (Some (int j)) (info @ replicate m 0x06) e = Inr e' \<and>
    e_rx e' = e_rx e @ cmd @ concat (take (Suc j) frames @ take (m - j) (drop j frames)) \<and>
    w_idx e' = int m - 1"
  using assms by (rule writer_lost)

lemma harness_lost_ack_example:
  "\<exists>e'. writer_send [9] [[1], [2], [3]] (Some 1) ([0x01, 0x49] @ replicate 14 0 @ replicate 3 0x06) (writer_init []) = Inr e'
    \<and> e_rx e' = [9, 1, 2, 2, 3]"
proof -
  have start: "w_frame (writer_init []) = []" "\<not> w_dropped (writer_init [])" "e_rx (writer_init []) = []"
    by (simp_all add: writer_init_def emu.defs emu_init_def mem_store_def Let_def)
  have info: "length ([0x01, 0x49] @ replicate 14 (0 :: byte)) = 16"
    "([0x01, 0x49] @ replicate 14 (0 :: byte)) ! 0 = 0x01" "([0x01, 0x49] @ replicate 14 (0 :: byte)) ! 1 = 0x49"
    by simp_all
  have sizes: "(1 :: nat) < 3" "3 \<le> length [[1 :: byte], [2], [3]]" by simp_all
  from harness_lost_ack [OF start(1) info start(2) sizes, of "[9]"] start(3) show ?thesis
    by (auto simp: numeral_2_eq_2)
qed

end
