(* ===== verification/Check8086.thy ===== *)
theory Check8086
  imports PyText
begin

text \<open>
  The opcode audit \<open>tools/check_8086.py\<close>: the end of the code region of a binary and the scan
  of the disassembly. The disassembly is the output of \<open>objdump\<close>, which is not part of the
  program: its lines are an argument. The regular expression of a line has only one way to
  match, so it is a function.
\<close>

section \<open>The suspect opcodes\<close>

definition SUSPECT :: "(string \<times> string) list" where
  "SUSPECT =
     [(''0f'', ''two-byte opcode (near Jcc/MOVZX/etc.) - 386+ here, invalid on 8086/286''),
      (''66'', ''operand-size prefix - 386+''),
      (''67'', ''address-size prefix - 386+''),
      (''c0'', ''shift/rotate r/m8, imm8 - 186/286+''),
      (''c1'', ''shift/rotate r/m16, imm8 - 186/286+''),
      (''68'', ''push imm16 - 186/286+''),
      (''6a'', ''push imm8 - 186/286+''),
      (''69'', ''imul r16, r/m16, imm16 - 186/286+''),
      (''6b'', ''imul r16, r/m16, imm8 - 186/286+''),
      (''60'', ''pusha - 186/286+''),
      (''61'', ''popa - 186/286+''),
      (''c8'', ''enter - 186/286+''),
      (''c9'', ''leave - 186/286+''),
      (''6c'', ''insb - 186/286+''),
      (''6d'', ''insw - 186/286+''),
      (''6e'', ''outsb - 186/286+''),
      (''6f'', ''outsw - 186/286+'')]"

section \<open>The code region\<close>

definition alpha_byte :: "byte \<Rightarrow> bool" where
  "alpha_byte b = (0x41 \<le> b \<and> b \<le> 0x5A \<or> 0x61 \<le> b \<and> b \<le> 0x7A)"

definition text_window :: "byte list \<Rightarrow> bool" where
  "text_window win =
     (list_all (\<lambda>b. 0x20 \<le> b \<and> b < 0x7F) win \<and> 8 \<le> length (filter alpha_byte win))"

definition find_code_end :: "byte list \<Rightarrow> nat" where
  "find_code_end data =
     (let W = 12
      in case find (\<lambda>i. text_window (take W (drop i data))) [0..<length data - W] of
           Some i \<Rightarrow> i
         | None \<Rightarrow> length data)"

section \<open>A line of the disassembly\<close>

definition lower_hex :: "char \<Rightarrow> bool" where
  "lower_hex c = (c \<in> set ''0123456789abcdef'')"

text \<open>The longest run of two hexadecimal digits and a blank.\<close>

fun take_pairs :: "string \<Rightarrow> string \<times> string" where
  "take_pairs (a # b # c # rest) =
     (if lower_hex a \<and> lower_hex b \<and> c = CHR '' ''
      then (case take_pairs rest of (ps, r) \<Rightarrow> (a # b # c # ps, r))
      else ([], a # b # c # rest))"
| "take_pairs xs = ([], xs)"

text \<open>The three groups of \<open>LINE\<close>: address, bytes, mnemonic.\<close>

definition match_line :: "string \<Rightarrow> (string \<times> string \<times> string option) option" where
  "match_line line =
     (let r0 = dropWhile py_space line;
          addr = takeWhile lower_hex r0;
          r1 = dropWhile lower_hex r0
      in case r1 of
           [] \<Rightarrow> None
         | c # r2 \<Rightarrow>
             (let r3 = dropWhile py_space r2; (ps, r4) = take_pairs r3; mnem = dropWhile py_space r4
              in if addr = [] \<or> c \<noteq> CHR '':'' \<or> r3 = r2 \<or> ps = [] then None
                 else Some (addr, ps, if mnem = [] then None else Some mnem)))"

text \<open>One round of the scan: file offset, memory address, mnemonic and reason of a hit.\<close>

type_synonym hit = "nat \<times> int \<times> string \<times> string"

definition scan_line :: "int \<Rightarrow> nat \<Rightarrow> string \<Rightarrow> hit option" where
  "scan_line load code_end line =
     (case match_line line of
        None \<Rightarrow> None
      | Some (addr, ps, mnem) \<Rightarrow>
          (case py_int 16 addr of
             None \<Rightarrow> None
           | Some off \<Rightarrow>
               if off \<ge> int code_end then None
               else (case map_of SUSPECT (hd (py_words ps)) of
                       None \<Rightarrow> None
                     | Some why \<Rightarrow>
                         Some (nat off, load + off, case mnem of Some s \<Rightarrow> s | None \<Rightarrow> [], why))))"

definition scan_hits :: "int \<Rightarrow> nat \<Rightarrow> string list \<Rightarrow> hit list" where
  "scan_hits load code_end dis =
     concat (map (\<lambda>line. case scan_line load code_end line of None \<Rightarrow> [] | Some h \<Rightarrow> [h]) dis)"

text \<open>The verdict; its exit status is 0 for \<open>AuditOk\<close> and 1 for \<open>AuditFail\<close>.\<close>

datatype audit = AuditOk nat | AuditFail "hit list"

definition audit :: "byte list \<Rightarrow> int \<Rightarrow> bool \<Rightarrow> string list \<Rightarrow> audit" where
  "audit data load whole dis =
     (let code_end = (if whole then length data else find_code_end data);
          hits = scan_hits load code_end dis
      in if hits = [] then AuditOk code_end else AuditFail hits)"

text \<open>
  \<open>main\<close>, given whether \<open>objdump\<close> is there, the file, the two options, what \<open>objdump\<close> prints.
  A load address that is not hexadecimal is a \<open>ValueError\<close>.
\<close>

datatype check_end = ObjdumpMissing | BadLoadAddr | Audited audit

definition check_main :: "bool \<Rightarrow> byte list \<Rightarrow> string option \<Rightarrow> bool \<Rightarrow> string list \<Rightarrow> check_end" where
  "check_main objdump data load_addr whole dis =
     (if \<not> objdump then ObjdumpMissing
      else (case py_int 16 (case load_addr of None \<Rightarrow> ''0x100'' | Some t \<Rightarrow> t) of
              None \<Rightarrow> BadLoadAddr
            | Some load \<Rightarrow> Audited (audit data load whole dis)))"

section \<open>What a scan sees of a line\<close>

lemma take_pairs_first:
  "lower_hex h1 \<Longrightarrow> lower_hex h2 \<Longrightarrow>
     take_pairs ([h1, h2, CHR '' ''] @ tail) =
       ([h1, h2, CHR '' ''] @ fst (take_pairs tail), snd (take_pairs tail))"
  by (simp add: case_prod_unfold)

lemma lower_hex_plain: "lower_hex c \<Longrightarrow> \<not> py_space c" "lower_hex c \<Longrightarrow> c \<noteq> CHR '':''"
  by (auto simp: lower_hex_def py_space_def)

lemma dropWhile_pad: "list_all py_space pad \<Longrightarrow> dropWhile py_space (pad @ xs) = dropWhile py_space xs"
  by (induction pad) auto

lemma match_line_head:
  assumes "list_all py_space pad" "addr \<noteq> []" "list_all lower_hex addr"
    and "ws \<noteq> []" "list_all py_space ws" "lower_hex h1" "lower_hex h2"
  shows "\<exists>ps m. match_line (pad @ addr @ '':'' @ ws @ [h1, h2, CHR '' ''] @ tail) =
      Some (addr, [h1, h2, CHR '' ''] @ ps, m)"
proof -
  let ?rest = "ws @ [h1, h2, CHR '' ''] @ tail"
  obtain a as where addr: "addr = a # as" using assms(2) by (cases addr) auto
  then have r0: "dropWhile py_space (pad @ addr @ '':'' @ ?rest) = addr @ '':'' @ ?rest"
    using assms(1,3) lower_hex_plain(1) [of a] by (simp add: dropWhile_pad)
  have hex: "\<forall>c\<in>set addr. lower_hex c" using assms(3) by (simp add: list_all_iff)
  have colon: "\<not> lower_hex CHR '':''" by (simp add: lower_hex_def)
  have split: "takeWhile lower_hex (addr @ '':'' @ ?rest) = addr"
    "dropWhile lower_hex (addr @ '':'' @ ?rest) = CHR '':'' # ?rest"
    using hex colon by (simp_all add: takeWhile_append dropWhile_append)
  have r3: "dropWhile py_space ?rest = [h1, h2, CHR '' ''] @ tail"
    using assms(5) lower_hex_plain(1) [OF assms(6)] by (simp add: dropWhile_pad)
  have "length ([h1, h2, CHR '' ''] @ tail) < length ?rest" using assms(4) by simp
  then have "dropWhile py_space ?rest \<noteq> ?rest" unfolding r3 by (metis less_irrefl)
  then show ?thesis
    unfolding match_line_def r0 Let_def split list.case r3 take_pairs_first [OF assms(6,7)] prod.case
    using assms(2) by auto
qed

lemma first_word:
  assumes "lower_hex h1" "lower_hex h2"
  shows "hd (py_words ([h1, h2, CHR '' ''] @ ps)) = [h1, h2]"
  using lower_hex_plain(1) [OF assms(1)] lower_hex_plain(1) [OF assms(2)]
  by (subst py_words.simps) (simp add: py_space_def)

lemma scan_line_head:
  assumes "list_all py_space pad" "addr \<noteq> []" "list_all lower_hex addr"
    and "ws \<noteq> []" "list_all py_space ws" "lower_hex h1" "lower_hex h2"
    and "py_int 16 addr = Some (int off)"
  shows "\<exists>mnem. scan_line load ce (pad @ addr @ '':'' @ ws @ [h1, h2, CHR '' ''] @ tail) =
    (if off < ce then (case map_of SUSPECT [h1, h2] of None \<Rightarrow> None | Some why \<Rightarrow> Some (off, load + int off, mnem, why))
     else None)"
proof -
  obtain ps m where m: "match_line (pad @ addr @ '':'' @ ws @ [h1, h2, CHR '' ''] @ tail) =
      Some (addr, [h1, h2, CHR '' ''] @ ps, m)" using match_line_head [OF assms(1-7)] by blast
  show ?thesis
    unfolding scan_line_def m option.case prod.case assms(8) first_word [OF assms(6,7)]
    by (auto split: option.split)
qed

section \<open>Properties\<close>

text \<open>Of a line of the disassembly only the address and the first byte count: it is a hit
  exactly when the address is below the end of the code and the first byte is a suspect one;
  the hit names that address and the reason for that byte.\<close>

lemma scan_line_first_byte:
  assumes "list_all py_space pad" "addr \<noteq> []" "list_all lower_hex addr"
    and "ws \<noteq> []" "list_all py_space ws" "lower_hex h1" "lower_hex h2"
    and "py_int 16 addr = Some (int off)"
  shows "\<exists>mnem. scan_line load ce (pad @ addr @ '':'' @ ws @ [h1, h2, CHR '' ''] @ tail) =
    (if off < ce then (case map_of SUSPECT [h1, h2] of None \<Rightarrow> None | Some why \<Rightarrow> Some (off, load + int off, mnem, why))
     else None)"
  using assms by (rule scan_line_head)

lemma scan_line_first_byte_example:
  "\<exists>mnem. scan_line 0x100 9 (''   4: '' @ ''0f 83 10 00  jae    0x18'') =
    Some (4, 0x104, mnem, ''two-byte opcode (near Jcc/MOVZX/etc.) - 386+ here, invalid on 8086/286'')"
proof -
  have "py_int 16 ''4'' = Some (int 4)"
    by (simp add: py_int_def strip_by_def int_space_def drop_prefix_def digit_value_def Let_def)
  from scan_line_first_byte [of "''   ''" "''4''" "'' ''" "CHR ''0''" "CHR ''f''" 4 "0x100" 9 "''83 10 00  jae    0x18''", OF _ _ _ _ _ _ _ this]
  show ?thesis by (simp add: py_space_def lower_hex_def SUSPECT_def)
qed

text \<open>C40: An instruction that begins with a segment override or with a lock or repeat prefix is
  never reported, whatever opcode follows the prefix.\<close>

theorem prefixed_opcode_missed:
  assumes "list_all py_space pad" "addr \<noteq> []" "list_all lower_hex addr"
    and "ws \<noteq> []" "list_all py_space ws" "py_int 16 addr = Some (int off)"
    and "[h1, h2] \<in> {''26'', ''2e'', ''36'', ''3e'', ''f0'', ''f2'', ''f3''}"
  shows "scan_line load ce (pad @ addr @ '':'' @ ws @ [h1, h2, CHR '' ''] @ tail) = None"
proof -
  have "lower_hex h1" "lower_hex h2" using assms(7) by (auto simp: lower_hex_def)
  from scan_line_head [OF assms(1-5) this assms(6), of load ce tail]
  show ?thesis using assms(7) by (auto simp: SUSPECT_def)
qed

theorem prefixed_opcode_missed_witness:
  "scan_line 0x100 9 (''   4: '' @ ''26 c1 27 04  shl    WORD PTR es:[bx],0x4'') = None"
proof -
  have "py_int 16 ''4'' = Some (int 4)"
    by (simp add: py_int_def strip_by_def int_space_def drop_prefix_def digit_value_def Let_def)
  from prefixed_opcode_missed [of "''   ''" "''4''" "'' ''" 4 "CHR ''2''" "CHR ''6''" "0x100" 9
      "''c1 27 04  shl    WORD PTR es:[bx],0x4''", OF _ _ _ _ _ this]
  show ?thesis by (simp add: py_space_def lower_hex_def)
qed

text \<open>The detected end of the code is the first position with a window of text that the loop
  looks at, and the end of the file when there is none. The loop does not look at the last
  window: a file of 12 bytes is all code, whatever it holds.\<close>

lemma code_end_first_text:
  "(let r = find_code_end data in
      r \<le> length data
      \<and> {i. i < r \<and> i + 12 < length data \<and> text_window (take 12 (drop i data))} = {}
      \<and> (r = length data \<or> r + 12 < length data \<and> text_window (take 12 (drop r data))))
   \<and> find_code_end (take 12 data) = length (take 12 data)"
proof -
  let ?P = "\<lambda>i. text_window (take 12 (drop i data))"
  have main: "let r = find_code_end data in
      r \<le> length data \<and> {i. i < r \<and> i + 12 < length data \<and> ?P i} = {}
      \<and> (r = length data \<or> r + 12 < length data \<and> ?P r)"
  proof (cases "find ?P [0..<length data - 12]")
    case None
    then have "find_code_end data = length data" by (simp add: find_code_end_def Let_def)
    moreover have "{i. i < length data \<and> i + 12 < length data \<and> ?P i} = {}"
      using None by (auto simp: find_None_iff)
    ultimately show ?thesis by simp
  next
    case (Some r)
    then obtain k where k: "k < length data - 12" "?P k" "r = k" "\<forall>j<k. \<not> ?P j"
      by (auto simp: find_Some_iff)
    moreover have "find_code_end data = k" using Some k(3) by (simp add: find_code_end_def Let_def)
    ultimately show ?thesis by auto
  qed
  have "length (take 12 data) - 12 = 0" by simp
  then have "find_code_end (take 12 data) = length (take 12 data)"
    by (simp only: find_code_end_def Let_def upt_0 find.simps option.case)
  with main show ?thesis by blast
qed

end
