(* ===== verification/Spec2Isabelle.thy ===== *)
theory Spec2Isabelle
  imports CaptureProps Noise Progress Rescue CloneNoise EmuTyped EmuHarnessProps Check8086
begin

text \<open>
  Verification of disk-xfer-rescue, a rescue imager for the hard disks of DOS machines.

  The program. A sender on the DOS machine (\<open>TX\<close>: \<open>tx-msdos/src/main.c\<close>, or the assembly
  \<open>tx.S\<close>) reads the disk through the BIOS and streams its sectors over a serial line to
  \<open>rx-host/rx.py\<close>, which writes an image, a mapfile in the format of GNU ddrescue and a list
  of bad sectors. The host decides what is read: it answers the sender's \<open>INFO\<close> frame with a
  worklist of sector ranges, the whole disk or, on \<open>--resume\<close>, what the mapfile says is bad or
  untried, or the ranges of \<open>--range\<close>. Each \<open>DATA\<close> frame carries its own sector number,
  status and checksum, and is acknowledged or refused; an \<open>EOT\<close> frame with the sender's totals
  ends the run. In the other direction \<open>rx.py --restore\<close> sends an image back to the writer
  \<open>WR\<close> on the DOS machine (\<open>wr.S\<close>), which writes it to the disk. \<open>tools/emu8086.py\<close> runs the DOS programs on an emulated 8086 with a
  simulated host, and \<open>tools/check_8086.py\<close> audits their opcodes.

  The theories, in the order in which they build on one another:

  \<^item> \<open>Prelude\<close>: the unbounded loop as a partial function, with its invariant and its measure
    rule, and little-endian byte fields.
  \<^item> \<open>Crc16\<close>: \<open>crc16\<close> of \<open>rx.py\<close> and \<open>crc16_update\<close> of \<open>crc16.c\<close>; they are the same function,
    and they detect every change of one byte or of two neighbouring ones.
  \<^item> \<open>PyText\<close>: what the program uses of Python's strings and numbers: \<open>strip\<close>, \<open>split\<close>, text
    lines, \<open>int\<close> with a base, number formats, items of a sequence.
  \<^item> \<open>StatusMap\<close>: the status map, its runs (\<open>build_runs\<close>) and counts.
  \<^item> \<open>Mapfile\<close>: \<open>write_mapfile\<close>, \<open>write_badlist\<close>, \<open>load_mapfile\<close>; the interface \<open>map_store\<close>.
  \<^item> \<open>Worklist\<close>: \<open>parse_ranges_spec\<close>, \<open>build_worklist\<close> and its coalescing; \<open>Coalesce\<close>: the
    coalesced worklist is the cheapest one that fits a command, and what it reads again.
  \<^item> \<open>ImageFile\<close>: the image as a byte list; the interface \<open>sector_file\<close>.
  \<^item> \<open>Link\<close>: the class \<open>Link\<close> and \<open>send_command\<close> over a port of arbitrary behaviour; the
    interface \<open>serial_line\<close> of a port behind which a device reacts and nothing is lost.
  \<^item> \<open>Verify\<close>: \<open>parse_partitions\<close>, \<open>fs_label\<close>, \<open>verify_image\<close>, \<open>--verify-only\<close>.
  \<^item> \<open>Capture\<close>: \<open>main\<close> from the handshake to the files; \<open>CaptureCorrect\<close>: its invariant and its
    journal, for every port; \<open>Received\<close>: the journal in the bytes read from the port, and the
    answers to them; \<open>LineRounds\<close>: what each frame, intact or damaged, does on a
    \<open>serial_line\<close>.
  \<^item> \<open>DosSender\<close>: \<open>main.c\<close> as a machine that reacts to bytes and timeouts; \<open>Wire\<close>: both ends
    agree on every field, and the sender reads the host's worklist.
  \<^item> \<open>DosMain\<close>: \<open>main.c\<close> as the program it is, from its options to its exit status, with the
    keyboard; \<open>DosEquiv\<close>: without a key press it refines the machine of \<open>DosSender\<close>, and its
    range loop ends; \<open>DosDrivers\<close>: \<open>int13.c\<close> and \<open>serial.c\<close>.
  \<^item> \<open>AsmRoutines\<close>: the routines \<open>tx.S\<close> and \<open>wr.S\<close> share, on 8086 registers, and that they compute
    what the C drivers compute; \<open>ComSender\<close>: \<open>TX.COM\<close>, and that it and the C program are one
    sender with another number of tries;
    \<open>ComWriter\<close>: \<open>WR.COM\<close>, with its calls of INT 13h as actions; \<open>WriterProps\<close>: what \<open>WR.COM\<close>
    does to the drive whatever it receives.
  \<^item> \<open>Session\<close>: a line with the sender behind it is a \<open>serial_line\<close>, and whole captures over it;
    \<open>Noise\<close>: captures over a line that damages and loses frames and answers (the interface
    \<open>noisy_line\<close>); \<open>CaptureProps\<close>: what holds of every capture over any port.
  \<^item> \<open>Restore\<close>: \<open>restore_run\<close> and what it writes to the line.
  \<^item> \<open>ProgramLine\<close>: a DOS program as the device behind a line; \<open>ComSessions\<close>: captures from
    \<open>TX.COM\<close>, and the interface \<open>quiet_line\<close>; \<open>CloneSession\<close>: restores to \<open>WR.COM\<close>, and a disk
    copied by a capture and a restore; \<open>CloneNoise\<close>: restores that lose answers.
  \<^item> \<open>HostMain\<close>: \<open>main\<close> of \<open>rx.py\<close> on its parsed arguments and a file system; \<open>Rescue\<close>: what
    several runs of the program do together (two passes over one disk, verifying a capture
    later); \<open>Progress\<close>: \<open>draw_bar\<close> and \<open>fmt_time\<close>.
  \<^item> \<open>EmuMachine\<close>, \<open>EmuStep\<close>, \<open>EmuHarness\<close>: the class \<open>Emu\<close> and both self-tests; \<open>EmuProps\<close>:
    arithmetic, flags, jumps, stack; \<open>EmuTyped\<close>: the types of its attributes are kept by every
    run; \<open>EmuHarnessProps\<close>: the simulated hosts.
  \<^item> \<open>Check8086\<close>: the opcode audit.

  How state and operations correspond. The locals of the receive loop are the record
  \<open>rx_state\<close>; the sender's globals and the place where it waits are \<open>tx_state\<close>; the attributes
  of an emulator are \<open>emu\<close>, extended by the variables of the write host. A serial port is a
  record of functions on a state of its own, so that every behaviour of pyserial, short reads,
  timeouts and exceptions included, is an instance. An operation that can raise returns a sum,
  one that may not return an option. Reading or setting an item of a list where an index could
  be wrong (the fields of a mapfile line, the status byte of a header, the entry of a sector in
  the map) is \<open>get_item\<close> and \<open>set_item\<close>, with \<open>IndexError\<close> as a value; \<open>load_mapfile_robust\<close> and
  \<open>capture_errors\<close> show that it does not occur. A \<open>while True\<close> loop that retries is \<open>while_true\<close>; \<open>None\<close>
  means that it does not return. The loops that always end are recursive functions with a
  measure, and the loop of the emulator's \<open>run\<close> is the recursion on its own limit of steps, so
  no fuel is chosen here.

  The C sender is modelled twice. As a device it is a transition function on a byte or an expired
  wait, which is what a port with a sender behind it needs. As a program it is a function of
  the list of such events in the sequence of \<open>main.c\<close>, with \<open>None\<close> where it still waits when
  the events are used up. The theorem \<open>program_refines_device\<close> makes every theorem about the
  device one about the program. Its ranges are counted by \<open>range_loop_ends\<close>: eight events for
  each sector and for the \<open>EOT\<close> are enough.

  The assembly programs are functions of such events too, built from the same steps, and a
  program of this form is the device on a line by itself (\<open>prog_react\<close>): the bytes are fed to it
  and the new bytes it sends are the answer. In \<open>TX.COM\<close> and \<open>WR.COM\<close> an expired wait is an event
  that does not come (\<open>asm_wait_never_expires\<close>); their theorems hold with and without it.

  What is assumed. A theorem over all ports that needs it names \<open>port_bounded\<close>: a read returns
  no more bytes than asked for. \<open>serial_line\<close> is the line that loses nothing. On the line of
  \<open>Noise\<close> a script says what happens to each \<open>DATA\<close> and \<open>EOT\<close> frame and to the answer to it: a
  frame may be lost or have one or two neighbouring bytes changed, an answer may be lost or
  become another byte that is not \<open>ACK\<close>; \<open>bearable\<close> says that no frame fails as often as the
  sender tries it. On the line of \<open>CloneNoise\<close> a list says which answers to the host lose their
  first byte. The disk is an arbitrary function from cylinder, head, sector and attempt to an
  outcome; \<open>bios_sized\<close> says that a read fills the sector buffer.

  What is not modelled, and why: of the drivers and the assembly programs only what is computed
  or polled, since registers and interrupts are hardware; the marks they print; within a program
  the calls of \<open>flush_input\<close>, since the bytes it drops are then no events. An INT 13h
  write that fails is taken to leave the sector as it was. The set-up of \<open>argparse\<close> and the
  opening of the port are an environment. A port can raise at each of its calls and nowhere
  else, and the file system raises nothing: a full disk or a Ctrl-C between two port calls is
  not covered. Printed messages are left out, except the report on an image, the list of ports
  and the numbers of the progress lines, whose floats are rationals with the rounding an
  argument.

  Next in this development: noise in the handshake and in the worklist, a writer that is stopped
  from the keyboard, and exceptions of the file system.
\<close>

end
